(* ===== verification/Prelude.thy ===== *)
theory Prelude
  imports Main "HOL-Library.Word" "HOL-Library.Signed_Division" "HOL-Library.While_Combinator"
begin

text \<open>
  Shared material of the development: the C integer limits and error numbers the device
  code uses, the faults that stand for undefined behaviour or an uncaught C++ exception,
  bounded writes into a buffer, and generic lemmas on lists, loops and remainders.

  A C \<open>int\<close> is modelled as \<open>int\<close> where the code keeps it far from its limits (the range
  is then a lemma, not an assumption), and as a word of its width where wrap-around or bit
  operations matter.
\<close>

named_theorems queue_simps \<open>laws of the sensor event queue\<close>
named_theorems handle_simps \<open>laws of the sensor handle tables\<close>

section \<open>C integers and error numbers\<close>

definition INT_MAX :: int where "INT_MAX = 2147483647"
definition INT_MIN :: int where "INT_MIN = - 2147483648"

definition EINVAL :: int where "EINVAL = 22"
definition ENOMEM :: int where "ENOMEM = 12"

definition in_int_range :: "int \<Rightarrow> bool" where
  "in_int_range i \<longleftrightarrow> INT_MIN \<le> i \<and> i \<le> INT_MAX"

text \<open>
  What ends the modelled run without a value: a dereferenced null pointer, an access
  outside an array, a mapped region or a live block, an uncaught \<open>std::out_of_range\<close>, and the release of
  a block that is not live.
\<close>

datatype fault = NullDeref | OutOfBounds | OutOfRange | BadFree

text \<open>
  What opening and reading a device node gives: \<open>open\<close> or \<open>read\<close> fails and returns -1, or the
  node has a content, of which \<open>read\<close> gives at most what was asked for.
\<close>

datatype node_read = OpenFails | ReadFails | Content string

text \<open>On the non-negative operands of the code's index arithmetic, C's remainder is \<open>mod\<close>.\<close>

lemma smod_eq_mod: "0 \<le> a \<Longrightarrow> 0 < b \<Longrightarrow> a smod b = a mod (b::int)"
  by (cases "a = 0") (simp_all add: signed_modulo_int_def)

lemma mod_add_one_less: "0 \<le> (i::int) \<Longrightarrow> i < n \<Longrightarrow> (i + 1) mod n = (if i + 1 = n then 0 else i + 1)"
  by auto

section \<open>Bounded writes\<close>

text \<open>
  \<open>poke xs off ys\<close> stores \<open>ys\<close> into the array \<open>xs\<close> from index \<open>off\<close> on; a store
  outside the array is \<open>None\<close>.
\<close>

definition poke :: "'a list \<Rightarrow> int \<Rightarrow> 'a list \<Rightarrow> 'a list option" where
  "poke xs off ys =
     (if 0 \<le> off \<and> off + int (length ys) \<le> int (length xs)
      then Some (take (nat off) xs @ ys @ drop (nat off + length ys) xs)
      else None)"

lemma poke_length: "poke xs off ys = Some zs \<Longrightarrow> length zs = length xs"
  by (auto simp: poke_def split: if_splits)

lemma poke_None_iff:
  "poke xs off ys = None \<longleftrightarrow> off < 0 \<or> int (length xs) < off + int (length ys)"
  by (auto simp: poke_def)

lemma poke_nth:
  assumes "poke xs off ys = Some zs" and "i < length xs"
  shows "zs ! i = (if off \<le> int i \<and> int i < off + int (length ys) then ys ! (i - nat off) else xs ! i)"
proof -
  from assms(1) have zs: "zs = take (nat off) xs @ ys @ drop (nat off + length ys) xs"
    and rng: "0 \<le> off" "off + int (length ys) \<le> int (length xs)"
    by (auto simp: poke_def split: if_splits)
  have min: "min (length xs) (nat off) = nat off" using rng by linarith
  show ?thesis
  proof (cases "i < nat off")
    case True
    with rng have "\<not> off \<le> int i" by linarith
    with True show ?thesis by (simp add: zs nth_append min)
  next
    case False
    then show ?thesis
      using rng assms(2) by (auto simp: zs nth_append min)
  qed
qed

lemma poke_window:
  assumes "poke xs off ys = Some zs"
  shows "take (length ys) (drop (nat off) zs) = ys"
  using assms by (auto simp: poke_def split: if_splits)

lemma take_drop_map_nth:
  "a + n \<le> length xs \<Longrightarrow> take n (drop a xs) = map (\<lambda>j. xs ! (a + j)) [0..<n]"
  by (rule nth_equalityI) auto

lemma upt_add_map: "[0..<a + b] = [0..<a] @ map (\<lambda>j. a + j) [0..<b]"
  by (induction b) auto

section \<open>Device nodes\<close>

text \<open>
  What was written to the nodes of sysfs, in order, as pairs of path and text; a node holds the
  last text written to it.
\<close>

type_synonym node_writes = "(string \<times> string) list"

definition node_text :: "node_writes \<Rightarrow> string \<Rightarrow> string option" where
  "node_text w p = map_of (rev w) p"

lemma node_text_append:
  "node_text (w @ w') p = (case node_text w' p of Some v \<Rightarrow> Some v | None \<Rightarrow> node_text w p)"
  by (simp add: node_text_def map_add_def split: option.split)

section \<open>Total loops\<close>

text \<open>
  A loop whose body keeps an invariant and lowers a measure returns, and returns a state
  in which the invariant holds and the guard does not.
\<close>

lemma while_option_total:
  fixes m :: "'s \<Rightarrow> nat"
  assumes "\<And>s. P s \<Longrightarrow> b s \<Longrightarrow> P (c s) \<and> m (c s) < m s" and "P s"
  shows "\<exists>t. while_option b c s = Some t \<and> P t \<and> \<not> b t"
proof -
  have "\<exists>t. while_option b c s = Some t"
    using measure_while_option_Some [of P b c m s] assms by blast
  then obtain t where t: "while_option b c s = Some t" ..
  have "P t" by (rule while_option_rule [of P b c s, OF _ t assms(2)]) (use assms(1) in blast)
  with t while_option_stop [OF t] show ?thesis by blast
qed

end
