(* ===== verification/EventQueue.thy ===== *)
theory EventQueue
  imports Prelude
begin

text \<open>
  \<^verbatim>\<open>sensors/SensorEventQueue.cpp\<close>: the fixed-size circular queue that each sub-HAL's writer
  thread fills and the multi-HAL's \<open>poll\<close> drains. The theory holds the class's fields and
  methods, the invariant, the abstraction to a list, the interface the reader side and the
  writer side rely on as two locales, and their interpretation on the class.
\<close>

section \<open>The class\<close>

record 'e sensor_queue =
  mCapacity :: int
  mStart :: int
  mSize :: int
  mData :: "'e list"

text \<open>The new array holds whatever was in memory (\<open>junk\<close>): the constructor does not clear it.\<close>

definition SensorEventQueue_new :: "int \<Rightarrow> (nat \<Rightarrow> 'e) \<Rightarrow> 'e sensor_queue" where
  "SensorEventQueue_new capacity junk =
     \<lparr>mCapacity = capacity, mStart = 0, mSize = 0, mData = map junk [0..<nat capacity]\<rparr>"

definition SensorEventQueue_delete :: "'e sensor_queue \<Rightarrow> 'e sensor_queue" where
  "SensorEventQueue_delete q = q\<lparr>mData := []\<rparr>"

text \<open>The result is the length and the index in \<open>mData\<close> that \<open>*out\<close> points to, or no pointer.\<close>

definition getWritableRegion :: "'e sensor_queue \<Rightarrow> int \<Rightarrow> int \<times> int option" where
  "getWritableRegion q requestedLength =
     (if mSize q = mCapacity q \<or> requestedLength \<le> 0 then (0, None)
      else
        let firstWritable = (mStart q + mSize q) smod mCapacity q;
            lastWritable = firstWritable + requestedLength - 1;
            lastWritable = (if lastWritable > mCapacity q - 1 then mCapacity q - 1 else lastWritable);
            lastWritable = (if firstWritable < mStart q \<and> lastWritable \<ge> mStart q
                            then mStart q - 1 else lastWritable)
        in (lastWritable - firstWritable + 1, Some firstWritable))"

definition markAsWritten :: "'e sensor_queue \<Rightarrow> int \<Rightarrow> 'e sensor_queue" where
  "markAsWritten q count = q\<lparr>mSize := mSize q + count\<rparr>"

definition getSize :: "'e sensor_queue \<Rightarrow> int" where
  "getSize q = mSize q"

definition peek :: "'e sensor_queue \<Rightarrow> 'e option" where
  "peek q = (if mSize q = 0 then None else Some (mData q ! nat (mStart q)))"

text \<open>The second component tells whether \<open>mSpaceAvailableCondition\<close> was broadcast.\<close>

definition dequeue_signal :: "'e sensor_queue \<Rightarrow> 'e sensor_queue \<times> bool" where
  "dequeue_signal q =
     (if mSize q = 0 then (q, False)
      else (q\<lparr>mSize := mSize q - 1, mStart := (mStart q + 1) smod mCapacity q\<rparr>,
            mSize q = mCapacity q))"

definition dequeue :: "'e sensor_queue \<Rightarrow> 'e sensor_queue" where
  "dequeue q = fst (dequeue_signal q)"

text \<open>
  \<open>waitForSpace q wakes\<close>: the queue as it is when the call is made with the mutex held, and as
  it is at each return from \<open>pthread_cond_wait\<close>. \<open>None\<close> is a caller still blocked.
\<close>

fun waitForSpace_loop :: "bool \<Rightarrow> 'e sensor_queue \<Rightarrow> 'e sensor_queue list \<Rightarrow> (bool \<times> 'e sensor_queue) option" where
  "waitForSpace_loop waited q wakes =
     (if mSize q = mCapacity q
      then (case wakes of [] \<Rightarrow> None | q' # wakes' \<Rightarrow> waitForSpace_loop True q' wakes')
      else Some (waited, q))"

declare waitForSpace_loop.simps [simp del]

definition waitForSpace :: "'e sensor_queue \<Rightarrow> 'e sensor_queue list \<Rightarrow> (bool \<times> 'e sensor_queue) option" where
  "waitForSpace q wakes = waitForSpace_loop False q wakes"

lemma waitForSpace_loop_eq:
  "waitForSpace_loop w q wakes =
     (case dropWhile (\<lambda>x. mSize x = mCapacity x) (q # wakes) of
        [] \<Rightarrow> None | q' # _ \<Rightarrow> Some (w \<or> mSize q = mCapacity q, q'))"
proof (induction wakes arbitrary: w q)
  case Nil
  then show ?case by (simp add: waitForSpace_loop.simps)
next
  case (Cons a wakes)
  show ?case
    by (cases "mSize q = mCapacity q") (simp_all add: waitForSpace_loop.simps [of w q] Cons.IH cong: list.case_cong)
qed

text \<open>What a sub-HAL's \<open>poll\<close> does with the pointer it is given: a store into \<open>mData\<close>.\<close>

definition fillRegion :: "'e sensor_queue \<Rightarrow> int \<Rightarrow> 'e list \<Rightarrow> 'e sensor_queue option" where
  "fillRegion q out events = map_option (\<lambda>d. q\<lparr>mData := d\<rparr>) (poke (mData q) out events)"

section \<open>Invariant and abstraction\<close>

definition queue_inv :: "'e sensor_queue \<Rightarrow> bool" where
  "queue_inv q \<longleftrightarrow> 0 < mCapacity q \<and> int (length (mData q)) = mCapacity q
     \<and> 0 \<le> mStart q \<and> mStart q < mCapacity q \<and> 0 \<le> mSize q \<and> mSize q \<le> mCapacity q"

definition slot :: "'e sensor_queue \<Rightarrow> nat \<Rightarrow> nat" where
  "slot q i = nat ((mStart q + int i) mod mCapacity q)"

definition queue_list :: "'e sensor_queue \<Rightarrow> 'e list" where
  "queue_list q = map (\<lambda>i. mData q ! slot q i) [0..<nat (mSize q)]"

text \<open>
  A region handed to the writer stays good while the reader dequeues: it begins at the first
  free slot, does not wrap, and is no longer than the free space.
\<close>

definition region_ok :: "'e sensor_queue \<Rightarrow> int \<Rightarrow> int \<Rightarrow> bool" where
  "region_ok q off len \<longleftrightarrow> 0 \<le> len \<and> off = (mStart q + mSize q) mod mCapacity q
     \<and> off + len \<le> mCapacity q \<and> mSize q + len \<le> mCapacity q"

definition pending :: "'e sensor_queue \<Rightarrow> int \<Rightarrow> int \<Rightarrow> 'e list" where
  "pending q off k = take (nat k) (drop (nat off) (mData q))"

definition readable_slots :: "'e sensor_queue \<Rightarrow> nat set" where
  "readable_slots q = slot q ` {0..<nat (mSize q)}"

lemma queue_list_length [simp]: "length (queue_list q) = nat (mSize q)"
  by (simp add: queue_list_def)

lemma queue_list_nth: "i < nat (mSize q) \<Longrightarrow> queue_list q ! i = mData q ! slot q i"
  by (simp add: queue_list_def)

lemma queue_inv_new: "0 < c \<Longrightarrow> queue_inv (SensorEventQueue_new c junk)"
  by (simp add: queue_inv_def SensorEventQueue_new_def)

lemma queue_list_new: "queue_list (SensorEventQueue_new c junk) = []"
  by (simp add: queue_list_def SensorEventQueue_new_def)

lemma slot_less: "queue_inv q \<Longrightarrow> slot q i < length (mData q)"
  unfolding queue_inv_def slot_def
  by (metis nat_less_iff pos_mod_bound pos_mod_sign)

lemma slot_0: "queue_inv q \<Longrightarrow> slot q 0 = nat (mStart q)"
  by (simp add: slot_def queue_inv_def)

lemma queue_inv_empty_iff: "queue_inv q \<Longrightarrow> queue_list q = [] \<longleftrightarrow> mSize q = 0"
  by (auto simp: queue_inv_def queue_list_def)

section \<open>The reader side\<close>

lemma peek_list: "queue_inv q \<Longrightarrow> peek q = (case queue_list q of [] \<Rightarrow> None | e # _ \<Rightarrow> Some e)"
proof (cases "mSize q = 0")
  case True
  then show ?thesis by (simp add: peek_def queue_list_def)
next
  case False
  assume inv: "queue_inv q"
  with False have "0 < nat (mSize q)" by (simp add: queue_inv_def)
  then have "[0..<nat (mSize q)] = 0 # [1..<nat (mSize q)]" by (simp add: upt_conv_Cons)
  then have "queue_list q = (mData q ! slot q 0) # map (\<lambda>i. mData q ! slot q i) [1..<nat (mSize q)]"
    unfolding queue_list_def by simp
  with False slot_0 [OF inv] show ?thesis by (simp add: peek_def)
qed

lemma dequeue_fields:
  assumes "queue_inv q" and "mSize q \<noteq> 0"
  shows "dequeue q = q\<lparr>mSize := mSize q - 1, mStart := (mStart q + 1) mod mCapacity q\<rparr>"
  using assms by (simp add: dequeue_def dequeue_signal_def queue_inv_def smod_eq_mod)

lemma dequeue_empty: "mSize q = 0 \<Longrightarrow> dequeue q = q"
  by (simp add: dequeue_def dequeue_signal_def)

lemma dequeue_inv: "queue_inv q \<Longrightarrow> queue_inv (dequeue q)"
proof (cases "mSize q = 0")
  case False
  assume inv: "queue_inv q"
  then have "0 < mCapacity q" by (simp add: queue_inv_def)
  then show ?thesis using inv False
    by (simp add: dequeue_fields) (auto simp: queue_inv_def)
qed (simp add: dequeue_empty)

lemma slot_dequeue:
  assumes "queue_inv q" and "mSize q \<noteq> 0"
  shows "slot (dequeue q) i = slot q (Suc i)"
  using assms by (simp add: dequeue_fields slot_def mod_simps algebra_simps)

lemma dequeue_list: "queue_inv q \<Longrightarrow> queue_list (dequeue q) = tl (queue_list q)"
proof (cases "mSize q = 0")
  case True
  then show ?thesis by (simp add: dequeue_empty queue_list_def)
next
  case False
  assume inv: "queue_inv q"
  show ?thesis
  proof (rule nth_equalityI)
    show "length (queue_list (dequeue q)) = length (tl (queue_list q))"
      using inv False by (simp add: dequeue_fields nat_diff_distrib)
  next
    fix i assume "i < length (queue_list (dequeue q))"
    then have i: "i < nat (mSize q - 1)" using inv False by (simp add: dequeue_fields)
    have d: "mData (dequeue q) = mData q" using inv False by (simp add: dequeue_fields)
    have "queue_list (dequeue q) ! i = mData q ! slot q (Suc i)"
      using i inv False d by (simp add: queue_list_nth dequeue_fields slot_dequeue [symmetric])
    also have "\<dots> = tl (queue_list q) ! i" using i by (simp add: nth_tl queue_list_nth)
    finally show "queue_list (dequeue q) ! i = tl (queue_list q) ! i" .
  qed
qed

section \<open>The writer side\<close>

lemma first_free_slot:
  assumes "queue_inv q"
  shows "(mStart q + mSize q) mod mCapacity q =
    (if mStart q + mSize q < mCapacity q then mStart q + mSize q
     else mStart q + mSize q - mCapacity q)"
proof (cases "mStart q + mSize q < mCapacity q")
  case True
  with assms show ?thesis by (simp add: queue_inv_def)
next
  case False
  have "(mStart q + mSize q) mod mCapacity q = (mStart q + mSize q - mCapacity q) mod mCapacity q"
    by (simp add: mod_diff_right_eq)
  also have "\<dots> = mStart q + mSize q - mCapacity q"
    using assms False by (intro mod_pos_pos_trivial) (auto simp: queue_inv_def)
  finally show ?thesis using False by simp
qed

lemma first_free_slot_smod:
  "queue_inv q \<Longrightarrow> (mStart q + mSize q) smod mCapacity q = (mStart q + mSize q) mod mCapacity q"
  by (simp add: queue_inv_def smod_eq_mod)

text \<open>The length is exactly the contiguous free space, cut to the request.\<close>

lemma getWritableRegion_length:
  assumes "queue_inv q" and "getWritableRegion q n = (len, Some off)"
  shows "off = (mStart q + mSize q) mod mCapacity q"
    and "len = min n (min (mCapacity q - mSize q) (mCapacity q - off))"
    and "0 < n" and "mSize q < mCapacity q"
proof -
  have ne: "mSize q \<noteq> mCapacity q" "0 < n"
    using assms(2) by (auto simp: getWritableRegion_def split: if_splits)
  have rng: "0 \<le> mStart q" "mStart q < mCapacity q" "0 \<le> mSize q" "mSize q < mCapacity q"
    using assms(1) ne by (auto simp: queue_inv_def)
  define s where "s = (mStart q + mSize q) mod mCapacity q"
  have s: "s = (if mStart q + mSize q < mCapacity q then mStart q + mSize q
                else mStart q + mSize q - mCapacity q)"
    unfolding s_def using assms(1) by (rule first_free_slot)
  have eqs: "s = off" "len = (if s < mStart q \<and> (if s + n - 1 > mCapacity q - 1 then mCapacity q - 1 else s + n - 1) \<ge> mStart q
          then mStart q - 1 else (if s + n - 1 > mCapacity q - 1 then mCapacity q - 1 else s + n - 1)) - s + 1"
    using assms(2) ne unfolding getWritableRegion_def Let_def first_free_slot_smod [OF assms(1)] s_def
    by auto
  show "off = (mStart q + mSize q) mod mCapacity q" using eqs(1) by (simp add: s_def)
  show "len = min n (min (mCapacity q - mSize q) (mCapacity q - off))"
  proof (cases "mStart q + mSize q < mCapacity q")
    case True
    with s rng eqs(1) have "off = mStart q + mSize q" "\<not> s < mStart q" by auto
    with eqs rng show ?thesis by (auto simp: min_def)
  next
    case False
    with s rng eqs(1) have "off = mStart q + mSize q - mCapacity q" "s < mStart q" by auto
    with eqs rng False show ?thesis by (simp add: min_def)
  qed
  show "0 < n" and "mSize q < mCapacity q" using ne rng by auto
qed

lemma getWritableRegion_Some:
  assumes "queue_inv q" and "getWritableRegion q n = (len, Some off)"
  shows "region_ok q off len" and "1 \<le> len" and "len \<le> n"
proof -
  note len = getWritableRegion_length [OF assms]
  have "0 < mCapacity q" using assms(1) by (simp add: queue_inv_def)
  then have off: "0 \<le> off" "off < mCapacity q" using len(1) by simp_all
  show ge: "1 \<le> len" and "len \<le> n" using len(2,3,4) off by linarith+
  have "off + len \<le> mCapacity q" "mSize q + len \<le> mCapacity q" using len(2) by linarith+
  then show "region_ok q off len" unfolding region_ok_def using ge len(1) by linarith
qed

lemma getWritableRegion_None:
  "getWritableRegion q n = (len, None) \<longleftrightarrow> len = 0 \<and> (mSize q = mCapacity q \<or> n \<le> 0)"
  by (auto simp: getWritableRegion_def Let_def)

text \<open>No intermediate value of the index arithmetic leaves the C \<open>int\<close> range.\<close>

lemma getWritableRegion_no_overflow:
  assumes "queue_inv q" and "0 < n" and "2 * mCapacity q + n \<le> INT_MAX"
  shows "in_int_range (mStart q + mSize q)"
    and "in_int_range ((mStart q + mSize q) smod mCapacity q + n)"
proof -
  have rng: "0 \<le> mStart q" "mStart q < mCapacity q" "0 \<le> mSize q" "mSize q \<le> mCapacity q"
    using assms(1) by (simp_all add: queue_inv_def)
  show "in_int_range (mStart q + mSize q)"
    using rng assms by (simp add: in_int_range_def INT_MIN_def)
  have "0 \<le> (mStart q + mSize q) mod mCapacity q" "(mStart q + mSize q) mod mCapacity q < mCapacity q"
    using rng by simp_all
  then show "in_int_range ((mStart q + mSize q) smod mCapacity q + n)"
    unfolding in_int_range_def INT_MIN_def first_free_slot_smod [OF assms(1)]
    using rng assms(2,3) by linarith
qed

lemma region_ok_dequeue:
  assumes "queue_inv q" and "region_ok q off len"
  shows "region_ok (dequeue q) off len"
proof (cases "mSize q = 0")
  case False
  with assms show ?thesis
    by (simp add: dequeue_fields region_ok_def mod_simps)
qed (use assms in \<open>simp add: dequeue_empty\<close>)

lemma region_slot:
  assumes "queue_inv q" and "region_ok q off len" and "int j < len"
  shows "slot q (nat (mSize q) + j) = nat off + j"
proof -
  have c: "0 < mCapacity q" "0 \<le> mSize q" using assms(1) by (simp_all add: queue_inv_def)
  have off: "off = (mStart q + mSize q) mod mCapacity q" "off + len \<le> mCapacity q"
    using assms(2) by (simp_all add: region_ok_def)
  have "0 \<le> off" using off(1) c by simp
  have "(mStart q + int (nat (mSize q) + j)) mod mCapacity q = (off + int j) mod mCapacity q"
    using c off(1) by (simp add: mod_simps add.assoc)
  also have "\<dots> = off + int j"
    using \<open>0 \<le> off\<close> off(2) assms(3) by (intro mod_pos_pos_trivial) auto
  finally show ?thesis using \<open>0 \<le> off\<close> by (simp add: slot_def nat_add_distrib)
qed

lemma slot_inj:
  assumes "queue_inv q" and "slot q i = slot q j" and "int i < mCapacity q" and "int j < mCapacity q"
  shows "i = j"
proof -
  have c: "0 < mCapacity q" using assms(1) by (simp add: queue_inv_def)
  let ?a = "(mStart q + int i) mod mCapacity q" and ?b = "(mStart q + int j) mod mCapacity q"
  have "nat ?a = nat ?b" using assms(2) by (simp only: slot_def)
  moreover have "0 \<le> ?a" "0 \<le> ?b" using c by simp_all
  ultimately have "?a = ?b" by linarith
  then have "mCapacity q dvd (mStart q + int i) - (mStart q + int j)"
    by (simp only: mod_eq_dvd_iff)
  then have dvd: "mCapacity q dvd (int i - int j)" by simp
  show ?thesis
  proof (rule ccontr)
    assume "i \<noteq> j"
    then have "int i - int j \<noteq> 0" by simp
    then have "\<bar>mCapacity q\<bar> \<le> \<bar>int i - int j\<bar>" using dvd by (rule dvd_imp_le_int)
    then show False using assms(3,4) by linarith
  qed
qed

text \<open>The writer's region never meets a slot the reader may look at.\<close>

lemma region_not_readable:
  assumes "queue_inv q" and "region_ok q off len" and "int j < len"
  shows "nat off + j \<notin> readable_slots q"
proof
  assume "nat off + j \<in> readable_slots q"
  then obtain i where i: "i < nat (mSize q)" and "nat off + j = slot q i"
    by (auto simp: readable_slots_def)
  then have eq: "slot q i = slot q (nat (mSize q) + j)"
    using region_slot [OF assms] by simp
  have lt: "int (nat (mSize q) + j) < mCapacity q" "int i < mCapacity q"
    using assms i by (auto simp: region_ok_def queue_inv_def)
  have "i = nat (mSize q) + j" by (rule slot_inj [OF assms(1) eq lt(2,1)])
  with i show False by simp
qed

lemma fillRegion_Some:
  assumes "queue_inv q" and "region_ok q off len" and "int (length evs) \<le> len"
  obtains d where "fillRegion q off evs = Some (q\<lparr>mData := d\<rparr>)"
    and "poke (mData q) off evs = Some d" and "length d = length (mData q)"
proof -
  have "0 < mCapacity q" and len: "int (length (mData q)) = mCapacity q"
    using assms(1) by (simp_all add: queue_inv_def)
  then have "0 \<le> off" using assms(2) by (simp add: region_ok_def)
  moreover have "off + int (length evs) \<le> int (length (mData q))"
    using assms(2,3) len by (simp add: region_ok_def)
  ultimately have "poke (mData q) off evs \<noteq> None" by (simp add: poke_None_iff)
  then obtain d where "poke (mData q) off evs = Some d" by blast
  with that [of d] poke_length [OF this] show thesis by (simp add: fillRegion_def)
qed

lemma fillRegion_ok:
  assumes "queue_inv q" and "region_ok q off len" and "int (length evs) \<le> len"
  shows "\<exists>q'. fillRegion q off evs = Some q' \<and> queue_inv q' \<and> region_ok q' off len
    \<and> queue_list q' = queue_list q \<and> pending q' off (int (length evs)) = evs"
proof -
  obtain d where fill: "fillRegion q off evs = Some (q\<lparr>mData := d\<rparr>)"
    and d: "poke (mData q) off evs = Some d" "length d = length (mData q)"
    by (rule fillRegion_Some [OF assms])
  have same: "d ! slot q i = mData q ! slot q i" if i: "i < nat (mSize q)" for i
  proof -
    have sl: "slot q i < length (mData q)" by (rule slot_less [OF assms(1)])
    have "0 \<le> off" using assms(1,2) by (simp add: region_ok_def queue_inv_def)
    moreover have "slot q i \<in> readable_slots q" using i by (auto simp: readable_slots_def)
    ultimately have "\<not> (off \<le> int (slot q i) \<and> int (slot q i) < off + int (length evs))"
      using region_not_readable [OF assms(1,2), of "slot q i - nat off"] assms(3) by auto
    then show ?thesis using poke_nth [OF d(1) sl] by presburger
  qed
  have "queue_list (q\<lparr>mData := d\<rparr>) = queue_list q"
    by (auto simp: queue_list_def slot_def same [unfolded slot_def])
  moreover have "pending (q\<lparr>mData := d\<rparr>) off (int (length evs)) = evs"
    using poke_window [OF d(1)] by (simp add: pending_def)
  ultimately show ?thesis using fill assms(1,2) d(2)
    by (auto simp: queue_inv_def region_ok_def)
qed

lemma markAsWritten_ok:
  assumes "queue_inv q" and "region_ok q off len" and "0 \<le> k" and "k \<le> len"
  shows "queue_inv (markAsWritten q k)"
    and "queue_list (markAsWritten q k) = queue_list q @ pending q off k"
proof -
  have c: "0 < mCapacity q" "0 \<le> mSize q" "int (length (mData q)) = mCapacity q"
    using assms(1) by (simp_all add: queue_inv_def)
  have r: "0 \<le> off" "off + len \<le> mCapacity q" "mSize q + len \<le> mCapacity q"
    using assms(2) c(1) by (simp_all add: region_ok_def)
  show "queue_inv (markAsWritten q k)"
    using assms r by (simp add: queue_inv_def markAsWritten_def)
  have sl: "slot (markAsWritten q k) = slot q" "mData (markAsWritten q k) = mData q"
    by (simp_all add: slot_def markAsWritten_def fun_eq_iff)
  have n: "nat (mSize (markAsWritten q k)) = nat (mSize q) + nat k"
    using c assms(3) by (simp add: markAsWritten_def nat_add_distrib)
  have "queue_list (markAsWritten q k) =
      queue_list q @ map (\<lambda>j. mData q ! slot q (nat (mSize q) + j)) [0..<nat k]"
    by (simp add: queue_list_def sl n upt_add_map)
  also have "map (\<lambda>j. mData q ! slot q (nat (mSize q) + j)) [0..<nat k] = pending q off k"
  proof -
    have "nat off + nat k \<le> length (mData q)" using r c(3) assms(3,4) by linarith
    then have "pending q off k = map (\<lambda>j. mData q ! (nat off + j)) [0..<nat k]"
      by (simp add: pending_def take_drop_map_nth)
    moreover have "slot q (nat (mSize q) + j) = nat off + j" if "j < nat k" for j
      using that assms(4) by (intro region_slot [OF assms(1,2)]) linarith
    ultimately show ?thesis by simp
  qed
  finally show "queue_list (markAsWritten q k) = queue_list q @ pending q off k" .
qed

lemma pending_dequeue: "pending (dequeue q) off k = pending q off k"
  by (simp add: pending_def dequeue_def dequeue_signal_def)

section \<open>The interfaces\<close>

text \<open>
  What \<open>sensors_poll_context_t::poll\<close> relies on (\<open>fifo_reader\<close>) and what a writer thread
  relies on in addition (\<open>fifo_writer\<close>): the region it was handed stays good while the reader
  dequeues, a store into it is not seen by the reader, and marking it appends it.
\<close>

locale fifo_reader =
  fixes inv :: "'q \<Rightarrow> bool" and contents :: "'q \<Rightarrow> 'e list"
    and front :: "'q \<Rightarrow> 'e option" and deq :: "'q \<Rightarrow> 'q"
  assumes front_law: "inv q \<Longrightarrow> front q = (case contents q of [] \<Rightarrow> None | e # _ \<Rightarrow> Some e)"
    and deq_law: "inv q \<Longrightarrow> contents (deq q) = tl (contents q)"
    and deq_inv: "inv q \<Longrightarrow> inv (deq q)"
begin

lemma front_None_iff: "inv q \<Longrightarrow> front q = None \<longleftrightarrow> contents q = []"
  by (simp add: front_law split: list.split)

lemma front_SomeD: "inv q \<Longrightarrow> front q = Some e \<Longrightarrow> contents q = e # contents (deq q)"
  by (auto simp: front_law deq_law split: list.splits)

lemma deq_shorter: "inv q \<Longrightarrow> front q = Some e \<Longrightarrow> length (contents (deq q)) < length (contents q)"
  by (drule (1) front_SomeD) simp

lemma deq_pow: "inv q \<Longrightarrow> inv ((deq ^^ n) q) \<and> contents ((deq ^^ n) q) = drop n (contents q)"
  by (induction n) (auto simp: deq_law deq_inv tl_drop drop_Suc)

end

locale fifo_writer = fifo_reader inv contents front deq
  for inv :: "'q \<Rightarrow> bool" and contents :: "'q \<Rightarrow> 'e list"
    and front :: "'q \<Rightarrow> 'e option" and deq :: "'q \<Rightarrow> 'q" +
  fixes region :: "'q \<Rightarrow> int \<Rightarrow> int \<times> int option" and valid :: "'q \<Rightarrow> int \<Rightarrow> int \<Rightarrow> bool"
    and fill :: "'q \<Rightarrow> int \<Rightarrow> 'e list \<Rightarrow> 'q option" and mark :: "'q \<Rightarrow> int \<Rightarrow> 'q"
    and pend :: "'q \<Rightarrow> int \<Rightarrow> int \<Rightarrow> 'e list"
  assumes region_law: "inv q \<Longrightarrow> region q n = (len, Some off) \<Longrightarrow> valid q off len \<and> 1 \<le> len \<and> len \<le> n"
    and valid_deq: "inv q \<Longrightarrow> valid q off len \<Longrightarrow> valid (deq q) off len"
    and pend_deq: "pend (deq q) off k = pend q off k"
    and fill_law: "inv q \<Longrightarrow> valid q off len \<Longrightarrow> int (length evs) \<le> len \<Longrightarrow>
      \<exists>q'. fill q off evs = Some q' \<and> inv q' \<and> valid q' off len
        \<and> contents q' = contents q \<and> pend q' off (int (length evs)) = evs"
    and mark_law: "inv q \<Longrightarrow> valid q off len \<Longrightarrow> 0 \<le> k \<Longrightarrow> k \<le> len \<Longrightarrow>
      inv (mark q k) \<and> contents (mark q k) = contents q @ pend q off k"
begin

lemma valid_deq_pow: "inv q \<Longrightarrow> valid q off len \<Longrightarrow> valid ((deq ^^ n) q) off len"
  by (induction n) (auto simp: valid_deq deq_pow)

lemma pend_deq_pow: "pend ((deq ^^ n) q) off k = pend q off k"
  by (induction n) (simp_all add: pend_deq)

text \<open>
  One writer cycle with \<open>i\<close> reads before the sub-HAL's store lands and \<open>j\<close> reads between the
  store and the marking: the reads take from the front, the events arrive at the back.
\<close>

lemma transfer:
  assumes "inv q" and "region q n = (len, Some off)" and "int (length evs) \<le> len"
  shows "\<exists>q'. fill ((deq ^^ i) q) off evs = Some q'
    \<and> inv (mark ((deq ^^ j) q') (int (length evs)))
    \<and> contents (mark ((deq ^^ j) q') (int (length evs))) = drop (i + j) (contents q) @ evs"
proof -
  have v: "valid q off len" using region_law [OF assms(1,2)] by simp
  have i: "inv ((deq ^^ i) q)" "contents ((deq ^^ i) q) = drop i (contents q)"
    using deq_pow [OF assms(1)] by auto
  obtain q' where q': "fill ((deq ^^ i) q) off evs = Some q'" "inv q'" "valid q' off len"
    "contents q' = drop i (contents q)" "pend q' off (int (length evs)) = evs"
    using fill_law [OF i(1) valid_deq_pow [OF assms(1) v] assms(3)] i(2) by auto
  have j: "inv ((deq ^^ j) q')" "contents ((deq ^^ j) q') = drop (i + j) (contents q)"
    using deq_pow [OF q'(2), of j] q'(4) by (auto simp: add.commute)
  from mark_law [OF j(1) valid_deq_pow [OF q'(2,3)], of "int (length evs)"] q' j(2) assms(3)
  show ?thesis by (auto simp: pend_deq_pow)
qed

end

interpretation seq: fifo_writer queue_inv queue_list peek dequeue getWritableRegion region_ok
  fillRegion markAsWritten pending
proof unfold_locales
  fix q :: "'e sensor_queue" and off len k n :: int and evs :: "'e list"
  show "queue_inv q \<Longrightarrow> peek q = (case queue_list q of [] \<Rightarrow> None | e # _ \<Rightarrow> Some e)"
    by (rule peek_list)
  show "queue_inv q \<Longrightarrow> queue_list (dequeue q) = tl (queue_list q)" by (rule dequeue_list)
  show "queue_inv q \<Longrightarrow> queue_inv (dequeue q)" by (rule dequeue_inv)
  show "queue_inv q \<Longrightarrow> getWritableRegion q n = (len, Some off) \<Longrightarrow> region_ok q off len \<and> 1 \<le> len \<and> len \<le> n"
    using getWritableRegion_Some by blast
  show "queue_inv q \<Longrightarrow> region_ok q off len \<Longrightarrow> region_ok (dequeue q) off len"
    by (rule region_ok_dequeue)
  show "pending (dequeue q) off k = pending q off k" by (rule pending_dequeue)
  show "queue_inv q \<Longrightarrow> region_ok q off len \<Longrightarrow> int (length evs) \<le> len \<Longrightarrow>
      \<exists>q'. fillRegion q off evs = Some q' \<and> queue_inv q' \<and> region_ok q' off len
        \<and> queue_list q' = queue_list q \<and> pending q' off (int (length evs)) = evs"
    by (rule fillRegion_ok)
  show "queue_inv q \<Longrightarrow> region_ok q off len \<Longrightarrow> 0 \<le> k \<Longrightarrow> k \<le> len \<Longrightarrow>
      queue_inv (markAsWritten q k) \<and> queue_list (markAsWritten q k) = queue_list q @ pending q off k"
    using markAsWritten_ok by blast
qed

lemmas queue_reader_laws = seq.front_None_iff seq.front_SomeD seq.deq_shorter seq.deq_law seq.deq_inv

section \<open>Properties\<close>

text \<open>
  C5. The circular queue is a FIFO under the locking discipline of its header: when the writer
  obtains a region, its sub-HAL stores up to that many events into it without the lock, and
  the writer marks them, then however many dequeues the reader runs before and after the
  store, the store is inside the array, the invariant holds again, and the readable events
  are the old ones less those dequeued, followed by the new ones in order.
\<close>

theorem queue_interleaved_transfer:
  assumes "queue_inv q" and "getWritableRegion q n = (len, Some off)"
    and "int (length evs) \<le> len"
  shows "\<exists>q'. fillRegion ((dequeue ^^ i) q) off evs = Some q'
    \<and> queue_inv (markAsWritten ((dequeue ^^ j) q') (int (length evs)))
    \<and> queue_list (markAsWritten ((dequeue ^^ j) q') (int (length evs)))
       = drop (i + j) (queue_list q) @ evs"
  by (rule seq.transfer [OF assms])

definition wrapped_queue :: "nat sensor_queue" where
  "wrapped_queue = \<lparr>mCapacity = 4, mStart = 3, mSize = 2, mData = [11, 12, 13, 10]\<rparr>"

lemma wrapped_queue_inv: "queue_inv wrapped_queue"
  by (simp add: wrapped_queue_def queue_inv_def)

theorem queue_interleaved_transfer_witness:
  "\<exists>q'. fillRegion ((dequeue ^^ 1) wrapped_queue) 1 [20, 21] = Some q'
    \<and> queue_inv (markAsWritten ((dequeue ^^ 1) q') 2)
    \<and> queue_list (markAsWritten ((dequeue ^^ 1) q') 2) = [20, 21]"
proof -
  have r: "getWritableRegion wrapped_queue 36 = (2, Some 1)"
    by (simp add: wrapped_queue_def getWritableRegion_def signed_modulo_int_def)
  have l: "queue_list wrapped_queue = [10, 11]"
    by (simp add: wrapped_queue_def queue_list_def slot_def upt_rec)
  show ?thesis
    using queue_interleaved_transfer [OF wrapped_queue_inv r, of "[20, 21]" 1 1] unfolding l
    by (simp del: funpow.simps)
qed

text \<open>
  C6. \<open>getWritableRegion\<close> gives no pointer exactly when the queue is full or nothing was asked
  for. Otherwise the region starts at the first free slot, has at least one record, is exactly
  as long as the free slots that follow without wrapping allow (cut to the request), stays in
  the array, and holds no slot that the reader may read.
\<close>

theorem getWritableRegion_correct:
  assumes "queue_inv q"
  shows "case getWritableRegion q n of
      (len, None) \<Rightarrow> len = 0 \<and> (mSize q = mCapacity q \<or> n \<le> 0)
    | (len, Some off) \<Rightarrow>
        mSize q < mCapacity q \<and> 1 \<le> len \<and> off = (mStart q + mSize q) mod mCapacity q
        \<and> len = min n (min (mCapacity q - mSize q) (mCapacity q - off))
        \<and> off + len \<le> int (length (mData q))
        \<and> readable_slots q \<inter> {nat off..<nat (off + len)} = {}"
proof (cases "getWritableRegion q n")
  case (Pair len out)
  show ?thesis
  proof (cases out)
    case None
    with Pair show ?thesis using getWritableRegion_None [of q n len] by simp
  next
    case (Some off)
    with Pair have r: "getWritableRegion q n = (len, Some off)" by simp
    note ok = getWritableRegion_Some [OF assms r]
    have cap: "0 < mCapacity q" "int (length (mData q)) = mCapacity q"
      using assms by (simp_all add: queue_inv_def)
    have "0 \<le> off" using ok(1) cap(1) by (simp add: region_ok_def)
    then have "x \<notin> readable_slots q" if "nat off \<le> x" "x < nat (off + len)" for x
      using region_not_readable [OF assms ok(1), of "x - nat off"] that by simp
    then have "readable_slots q \<inter> {nat off..<nat (off + len)} = {}" by auto
    moreover have "off + len \<le> int (length (mData q))" using ok(1) cap(2) by (simp add: region_ok_def)
    ultimately show ?thesis
      unfolding r prod.case option.case using ok(2) getWritableRegion_length [OF assms r] by blast
  qed
qed

theorem getWritableRegion_correct_witness:
  "getWritableRegion wrapped_queue 36 = (2, Some 1) \<and> readable_slots wrapped_queue \<inter> {1..<3} = {}"
proof -
  have r: "getWritableRegion wrapped_queue 36 = (2, Some 1)"
    by (simp add: wrapped_queue_def getWritableRegion_def signed_modulo_int_def)
  with getWritableRegion_correct [OF wrapped_queue_inv, of 36] show ?thesis by simp
qed

text \<open>
  \<open>waitForSpace\<close> keeps its caller blocked over any number of wake-ups, spurious ones
  included, until the queue is not full; it then returns with that queue, and returns
  \<open>true\<close> exactly if it had to wait.
\<close>

theorem waitForSpace_correct:
  "waitForSpace q wakes =
     (case dropWhile (\<lambda>x. mSize x = mCapacity x) (q # wakes) of
        [] \<Rightarrow> None | q' # _ \<Rightarrow> Some (mSize q = mCapacity q, q'))"
  unfolding waitForSpace_def waitForSpace_loop_eq by (simp only: simp_thms)
end
