(* ===== verification/SensorHandles.thy ===== *)
theory SensorHandles
  imports Prelude
begin

text \<open>
  \<^verbatim>\<open>sensors/multihal.cpp\<close>, the handle tables: a sensor is known to the framework by a global
  handle and to its sub-HAL by a module index and a local handle. The theory holds
  \<open>FullHandle\<close> with its order (the key order of \<open>std::map\<close>), the two tables, the four
  functions on them, the interface their callers rely on and its interpretation.
\<close>

section \<open>FullHandle\<close>

datatype full_handle = FullHandle (moduleIndex: int) (localHandle: int)

definition full_handle_lt :: "full_handle \<Rightarrow> full_handle \<Rightarrow> bool" where
  "full_handle_lt a that =
     (if moduleIndex a < moduleIndex that then True
      else if moduleIndex a > moduleIndex that then False
      else localHandle a < localHandle that)"

definition full_handle_eq :: "full_handle \<Rightarrow> full_handle \<Rightarrow> bool" where
  "full_handle_eq a that \<longleftrightarrow> moduleIndex a = moduleIndex that \<and> localHandle a = localHandle that"

lemma full_handle_eq_iff: "full_handle_eq a b \<longleftrightarrow> a = b"
  by (cases a; cases b) (simp add: full_handle_eq_def)

text \<open>
  \<open>std::map\<close> identifies keys that are not ordered either way. With the operator of the code
  these are the equal ones, so the tables are maps keyed by equality.
\<close>

instantiation full_handle :: linorder
begin

definition less_full_handle :: "full_handle \<Rightarrow> full_handle \<Rightarrow> bool" where
  "less_full_handle = full_handle_lt"

definition less_eq_full_handle :: "full_handle \<Rightarrow> full_handle \<Rightarrow> bool" where
  "less_eq_full_handle a b \<longleftrightarrow> full_handle_lt a b \<or> full_handle_eq a b"

instance
proof
  fix x y z :: full_handle
  show "x < y \<longleftrightarrow> x \<le> y \<and> \<not> y \<le> x"
    by (auto simp: less_full_handle_def less_eq_full_handle_def full_handle_lt_def
        full_handle_eq_def split: if_splits)
  show "x \<le> x" by (simp add: less_eq_full_handle_def full_handle_eq_def)
  show "x \<le> y \<Longrightarrow> y \<le> z \<Longrightarrow> x \<le> z"
    by (auto simp: less_eq_full_handle_def full_handle_lt_def full_handle_eq_def split: if_splits)
  show "x \<le> y \<Longrightarrow> y \<le> x \<Longrightarrow> x = y"
    by (cases x; cases y)
      (auto simp: less_eq_full_handle_def full_handle_lt_def full_handle_eq_def split: if_splits)
  show "x \<le> y \<or> y \<le> x"
    by (auto simp: less_eq_full_handle_def full_handle_lt_def full_handle_eq_def)
qed

end

section \<open>The tables\<close>

record handle_tables =
  global_to_full :: "int \<Rightarrow> full_handle option"
  full_to_global :: "full_handle \<Rightarrow> int option"
  next_global_handle :: int

definition initial_tables :: handle_tables where
  "initial_tables = \<lparr>global_to_full = Map.empty, full_to_global = Map.empty, next_global_handle = 1\<rparr>"

definition assign_global_handle :: "handle_tables \<Rightarrow> int \<Rightarrow> int \<Rightarrow> int \<times> handle_tables" where
  "assign_global_handle t module_index local_handle =
     (let global_handle = next_global_handle t;
          full_handle = FullHandle module_index local_handle
      in (global_handle,
          t\<lparr>next_global_handle := next_global_handle t + 1,
            full_to_global := (full_to_global t)(full_handle \<mapsto> global_handle),
            global_to_full := (global_to_full t)(global_handle \<mapsto> full_handle)\<rparr>))"

definition get_local_handle :: "handle_tables \<Rightarrow> int \<Rightarrow> int" where
  "get_local_handle t global_handle =
     (case global_to_full t global_handle of None \<Rightarrow> -1 | Some f \<Rightarrow> localHandle f)"

definition get_module_index :: "handle_tables \<Rightarrow> int \<Rightarrow> int" where
  "get_module_index t global_handle =
     (case global_to_full t global_handle of None \<Rightarrow> -1 | Some f \<Rightarrow> moduleIndex f)"

definition get_global_handle :: "handle_tables \<Rightarrow> full_handle \<Rightarrow> int" where
  "get_global_handle t full_handle =
     (case full_to_global t full_handle of None \<Rightarrow> -1 | Some g \<Rightarrow> g)"

section \<open>Invariant\<close>

text \<open>
  Global handles are given out from 1 on, each once; the entry of a full handle points to a
  global handle that points back; every full handle that has a global one has an entry.
\<close>

definition tables_inv :: "handle_tables \<Rightarrow> bool" where
  "tables_inv t \<longleftrightarrow> 1 \<le> next_global_handle t
     \<and> dom (global_to_full t) = {1..<next_global_handle t}
     \<and> (\<forall>f g. full_to_global t f = Some g \<longrightarrow> global_to_full t g = Some f)
     \<and> ran (global_to_full t) = dom (full_to_global t)"

lemma tables_inv_initial: "tables_inv initial_tables"
  by (auto simp: tables_inv_def initial_tables_def)

lemma tables_inv_fresh: "tables_inv t \<Longrightarrow> global_to_full t (next_global_handle t) = None"
  unfolding tables_inv_def by (metis atLeastLessThan_iff domIff less_irrefl)

lemma tables_inv_back: "tables_inv t \<Longrightarrow> full_to_global t f = Some g \<Longrightarrow> global_to_full t g = Some f"
  by (simp add: tables_inv_def)

lemma tables_inv_pos: "tables_inv t \<Longrightarrow> full_to_global t f = Some g \<Longrightarrow> 0 < g"
proof -
  assume inv: "tables_inv t" and "full_to_global t f = Some g"
  then have "g \<in> dom (global_to_full t)" using tables_inv_back by blast
  with inv show "0 < g" by (simp add: tables_inv_def)
qed

lemma assign_inv:
  assumes "tables_inv t" and "assign_global_handle t m l = (g, t')"
  shows "tables_inv t'"
proof -
  let ?f = "FullHandle m l"
  have g: "g = next_global_handle t"
    and t': "global_to_full t' = (global_to_full t)(g \<mapsto> ?f)"
      "full_to_global t' = (full_to_global t)(?f \<mapsto> g)"
      "next_global_handle t' = next_global_handle t + 1"
    using assms(2) by (auto simp: assign_global_handle_def Let_def)
  have fresh: "global_to_full t g = None" using tables_inv_fresh [OF assms(1)] g by simp
  have "dom (global_to_full t') = {1..<next_global_handle t'}"
    using assms(1) by (auto simp: t' g tables_inv_def)
  moreover have "global_to_full t' g' = Some f" if "full_to_global t' f = Some g'" for f g'
    using that tables_inv_back [OF assms(1)] fresh by (auto simp: t' split: if_splits)
  moreover have "ran (global_to_full t') = dom (full_to_global t')"
    using assms(1) fresh by (simp add: t' tables_inv_def)
  ultimately show ?thesis using assms(1) by (simp add: tables_inv_def t')
qed

section \<open>The interface\<close>

text \<open>
  What the sensor list and the event path rely on. \<open>global_of\<close> is positive exactly on the
  registered pairs; a registered pair is recovered from its global handle.
\<close>

locale handle_registry =
  fixes inv :: "'t \<Rightarrow> bool" and assign :: "'t \<Rightarrow> int \<Rightarrow> int \<Rightarrow> int \<times> 't"
    and local_of :: "'t \<Rightarrow> int \<Rightarrow> int" and module_of :: "'t \<Rightarrow> int \<Rightarrow> int"
    and global_of :: "'t \<Rightarrow> full_handle \<Rightarrow> int"
  assumes assign_law: "inv t \<Longrightarrow> assign t m l = (g, t') \<Longrightarrow>
      inv t' \<and> 0 < g \<and> global_of t' (FullHandle m l) = g"
    and frame_law: "inv t \<Longrightarrow> assign t m l = (g, t') \<Longrightarrow> f \<noteq> FullHandle m l \<Longrightarrow>
      global_of t' f = global_of t f"
    and back_law: "inv t \<Longrightarrow> 0 < global_of t (FullHandle m l) \<Longrightarrow>
      local_of t (global_of t (FullHandle m l)) = l \<and> module_of t (global_of t (FullHandle m l)) = m"
begin

lemma assign_keeps_registered:
  "inv t \<Longrightarrow> assign t m l = (g, t') \<Longrightarrow> 0 < global_of t f \<Longrightarrow> 0 < global_of t' f"
  using assign_law frame_law by (cases "f = FullHandle m l") fastforce+

lemma assign_snd:
  assumes "inv t"
  shows "inv (snd (assign t m l))"
    and "0 < global_of (snd (assign t m l)) (FullHandle m l)"
    and "f \<noteq> FullHandle m l \<Longrightarrow> global_of (snd (assign t m l)) f = global_of t f"
    and "0 < global_of t f \<Longrightarrow> 0 < global_of (snd (assign t m l)) f"
  using assign_law [OF assms, of m l] frame_law [OF assms, of m l]
    assign_keeps_registered [OF assms, of m l]
  by (metis prod.collapse)+

text \<open>Registering a list of pairs, in its order.\<close>

lemma fold_inv: "inv t \<Longrightarrow> inv (fold (\<lambda>p t. snd (assign t (fst p) (snd p))) ps t)"
  by (induction ps arbitrary: t) (simp_all add: assign_snd(1))

lemma fold_registered:
  "inv t \<Longrightarrow> (m, l) \<in> set ps \<or> 0 < global_of t (FullHandle m l) \<Longrightarrow>
     0 < global_of (fold (\<lambda>p t. snd (assign t (fst p) (snd p))) ps t) (FullHandle m l)"
proof (induction ps arbitrary: t)
  case (Cons p ps)
  have "(m, l) \<in> set ps \<or> 0 < global_of (snd (assign t (fst p) (snd p))) (FullHandle m l)"
    using Cons.prems assign_snd(2,4) [OF Cons.prems(1), where m = "fst p" and l = "snd p"] by fastforce
  with Cons.IH [OF assign_snd(1) [OF Cons.prems(1)]] show ?case by simp
qed simp

lemma fold_unregistered:
  "inv t \<Longrightarrow> (m, l) \<notin> set ps \<Longrightarrow>
     global_of (fold (\<lambda>p t. snd (assign t (fst p) (snd p))) ps t) (FullHandle m l)
       = global_of t (FullHandle m l)"
proof (induction ps arbitrary: t)
  case (Cons p ps)
  then have "FullHandle m l \<noteq> FullHandle (fst p) (snd p)" by (cases p) auto
  with Cons assign_snd(1,3) [OF Cons.prems(1), where m = "fst p" and l = "snd p"] show ?case by auto
qed simp

lemma registered_roundtrip:
  assumes "inv t" and "(m, l) \<in> set ps"
    and "t' = fold (\<lambda>p t. snd (assign t (fst p) (snd p))) ps t"
    and "g = global_of t' (FullHandle m l)"
  shows "0 < g \<and> local_of t' g = l \<and> module_of t' g = m"
  using fold_inv [OF assms(1)] fold_registered [OF assms(1), of m l ps] back_law [of t' m l] assms(2-)
  by auto

end

interpretation handles: handle_registry tables_inv assign_global_handle get_local_handle
  get_module_index get_global_handle
proof unfold_locales
  fix t t' :: handle_tables and m l g :: int and f :: full_handle
  show "tables_inv t' \<and> 0 < g \<and> get_global_handle t' (FullHandle m l) = g"
    if "tables_inv t" "assign_global_handle t m l = (g, t')"
  proof -
    have "0 < g" "get_global_handle t' (FullHandle m l) = g"
      using that by (auto simp: assign_global_handle_def Let_def get_global_handle_def tables_inv_def)
    with assign_inv [OF that] show ?thesis by blast
  qed
  show "get_global_handle t' f = get_global_handle t f"
    if "tables_inv t" "assign_global_handle t m l = (g, t')" "f \<noteq> FullHandle m l"
    using that by (auto simp: assign_global_handle_def Let_def get_global_handle_def)
  show "get_local_handle t (get_global_handle t (FullHandle m l)) = l
      \<and> get_module_index t (get_global_handle t (FullHandle m l)) = m"
    if "tables_inv t" "0 < get_global_handle t (FullHandle m l)"
  proof -
    from that(2) obtain g where "full_to_global t (FullHandle m l) = Some g"
      by (auto simp: get_global_handle_def split: option.splits)
    with tables_inv_back [OF that(1) this] show ?thesis
      by (simp add: get_global_handle_def get_local_handle_def get_module_index_def)
  qed
qed

section \<open>Consecutive global handles\<close>

text \<open>The sensor list registers pair after pair; the handles come out in sequence.\<close>

fun assign_seq :: "(int \<times> int) list \<Rightarrow> handle_tables \<Rightarrow> int list \<times> handle_tables" where
  "assign_seq [] t = ([], t)"
| "assign_seq (p # ps) t =
     (let r = assign_global_handle t (fst p) (snd p); s = assign_seq ps (snd r)
      in (fst r # fst s, snd s))"

lemma assign_seq_tables:
  "snd (assign_seq ps t) = fold (\<lambda>p t. snd (assign_global_handle t (fst p) (snd p))) ps t"
  by (induction ps arbitrary: t) (simp_all add: Let_def)

lemma assign_next [simp]:
  "fst (assign_global_handle t m l) = next_global_handle t"
  "next_global_handle (snd (assign_global_handle t m l)) = next_global_handle t + 1"
  by (simp_all add: assign_global_handle_def Let_def)

lemma assign_snd_inv: "tables_inv t \<Longrightarrow> tables_inv (snd (assign_global_handle t m l))"
  by (rule handles.assign_snd(1))

lemma assign_seq_next: "next_global_handle (snd (assign_seq ps t)) = next_global_handle t + int (length ps)"
  by (induction ps arbitrary: t) (simp_all add: Let_def)

lemma assign_seq_handles:
  "fst (assign_seq ps t) = map (\<lambda>i. next_global_handle t + int i) [0..<length ps]"
proof (induction ps arbitrary: t)
  case (Cons p ps)
  have "fst (assign_seq (p # ps) t) =
      next_global_handle t # map (\<lambda>i. next_global_handle t + int (Suc i)) [0..<length ps]"
    using Cons.IH by (simp add: Let_def algebra_simps)
  also have "\<dots> = map (\<lambda>i. next_global_handle t + int i) (0 # map Suc [0..<length ps])"
    by simp
  also have "0 # map Suc [0..<length ps] = [0..<length (p # ps)]"
    by (simp add: map_Suc_upt upt_conv_Cons del: upt_Suc)
  finally show ?case .
qed simp

lemma assign_seq_frame:
  "tables_inv t \<Longrightarrow> h < next_global_handle t \<Longrightarrow>
     global_to_full (snd (assign_seq ps t)) h = global_to_full t h"
proof (induction ps arbitrary: t)
  case (Cons p ps)
  have "global_to_full (snd (assign_global_handle t (fst p) (snd p))) h = global_to_full t h"
    using Cons.prems(2) by (simp add: assign_global_handle_def Let_def)
  with Cons.IH [OF assign_snd_inv [OF Cons.prems(1)]] Cons.prems(2) show ?case
    by (simp add: Let_def)
qed simp

lemma assign_seq_g2f:
  assumes "tables_inv t" and "i < length ps"
  shows "global_to_full (snd (assign_seq ps t)) (next_global_handle t + int i)
    = Some (FullHandle (fst (ps ! i)) (snd (ps ! i)))"
  using assms
proof (induction ps arbitrary: t i)
  case (Cons p ps)
  let ?t' = "snd (assign_global_handle t (fst p) (snd p))"
  have inv: "tables_inv ?t'" by (rule assign_snd_inv [OF Cons.prems(1)])
  show ?case
  proof (cases i)
    case 0
    have "global_to_full ?t' (next_global_handle t) = Some (FullHandle (fst p) (snd p))"
      by (simp add: assign_global_handle_def Let_def)
    with assign_seq_frame [OF inv, of "next_global_handle t" ps] 0 show ?thesis
      by (simp add: Let_def)
  next
    case (Suc j)
    with Cons.IH [OF inv, of j] Cons.prems(2) show ?thesis
      by (simp add: Let_def algebra_simps)
  qed
qed simp

text \<open>With distinct pairs, the entry of the \<open>i\<close>-th pair is the \<open>i\<close>-th handle.\<close>

lemma assign_seq_f2g:
  assumes "tables_inv t" and "distinct ps" and "i < length ps"
  shows "get_global_handle (snd (assign_seq ps t)) (FullHandle (fst (ps ! i)) (snd (ps ! i)))
    = next_global_handle t + int i"
  using assms
proof (induction ps arbitrary: t i)
  case (Cons p ps)
  let ?t' = "snd (assign_global_handle t (fst p) (snd p))"
  have inv: "tables_inv ?t'" by (rule assign_snd_inv [OF Cons.prems(1)])
  show ?case
  proof (cases i)
    case 0
    have "(fst p, snd p) \<notin> set ps" using Cons.prems(2) by simp
    from handles.fold_unregistered [OF inv this] 0 show ?thesis
      by (simp add: Let_def assign_seq_tables [symmetric])
        (simp add: get_global_handle_def assign_global_handle_def Let_def)
  next
    case (Suc j)
    with Cons.IH [OF inv, of j] Cons.prems(2,3) show ?thesis
      by (simp add: Let_def algebra_simps)
  qed
qed simp

end
