(* ===== verification/MultiHal.thy ===== *)
theory MultiHal
  imports EventQueue SensorHandles
begin

unbundle bit_operations_syntax

text \<open>
  \<^verbatim>\<open>sensors/multihal.cpp\<close>, everything but \<open>poll\<close> and the writer threads: loading the sub-HAL
  modules, opening them, building the global sensor list, and the operations that fan a
  framework call out to one sub-HAL.

  Not under \<^verbatim>\<open>src/\<close> and so parameters: the constants of \<^verbatim>\<open>hardware/sensors.h\<close> (\<open>sensors_h\<close>),
  and the sub-HAL libraries and the file system (\<open>hal_env\<close>). A call into a sub-HAL is recorded
  as a \<open>subcall\<close>; its return value is an arbitrary function of the calls made so far.
\<close>

section \<open>Parameters: header constants, sub-HAL libraries\<close>

record sensors_h =
  SENSOR_TYPE_META_DATA :: int
  SENSOR_TYPE_PROXIMITY :: int
  SENSOR_TYPE_TILT_DETECTOR :: int
  SENSOR_FLAG_WAKE_UP :: "32 word"
  SENSOR_FLAG_ON_CHANGE_MODE :: "32 word"
  SENSORS_DEVICE_API_VERSION_1_0 :: int
  SENSORS_DEVICE_API_VERSION_1_1 :: int
  SENSORS_DEVICE_API_VERSION_1_2 :: int
  SENSORS_DEVICE_API_VERSION_1_3 :: int
  SENSORS_DEVICE_API_VERSION_1_4 :: int

text \<open>
  The fields of \<open>sensor_t\<close> and \<open>sensors_event_t\<close> that the code reads or writes, and one field
  (\<open>s_name\<close>, \<open>ev_data\<close>) for what it copies without looking. \<open>meta_data.sensor\<close> overlays the
  payload of an event; the code touches it for meta-data events only.
\<close>

record sensor_t =
  s_name :: string
  s_handle :: int
  s_type :: int
  s_minDelay :: int
  s_maxDelay :: int
  s_flags :: "32 word"

record sensors_event =
  ev_sensor :: int
  ev_type :: int
  ev_meta_sensor :: int
  ev_data :: "int list"

record hw_device =
  dev_id :: nat
  dev_version :: int

text \<open>
  A recorded call names the sub-HAL device whose function is called. \<open>inject_sensor_data\<close> also
  records which device object it was handed; every other function is handed its own device.
\<close>

datatype device_arg = ProxyDevice | SubDevice nat

datatype subcall =
    SubActivate nat int int
  | SubSetDelay nat int int
  | SubBatch nat int int int int
  | SubFlush nat int
  | SubInject nat device_arg sensors_event
  | SubClose nat

type_synonym trace = "subcall list"

datatype dl_result = DlopenFailed | DlsymError | DlsymNull | DlsymModule nat

text \<open>
  A module is named by the address of its \<open>hw_module_t\<close>. \<open>get_sensors_list\<close> is called twice on
  each module (call 0 counts, call 1 fills), so its answer carries the number of the call;
  \<open>open\<close> answers a device, or \<open>None\<close> for a non-zero result. \<open>sensor_junk\<close> and \<open>event_junk\<close> are
  the contents of memory that \<open>new\<close> leaves unset.
\<close>

record hal_env =
  config_file :: "string \<Rightarrow> string option"
  load_library :: "string \<Rightarrow> dl_result"
  module_sensors :: "nat \<Rightarrow> nat \<Rightarrow> sensor_t list"
  module_open :: "nat \<Rightarrow> string \<Rightarrow> hw_device option"
  reply :: "trace \<Rightarrow> subcall \<Rightarrow> int"
  sensor_junk :: "nat \<Rightarrow> sensor_t"
  event_junk :: "nat \<Rightarrow> sensors_event"

section \<open>State\<close>

text \<open>The file's global variables, and the context object that \<open>open_sensors\<close> creates.\<close>

record multihal =
  sub_hw_modules :: "nat list option"
  sub_hw_versions :: "(nat \<Rightarrow> int option) option"
  tables :: handle_tables
  global_sensors_list :: "sensor_t list option"
  global_sensors_count :: int

definition initial_multihal :: multihal where
  "initial_multihal = \<lparr>sub_hw_modules = None, sub_hw_versions = None, tables = initial_tables,
     global_sensors_list = None, global_sensors_count = -1\<rparr>"

record task_context =
  task_device :: hw_device
  task_queue :: nat

record sensors_poll_context =
  proxy_version :: int
  sub_hw_devices :: "hw_device list"
  queues :: "sensors_event sensor_queue list"
  threads :: "task_context list"
  nextReadIndex :: int

definition SENSOR_EVENT_QUEUE_CAPACITY :: int where "SENSOR_EVENT_QUEUE_CAPACITY = 36"

section \<open>Loading the sub-HAL modules\<close>

definition starts_with :: "string option \<Rightarrow> string option \<Rightarrow> bool" where
  "starts_with s prefix =
     (case (s, prefix) of
        (Some s, Some p) \<Rightarrow> length s \<ge> length p \<and> take (length p) s = p
      | _ \<Rightarrow> False)"

definition MULTI_HAL_CONFIG_FILE_PATH :: string where
  "MULTI_HAL_CONFIG_FILE_PATH = ''/vendor/etc/sensors/_hals.conf''"
definition DEPRECATED_MULTI_HAL_CONFIG_FILE_PATH :: string where
  "DEPRECATED_MULTI_HAL_CONFIG_FILE_PATH = ''/system/etc/sensors/_hals.conf''"

text \<open>\<open>std::getline\<close> until it fails: it fails at the end of the file when it extracted nothing.\<close>

fun getlines :: "string \<Rightarrow> string \<Rightarrow> string list" where
  "getlines acc [] = (if acc = [] then [] else [rev acc])"
| "getlines acc (c # cs) =
     (if c = CHR 0x0A then rev acc # getlines [] cs else getlines (c # acc) cs)"

fun open_first :: "(string \<Rightarrow> string option) \<Rightarrow> string list \<Rightarrow> (string \<times> string) option" where
  "open_first files [] = None"
| "open_first files (p # ps) =
     (case files p of Some content \<Rightarrow> Some (p, content) | None \<Rightarrow> open_first files ps)"

text \<open>
  A default-constructed \<open>std::ifstream\<close> has no error bit set, so \<open>!stream\<close> is false when no
  configuration file was opened, and \<open>strcmp\<close> is called on the null \<open>path\<close>.
\<close>

definition get_so_paths :: "hal_env \<Rightarrow> string list \<Rightarrow> fault + string list" where
  "get_so_paths env so_paths =
     (case open_first (config_file env) [MULTI_HAL_CONFIG_FILE_PATH, DEPRECATED_MULTI_HAL_CONFIG_FILE_PATH] of
        None \<Rightarrow> Inl NullDeref
      | Some (path, content) \<Rightarrow> Inr (so_paths @ getlines [] content))"

fun load_modules :: "hal_env \<Rightarrow> string list \<Rightarrow> nat list \<Rightarrow> nat list" where
  "load_modules env [] mods = mods"
| "load_modules env (path # paths) mods =
     (case load_library env path of
        DlopenFailed \<Rightarrow> load_modules env paths mods
      | DlsymError \<Rightarrow> load_modules env paths mods
      | DlsymNull \<Rightarrow> load_modules env paths mods
      | DlsymModule m \<Rightarrow> load_modules env paths (mods @ [m]))"

definition lazy_init_modules :: "hal_env \<Rightarrow> multihal \<Rightarrow> fault + multihal" where
  "lazy_init_modules env st =
     (case sub_hw_modules st of
        Some _ \<Rightarrow> Inr st
      | None \<Rightarrow>
          (case get_so_paths env [] of
             Inl f \<Rightarrow> Inl f
           | Inr so_paths \<Rightarrow> Inr (st\<lparr>sub_hw_modules := Some (load_modules env so_paths [])\<rparr>)))"

section \<open>The global sensor list\<close>

definition fix_sensor_flags :: "sensors_h \<Rightarrow> int \<Rightarrow> sensor_t \<Rightarrow> sensor_t" where
  "fix_sensor_flags h version sensor =
     (if version < SENSORS_DEVICE_API_VERSION_1_3 h then
        if s_type sensor = SENSOR_TYPE_PROXIMITY h \<or> s_type sensor = SENSOR_TYPE_TILT_DETECTOR h
        then sensor\<lparr>s_flags := SENSOR_FLAG_WAKE_UP h OR SENSOR_FLAG_ON_CHANGE_MODE h\<rparr>
        else sensor
      else sensor)"

text \<open>
  The inner loop over one module's sensors: \<open>out\<close> is the filled part of
  \<open>mutable_sensor_list\<close> (its length is \<open>mutable_sensor_index\<close>), which was allocated for
  \<open>count\<close> entries.
\<close>

fun copy_module_sensors :: "sensors_h \<Rightarrow> (nat \<Rightarrow> int option) option \<Rightarrow> int \<Rightarrow> nat \<Rightarrow> int
    \<Rightarrow> sensor_t list \<Rightarrow> sensor_t list \<Rightarrow> handle_tables \<Rightarrow> fault + sensor_t list \<times> handle_tables" where
  "copy_module_sensors h versions count m module_index [] out t = Inr (out, t)"
| "copy_module_sensors h versions count m module_index (local_sensor # rest) out t =
     (if int (length out) \<ge> count then Inl OutOfBounds
      else
        let local_handle = s_handle local_sensor;
            r = assign_global_handle t module_index local_handle;
            global_handle = fst r;
            entry = local_sensor\<lparr>s_handle := global_handle\<rparr>
        in (case versions of
              None \<Rightarrow> Inl NullDeref
            | Some vs \<Rightarrow>
                (case vs m of
                   None \<Rightarrow> Inl OutOfRange
                 | Some version \<Rightarrow>
                     copy_module_sensors h versions count m module_index rest
                       (out @ [fix_sensor_flags h version entry]) (snd r))))"

fun copy_all_sensors :: "sensors_h \<Rightarrow> hal_env \<Rightarrow> (nat \<Rightarrow> int option) option \<Rightarrow> int \<Rightarrow> nat list \<Rightarrow> int
    \<Rightarrow> sensor_t list \<Rightarrow> handle_tables \<Rightarrow> fault + sensor_t list \<times> handle_tables" where
  "copy_all_sensors h env versions count [] module_index out t = Inr (out, t)"
| "copy_all_sensors h env versions count (m # ms) module_index out t =
     (case copy_module_sensors h versions count m module_index (module_sensors env m 1) out t of
        Inl f \<Rightarrow> Inl f
      | Inr (out', t') \<Rightarrow> copy_all_sensors h env versions count ms (module_index + 1) out' t')"

definition lazy_init_sensors_list :: "sensors_h \<Rightarrow> hal_env \<Rightarrow> multihal \<Rightarrow> fault + multihal" where
  "lazy_init_sensors_list h env st =
     (case global_sensors_list st of
        Some _ \<Rightarrow> Inr st
      | None \<Rightarrow>
          (case lazy_init_modules env st of
             Inl f \<Rightarrow> Inl f
           | Inr st1 \<Rightarrow>
               (case sub_hw_modules st1 of
                  None \<Rightarrow> Inl NullDeref
                | Some mods \<Rightarrow>
                    let count = sum_list (map (\<lambda>m. int (length (module_sensors env m 0))) mods)
                    in (case copy_all_sensors h env (sub_hw_versions st1) count mods 0 [] (tables st1) of
                          Inl f \<Rightarrow> Inl f
                        | Inr (out, t) \<Rightarrow>
                            Inr (st1\<lparr>global_sensors_count := count, tables := t,
                              global_sensors_list :=
                                Some (out @ map (sensor_junk env) [length out..<nat count]),
                              sub_hw_versions := None\<rparr>)))))"

definition module__get_sensors_list ::
    "sensors_h \<Rightarrow> hal_env \<Rightarrow> multihal \<Rightarrow> fault + int \<times> sensor_t list option \<times> multihal" where
  "module__get_sensors_list h env st =
     (case lazy_init_sensors_list h env st of
        Inl f \<Rightarrow> Inl f
      | Inr st' \<Rightarrow> Inr (global_sensors_count st', global_sensors_list st', st'))"

section \<open>Opening\<close>

definition apiNumToStr :: "sensors_h \<Rightarrow> int \<Rightarrow> string" where
  "apiNumToStr h version =
     (if version = SENSORS_DEVICE_API_VERSION_1_0 h then ''SENSORS_DEVICE_API_VERSION_1_0''
      else if version = SENSORS_DEVICE_API_VERSION_1_1 h then ''SENSORS_DEVICE_API_VERSION_1_1''
      else if version = SENSORS_DEVICE_API_VERSION_1_2 h then ''SENSORS_DEVICE_API_VERSION_1_2''
      else if version = SENSORS_DEVICE_API_VERSION_1_3 h then ''SENSORS_DEVICE_API_VERSION_1_3''
      else if version = SENSORS_DEVICE_API_VERSION_1_4 h then ''SENSORS_DEVICE_API_VERSION_1_4''
      else ''UNKNOWN'')"

definition addSubHwDevice ::
    "hal_env \<Rightarrow> hw_device \<Rightarrow> sensors_poll_context \<Rightarrow> sensors_poll_context" where
  "addSubHwDevice env sub_hw_device ctx =
     ctx\<lparr>sub_hw_devices := sub_hw_devices ctx @ [sub_hw_device],
         queues := queues ctx @ [SensorEventQueue_new SENSOR_EVENT_QUEUE_CAPACITY (event_junk env)],
         threads := threads ctx @ [\<lparr>task_device = sub_hw_device, task_queue = length (queues ctx)\<rparr>]\<rparr>"

fun open_modules :: "hal_env \<Rightarrow> string \<Rightarrow> nat list \<Rightarrow> sensors_poll_context \<Rightarrow> (nat \<Rightarrow> int option)
    \<Rightarrow> sensors_poll_context \<times> (nat \<Rightarrow> int option)" where
  "open_modules env name [] dev versions = (dev, versions)"
| "open_modules env name (m # ms) dev versions =
     (case module_open env m name of
        None \<Rightarrow> open_modules env name ms dev versions
      | Some sub_hw_device \<Rightarrow>
          open_modules env name ms (addSubHwDevice env sub_hw_device dev)
            (case versions m of None \<Rightarrow> versions(m \<mapsto> dev_version sub_hw_device) | Some _ \<Rightarrow> versions))"

definition open_sensors :: "sensors_h \<Rightarrow> hal_env \<Rightarrow> string \<Rightarrow> multihal
    \<Rightarrow> fault + sensors_poll_context \<times> multihal" where
  "open_sensors h env name st =
     (case lazy_init_modules env st of
        Inl f \<Rightarrow> Inl f
      | Inr st1 \<Rightarrow>
          let dev = \<lparr>proxy_version = SENSORS_DEVICE_API_VERSION_1_4 h, sub_hw_devices = [],
                     queues = [], threads = [], nextReadIndex = 0\<rparr>
          in (case sub_hw_modules st1 of
                None \<Rightarrow> Inl NullDeref
              | Some mods \<Rightarrow>
                  (case open_modules env name mods dev Map.empty of
                     (dev', versions) \<Rightarrow> Inr (dev', st1\<lparr>sub_hw_versions := Some versions\<rparr>))))"

section \<open>Fan-out of the framework's calls\<close>

definition get_v0_device_by_handle ::
    "handle_tables \<Rightarrow> sensors_poll_context \<Rightarrow> int \<Rightarrow> hw_device option" where
  "get_v0_device_by_handle t ctx global_handle =
     (let sub_index = get_module_index t global_handle
      in if sub_index < 0 \<or> sub_index \<ge> int (length (sub_hw_devices ctx)) then None
         else Some (sub_hw_devices ctx ! nat sub_index))"

definition get_v1_device_by_handle ::
    "handle_tables \<Rightarrow> sensors_poll_context \<Rightarrow> int \<Rightarrow> hw_device option" where
  "get_v1_device_by_handle t ctx global_handle =
     (let sub_index = get_module_index t global_handle
      in if sub_index < 0 \<or> sub_index \<ge> int (length (sub_hw_devices ctx)) then None
         else Some (sub_hw_devices ctx ! nat sub_index))"

definition get_device_version_by_handle :: "handle_tables \<Rightarrow> sensors_poll_context \<Rightarrow> int \<Rightarrow> int" where
  "get_device_version_by_handle t ctx handle =
     (case get_v0_device_by_handle t ctx handle of Some v0 \<Rightarrow> dev_version v0 | None \<Rightarrow> -1)"

definition halIsAPILevelCompliant :: "handle_tables \<Rightarrow> sensors_poll_context \<Rightarrow> int \<Rightarrow> int \<Rightarrow> bool" where
  "halIsAPILevelCompliant t ctx handle level =
     (let version = get_device_version_by_handle t ctx handle in version \<noteq> -1 \<and> version \<ge> level)"

text \<open>A call into a sub-HAL: its result, and the trace with the call appended.\<close>

definition sub_call :: "hal_env \<Rightarrow> subcall \<Rightarrow> trace \<Rightarrow> int \<times> trace" where
  "sub_call env c tr = (reply env tr c, tr @ [c])"

definition ctx_activate ::
    "hal_env \<Rightarrow> multihal \<Rightarrow> sensors_poll_context \<Rightarrow> int \<Rightarrow> int \<Rightarrow> trace \<Rightarrow> int \<times> trace" where
  "ctx_activate env st ctx handle enabled tr =
     (let local_handle = get_local_handle (tables st) handle
      in (case get_v0_device_by_handle (tables st) ctx handle of
            Some v0 \<Rightarrow>
              (if local_handle \<ge> 0 then sub_call env (SubActivate (dev_id v0) local_handle enabled) tr
               else (- EINVAL, tr))
          | None \<Rightarrow> (- EINVAL, tr)))"

definition ctx_setDelay ::
    "hal_env \<Rightarrow> multihal \<Rightarrow> sensors_poll_context \<Rightarrow> int \<Rightarrow> int \<Rightarrow> trace \<Rightarrow> int \<times> trace" where
  "ctx_setDelay env st ctx handle ns tr =
     (let local_handle = get_local_handle (tables st) handle
      in (case get_v0_device_by_handle (tables st) ctx handle of
            Some v0 \<Rightarrow>
              (if local_handle \<ge> 0 then sub_call env (SubSetDelay (dev_id v0) local_handle ns) tr
               else (- EINVAL, tr))
          | None \<Rightarrow> (- EINVAL, tr)))"

text \<open>
  On a device older than API 1.1, \<open>batch\<close> becomes \<open>setDelay\<close>: the period is clamped to the
  limits found at index \<open>sub_index\<close> of the global sensor list, and the sub-HAL is given
  \<open>handle\<close>, the global handle.
\<close>

definition ctx_batch :: "sensors_h \<Rightarrow> hal_env \<Rightarrow> multihal \<Rightarrow> sensors_poll_context
    \<Rightarrow> int \<Rightarrow> int \<Rightarrow> int \<Rightarrow> int \<Rightarrow> trace \<Rightarrow> fault + int \<times> trace" where
  "ctx_batch h env st ctx handle flags period_ns timeout tr =
     (let local_handle = get_local_handle (tables st) handle
      in (case get_v1_device_by_handle (tables st) ctx handle of
            None \<Rightarrow> Inr (- EINVAL, tr)
          | Some v1 \<Rightarrow>
              if local_handle \<ge> 0 then
                if halIsAPILevelCompliant (tables st) ctx handle (SENSORS_DEVICE_API_VERSION_1_1 h)
                then Inr (sub_call env (SubBatch (dev_id v1) local_handle flags period_ns timeout) tr)
                else if period_ns < 0 \<or> timeout < 0 then Inr (- EINVAL, tr)
                else
                  let sub_index = get_module_index (tables st) handle
                  in (case global_sensors_list st of
                        None \<Rightarrow> Inl NullDeref
                      | Some sensors \<Rightarrow>
                          if sub_index < 0 \<or> sub_index \<ge> int (length sensors) then Inl OutOfBounds
                          else
                            let maxDelay = s_maxDelay (sensors ! nat sub_index);
                                minDelay = s_minDelay (sensors ! nat sub_index);
                                period_ns = (if period_ns < minDelay then minDelay
                                             else if period_ns > maxDelay then maxDelay
                                             else period_ns)
                            in Inr (sub_call env (SubSetDelay (dev_id v1) handle period_ns) tr))
              else Inr (- EINVAL, tr)))"

definition ctx_flush :: "sensors_h \<Rightarrow> hal_env \<Rightarrow> multihal \<Rightarrow> sensors_poll_context
    \<Rightarrow> int \<Rightarrow> trace \<Rightarrow> int \<times> trace" where
  "ctx_flush h env st ctx handle tr =
     (let local_handle = get_local_handle (tables st) handle
      in (case get_v1_device_by_handle (tables st) ctx handle of
            None \<Rightarrow> (- EINVAL, tr)
          | Some v1 \<Rightarrow>
              if local_handle \<ge> 0 then
                if halIsAPILevelCompliant (tables st) ctx handle (SENSORS_DEVICE_API_VERSION_1_1 h)
                then sub_call env (SubFlush (dev_id v1) local_handle) tr
                else (- EINVAL, tr)
              else (- EINVAL, tr)))"

text \<open>
  The event is passed on as it is, with its global handle, and so is \<open>dev\<close>, which
  \<open>device__inject_sensor_data\<close> sets to the multi-HAL's own device.
\<close>

definition ctx_inject_sensor_data :: "sensors_h \<Rightarrow> hal_env \<Rightarrow> multihal \<Rightarrow> sensors_poll_context
    \<Rightarrow> device_arg \<Rightarrow> sensors_event \<Rightarrow> trace \<Rightarrow> int \<times> trace" where
  "ctx_inject_sensor_data h env st ctx dev data tr =
     (let local_handle = get_local_handle (tables st) (ev_sensor data)
      in (case get_v1_device_by_handle (tables st) ctx (ev_sensor data) of
            None \<Rightarrow> (- EINVAL, tr)
          | Some v1 \<Rightarrow>
              if halIsAPILevelCompliant (tables st) ctx (ev_sensor data) (SENSORS_DEVICE_API_VERSION_1_4 h)
                 \<and> local_handle \<ge> 0
              then sub_call env (SubInject (dev_id v1) dev data) tr
              else (- EINVAL, tr)))"

fun close_devices :: "hal_env \<Rightarrow> hw_device list \<Rightarrow> trace \<Rightarrow> trace" where
  "close_devices env [] tr = tr"
| "close_devices env (dev # devs) tr = close_devices env devs (snd (sub_call env (SubClose (dev_id dev)) tr))"

definition ctx_close :: "hal_env \<Rightarrow> sensors_poll_context \<Rightarrow> trace \<Rightarrow> int \<times> trace" where
  "ctx_close env ctx tr = (0, close_devices env (sub_hw_devices ctx) tr)"

text \<open>
  The device's function table: each \<open>device__\<close> function casts its first argument to the context
  and calls the method. \<open>device__close\<close> also frees the context, and accepts a null pointer.
\<close>

definition device__close :: "hal_env \<Rightarrow> sensors_poll_context option \<Rightarrow> trace \<Rightarrow> int \<times> trace" where
  "device__close env dev tr =
     (case dev of Some ctx \<Rightarrow> (0, snd (ctx_close env ctx tr)) | None \<Rightarrow> (0, tr))"

datatype device_call =
    Activate int int | SetDelay int int | Batch int int int int | Flush int | Inject sensors_event

fun device_call_handle :: "device_call \<Rightarrow> int" where
  "device_call_handle (Activate handle enabled) = handle"
| "device_call_handle (SetDelay handle ns) = handle"
| "device_call_handle (Batch handle flags period_ns timeout) = handle"
| "device_call_handle (Flush handle) = handle"
| "device_call_handle (Inject data) = ev_sensor data"

fun device_dispatch :: "sensors_h \<Rightarrow> hal_env \<Rightarrow> multihal \<Rightarrow> sensors_poll_context \<Rightarrow> device_call
    \<Rightarrow> trace \<Rightarrow> fault + int \<times> trace" where
  "device_dispatch h env st ctx (Activate handle enabled) tr = Inr (ctx_activate env st ctx handle enabled tr)"
| "device_dispatch h env st ctx (SetDelay handle ns) tr = Inr (ctx_setDelay env st ctx handle ns tr)"
| "device_dispatch h env st ctx (Batch handle flags period_ns timeout) tr =
     ctx_batch h env st ctx handle flags period_ns timeout tr"
| "device_dispatch h env st ctx (Flush handle) tr = Inr (ctx_flush h env st ctx handle tr)"
| "device_dispatch h env st ctx (Inject data) tr = Inr (ctx_inject_sensor_data h env st ctx ProxyDevice data tr)"

section \<open>Lemmas: the sensor list\<close>

text \<open>What a module contributes to the list: its index and the local handles of its sensors.\<close>

definition module_pairs :: "int \<Rightarrow> sensor_t list \<Rightarrow> (int \<times> int) list" where
  "module_pairs i ss = map (\<lambda>s. (i, s_handle s)) ss"

fun all_pairs :: "hal_env \<Rightarrow> nat list \<Rightarrow> int \<Rightarrow> (int \<times> int) list" where
  "all_pairs env [] i = []"
| "all_pairs env (m # ms) i = module_pairs i (module_sensors env m 1) @ all_pairs env ms (i + 1)"

definition listed_sensors :: "hal_env \<Rightarrow> nat list \<Rightarrow> (nat \<times> sensor_t) list" where
  "listed_sensors env mods = concat (map (\<lambda>m. map (Pair m) (module_sensors env m 1)) mods)"

lemma fix_sensor_flags_keeps [simp]:
  "s_handle (fix_sensor_flags h v s) = s_handle s" "s_name (fix_sensor_flags h v s) = s_name s"
  "s_type (fix_sensor_flags h v s) = s_type s" "s_minDelay (fix_sensor_flags h v s) = s_minDelay s"
  "s_maxDelay (fix_sensor_flags h v s) = s_maxDelay s"
  by (simp_all add: fix_sensor_flags_def)

lemma assign_seq_append:
  "assign_seq (ps @ qs) t =
     (fst (assign_seq ps t) @ fst (assign_seq qs (snd (assign_seq ps t))),
      snd (assign_seq qs (snd (assign_seq ps t))))"
  by (induction ps arbitrary: t) (simp_all add: Let_def)

text \<open>One entry of the global list: the sub-HAL's sensor with its handle and flags replaced.\<close>

definition global_entry :: "sensors_h \<Rightarrow> (nat \<Rightarrow> int option) \<Rightarrow> nat \<times> sensor_t \<Rightarrow> int \<Rightarrow> sensor_t" where
  "global_entry h vs ms g = fix_sensor_flags h (the (vs (fst ms))) ((snd ms)\<lparr>s_handle := g\<rparr>)"

lemma copy_module_sensors_ok:
  assumes "vs m \<noteq> None" and "int (length out) + int (length ss) \<le> count"
  shows "copy_module_sensors h (Some vs) count m i ss out t =
    Inr (out @ map2 (global_entry h vs) (map (Pair m) ss) (fst (assign_seq (module_pairs i ss) t)),
         snd (assign_seq (module_pairs i ss) t))"
  using assms
proof (induction ss arbitrary: out t)
  case (Cons s ss)
  then show ?case
    by (auto simp: module_pairs_def global_entry_def Let_def)
qed (simp add: module_pairs_def)

lemma assign_seq_length [simp]: "length (fst (assign_seq ps t)) = length ps"
  by (simp add: assign_seq_handles)

lemma module_pairs_length [simp]: "length (module_pairs i ss) = length ss"
  by (simp add: module_pairs_def)

lemma all_pairs_length: "length (all_pairs env mods i) = length (listed_sensors env mods)"
  by (induction mods arbitrary: i) (simp_all add: listed_sensors_def)

lemma copy_all_sensors_ok:
  assumes "\<forall>m\<in>set mods. vs m \<noteq> None"
    and "int (length out) + int (length (listed_sensors env mods)) \<le> count"
  shows "copy_all_sensors h env (Some vs) count mods i out t =
    Inr (out @ map2 (global_entry h vs) (listed_sensors env mods) (fst (assign_seq (all_pairs env mods i) t)),
         snd (assign_seq (all_pairs env mods i) t))"
  using assms
proof (induction mods arbitrary: i out t)
  case (Cons m mods)
  let ?ss = "module_sensors env m 1" and ?p = "module_pairs i (module_sensors env m 1)"
  have len: "length (listed_sensors env (m # mods)) = length ?ss + length (listed_sensors env mods)"
    by (simp add: listed_sensors_def)
  have "copy_module_sensors h (Some vs) count m i ?ss out t =
      Inr (out @ map2 (global_entry h vs) (map (Pair m) ?ss) (fst (assign_seq ?p t)), snd (assign_seq ?p t))"
    using Cons.prems len by (intro copy_module_sensors_ok) auto
  with Cons len show ?case
    by (simp add: assign_seq_append zip_append listed_sensors_def)
qed (simp add: listed_sensors_def)

lemma all_pairs_listed:
  "k < length (listed_sensors env mods) \<Longrightarrow>
     \<exists>i < length mods. all_pairs env mods j ! k = (j + int i, s_handle (snd (listed_sensors env mods ! k)))
       \<and> fst (listed_sensors env mods ! k) = mods ! i"
proof (induction mods arbitrary: j k)
  case (Cons m mods)
  let ?ss = "module_sensors env m 1"
  have l: "listed_sensors env (m # mods) = map (Pair m) ?ss @ listed_sensors env mods"
    by (simp add: listed_sensors_def)
  show ?case
  proof (cases "k < length ?ss")
    case True
    then show ?thesis by (intro exI [of _ 0]) (simp add: l module_pairs_def nth_append)
  next
    case False
    with Cons.prems have "k - length ?ss < length (listed_sensors env mods)" by (simp add: l)
    from Cons.IH [OF this, of "j + 1"] obtain i where "i < length mods"
      "all_pairs env mods (j + 1) ! (k - length ?ss)
         = (j + 1 + int i, s_handle (snd (listed_sensors env mods ! (k - length ?ss))))"
      "fst (listed_sensors env mods ! (k - length ?ss)) = mods ! i" by blast
    with False show ?thesis by (intro exI [of _ "Suc i"]) (simp add: l module_pairs_def nth_append)
  qed
qed (simp add: listed_sensors_def)

lemma counted_sensors:
  "\<forall>m\<in>set mods. length (module_sensors env m 0) = length (module_sensors env m 1) \<Longrightarrow>
     sum_list (map (\<lambda>m. int (length (module_sensors env m 0))) mods) = int (length (listed_sensors env mods))"
  by (induction mods) (simp_all add: listed_sensors_def)

lemma lazy_init_sensors_list_ok:
  assumes "global_sensors_list st = None" and "sub_hw_modules st = Some mods"
    and "sub_hw_versions st = Some vs" and "\<forall>m\<in>set mods. vs m \<noteq> None"
    and "\<forall>m\<in>set mods. length (module_sensors env m 0) = length (module_sensors env m 1)"
  shows "lazy_init_sensors_list h env st =
    Inr (st\<lparr>global_sensors_count := int (length (listed_sensors env mods)),
      tables := snd (assign_seq (all_pairs env mods 0) (tables st)),
      global_sensors_list := Some (map2 (global_entry h vs) (listed_sensors env mods)
        (fst (assign_seq (all_pairs env mods 0) (tables st)))),
      sub_hw_versions := None\<rparr>)"
proof -
  have "copy_all_sensors h env (Some vs) (int (length (listed_sensors env mods))) mods 0 [] (tables st) =
    Inr ([] @ map2 (global_entry h vs) (listed_sensors env mods) (fst (assign_seq (all_pairs env mods 0) (tables st))),
         snd (assign_seq (all_pairs env mods 0) (tables st)))"
    using assms(4) by (intro copy_all_sensors_ok) auto
  then show ?thesis
    using assms by (simp add: lazy_init_sensors_list_def lazy_init_modules_def counted_sensors
        all_pairs_length)
qed

lemma open_modules_devices:
  "\<forall>m\<in>set mods. module_open env m name \<noteq> None \<Longrightarrow>
     sub_hw_devices (fst (open_modules env name mods dev vs))
       = sub_hw_devices dev @ map (\<lambda>m. the (module_open env m name)) mods"
  by (induction mods arbitrary: dev vs) (auto simp: addSubHwDevice_def)

lemma open_modules_versions:
  "\<forall>m\<in>set mods. module_open env m name \<noteq> None \<Longrightarrow> x \<in> dom vs \<union> set mods \<Longrightarrow>
     snd (open_modules env name mods dev vs) x \<noteq> None"
proof (induction mods arbitrary: dev vs)
  case (Cons m mods)
  then obtain d where d: "module_open env m name = Some d" by auto
  let ?vs = "case vs m of None \<Rightarrow> vs(m \<mapsto> dev_version d) | Some _ \<Rightarrow> vs"
  have "x \<in> dom ?vs \<union> set mods" using Cons.prems(2) by (auto split: option.split)
  with Cons.IH [of ?vs "addSubHwDevice env d dev"] Cons.prems(1) d show ?case by simp
qed auto

text \<open>One queue per device, all of them well-formed, and the read index among them.\<close>

definition context_ok :: "sensors_poll_context \<Rightarrow> bool" where
  "context_ok ctx \<longleftrightarrow> length (queues ctx) = length (sub_hw_devices ctx)
     \<and> (\<forall>q\<in>set (queues ctx). queue_inv q \<and> mCapacity q = SENSOR_EVENT_QUEUE_CAPACITY)
     \<and> nextReadIndex ctx = 0"

lemma addSubHwDevice_ok: "context_ok ctx \<Longrightarrow> context_ok (addSubHwDevice env d ctx)"
  by (auto simp: context_ok_def addSubHwDevice_def queue_inv_new SENSOR_EVENT_QUEUE_CAPACITY_def
      SensorEventQueue_new_def [of 36] queue_inv_def)

lemma open_modules_context:
  "context_ok dev \<Longrightarrow> context_ok (fst (open_modules env name mods dev vs))"
  by (induction mods arbitrary: dev vs) (simp_all add: addSubHwDevice_ok split: option.split)

lemma open_sensorsE:
  assumes "open_sensors h env name st = Inr (ctx, st1)"
  obtains mods dev where "sub_hw_modules st1 = Some mods"
    and "dev = \<lparr>proxy_version = SENSORS_DEVICE_API_VERSION_1_4 h, sub_hw_devices = [],
           queues = [], threads = [], nextReadIndex = 0\<rparr>"
    and "open_modules env name mods dev Map.empty = (ctx, the (sub_hw_versions st1))"
    and "sub_hw_versions st1 \<noteq> None" and "tables st1 = tables st"
    and "global_sensors_list st1 = global_sensors_list st"
  using assms
  by (auto simp: open_sensors_def lazy_init_modules_def Let_def
      split: sum.splits option.splits prod.splits)

section \<open>Lemmas: the state after start-up\<close>

definition startup_tables :: "hal_env \<Rightarrow> nat list \<Rightarrow> handle_tables" where
  "startup_tables env mods = snd (assign_seq (all_pairs env mods 0) initial_tables)"

definition startup_list :: "sensors_h \<Rightarrow> (nat \<rightharpoonup> int) \<Rightarrow> hal_env \<Rightarrow> nat list \<Rightarrow> sensor_t list" where
  "startup_list h vs env mods =
     map2 (global_entry h vs) (listed_sensors env mods) (fst (assign_seq (all_pairs env mods 0) initial_tables))"

lemma startup_list_length: "length (startup_list h vs env mods) = length (listed_sensors env mods)"
  by (simp add: startup_list_def all_pairs_length)

lemma startup_tables_inv: "tables_inv (startup_tables env mods)"
  unfolding startup_tables_def assign_seq_tables by (rule handles.fold_inv [OF tables_inv_initial])

lemma startup_tables_dom:
  "global_to_full (startup_tables env mods) g = Some f \<Longrightarrow> 1 \<le> g \<and> g \<le> int (length (listed_sensors env mods))"
proof -
  assume "global_to_full (startup_tables env mods) g = Some f"
  then have "g \<in> dom (global_to_full (startup_tables env mods))" by (rule domI)
  moreover have "next_global_handle (startup_tables env mods) = int (length (listed_sensors env mods)) + 1"
    by (simp add: startup_tables_def assign_seq_next all_pairs_length initial_tables_def)
  ultimately show ?thesis using startup_tables_inv [of env mods] by (simp add: tables_inv_def)
qed

text \<open>The \<open>k\<close>-th entry of the global list has the handle \<open>k + 1\<close>, which stands for its own sensor.\<close>

lemma startup_entry:
  assumes "k < length (listed_sensors env mods)"
  obtains i m s where "listed_sensors env mods ! k = (m, s)" and "i < length mods" and "m = mods ! i"
    and "startup_list h vs env mods ! k = global_entry h vs (m, s) (int k + 1)"
    and "global_to_full (startup_tables env mods) (int k + 1) = Some (FullHandle (int i) (s_handle s))"
proof -
  have k: "k < length (all_pairs env mods 0)" using assms by (simp add: all_pairs_length)
  obtain m s where ms: "listed_sensors env mods ! k = (m, s)" by (metis surj_pair)
  obtain i where i: "i < length mods" "all_pairs env mods 0 ! k = (int i, s_handle s)" "m = mods ! i"
    using all_pairs_listed [OF assms, of 0] ms by auto
  have "startup_list h vs env mods ! k = global_entry h vs (m, s) (int k + 1)"
    using assms k by (simp add: startup_list_def ms assign_seq_handles initial_tables_def add.commute)
  moreover have "global_to_full (startup_tables env mods) (int k + 1) = Some (FullHandle (int i) (s_handle s))"
    using assign_seq_g2f [OF tables_inv_initial k] i(2)
    by (simp add: startup_tables_def initial_tables_def add.commute)
  ultimately show thesis using that ms i by blast
qed

lemma startup_state:
  assumes "open_sensors h env name initial_multihal = Inr (ctx, st1)"
    and "sub_hw_modules st1 = Some mods"
    and "\<forall>m\<in>set mods. module_open env m name \<noteq> None"
    and "\<forall>m\<in>set mods. length (module_sensors env m 0) = length (module_sensors env m 1)"
  obtains st2 vs where "module__get_sensors_list h env st1 =
      Inr (int (length (listed_sensors env mods)), Some (startup_list h vs env mods), st2)"
    and "tables st2 = startup_tables env mods"
    and "sub_hw_devices ctx = map (\<lambda>m. the (module_open env m name)) mods"
proof -
  obtain mods' dev where o: "sub_hw_modules st1 = Some mods'"
    "dev = \<lparr>proxy_version = SENSORS_DEVICE_API_VERSION_1_4 h, sub_hw_devices = [],
           queues = [], threads = [], nextReadIndex = 0\<rparr>"
    "open_modules env name mods' dev Map.empty = (ctx, the (sub_hw_versions st1))"
    "sub_hw_versions st1 \<noteq> None" "tables st1 = tables initial_multihal"
    "global_sensors_list st1 = global_sensors_list initial_multihal"
    by (rule open_sensorsE [OF assms(1)])
  then obtain vs where vs: "sub_hw_versions st1 = Some vs" by blast
  have dev: "sub_hw_devices dev = []" and op: "open_modules env name mods dev Map.empty = (ctx, vs)"
    and st1: "tables st1 = initial_tables" "global_sensors_list st1 = None"
    using o assms(2) vs by (simp_all add: initial_multihal_def)
  have "sub_hw_devices ctx = map (\<lambda>m. the (module_open env m name)) mods"
    using open_modules_devices [OF assms(3), of dev Map.empty] op dev by simp
  moreover have "\<forall>m\<in>set mods. vs m \<noteq> None"
    using open_modules_versions [OF assms(3), of _ Map.empty dev] op by auto
  note lazy_init_sensors_list_ok [OF st1(2) assms(2) vs this assms(4), of h]
  ultimately show thesis
    by (intro that [of vs "projr (lazy_init_sensors_list h env st1)"])
      (simp_all add: module__get_sensors_list_def startup_list_def startup_tables_def st1(1))
qed

section \<open>Lemmas: the fan-out\<close>

lemma get_v1_device_eq: "get_v1_device_by_handle = get_v0_device_by_handle"
  by (simp add: fun_eq_iff get_v0_device_by_handle_def get_v1_device_by_handle_def)

lemma unknown_handle:
  assumes "global_to_full t g = None"
  shows "get_local_handle t g = -1" and "get_module_index t g = -1"
    and "get_v0_device_by_handle t ctx g = None"
  using assms by (simp_all add: get_local_handle_def get_module_index_def get_v0_device_by_handle_def)

fun subcall_device :: "subcall \<Rightarrow> nat" where
  "subcall_device (SubActivate d l e) = d"
| "subcall_device (SubSetDelay d l ns) = d"
| "subcall_device (SubBatch d l f p t) = d"
| "subcall_device (SubFlush d l) = d"
| "subcall_device (SubInject d a e) = d"
| "subcall_device (SubClose d) = d"

lemmas dispatch_defs = ctx_activate_def ctx_setDelay_def ctx_batch_def ctx_flush_def
  ctx_inject_sensor_data_def sub_call_def Let_def get_v1_device_eq

fun_cases device_dispatchE: "device_dispatch h env st ctx c tr = r"

section \<open>A concrete system\<close>

text \<open>Two sub-HALs, at addresses 10 and 20, with three sensors; used by the witnesses.\<close>

definition demo_h :: sensors_h where
  "demo_h = \<lparr>SENSOR_TYPE_META_DATA = 0, SENSOR_TYPE_PROXIMITY = 8, SENSOR_TYPE_TILT_DETECTOR = 22,
     SENSOR_FLAG_WAKE_UP = 1, SENSOR_FLAG_ON_CHANGE_MODE = 2,
     SENSORS_DEVICE_API_VERSION_1_0 = 256, SENSORS_DEVICE_API_VERSION_1_1 = 257,
     SENSORS_DEVICE_API_VERSION_1_2 = 258, SENSORS_DEVICE_API_VERSION_1_3 = 259,
     SENSORS_DEVICE_API_VERSION_1_4 = 260\<rparr>"

definition demo_sensor :: "int \<Rightarrow> int \<Rightarrow> sensor_t" where
  "demo_sensor hdl ty = \<lparr>s_name = ''s'', s_handle = hdl, s_type = ty, s_minDelay = 10,
     s_maxDelay = 500, s_flags = 0\<rparr>"

definition demo_event :: sensors_event where
  "demo_event = \<lparr>ev_sensor = 0, ev_type = 0, ev_meta_sensor = 0, ev_data = []\<rparr>"

definition demo_env :: hal_env where
  "demo_env = \<lparr>config_file = (\<lambda>p. if p = MULTI_HAL_CONFIG_FILE_PATH then Some ''ab'' else None),
     load_library = (\<lambda>p. DlsymModule 10),
     module_sensors = (\<lambda>m k. if m = 10 then [demo_sensor 0 1, demo_sensor 7 8]
                            else if m = 20 then [demo_sensor 0 5] else []),
     module_open = (\<lambda>m name. if m \<le> 20 then Some \<lparr>dev_id = m, dev_version = 256\<rparr> else None),
     reply = (\<lambda>tr c. int (length tr)),
     sensor_junk = (\<lambda>i. demo_sensor 0 0), event_junk = (\<lambda>i. demo_event)\<rparr>"

definition demo_loaded :: multihal where
  "demo_loaded = initial_multihal\<lparr>sub_hw_modules := Some [10, 20]\<rparr>"

lemma demo_env_10:
  "module_open demo_env 10 name = Some \<lparr>dev_id = 10, dev_version = 256\<rparr>"
  "module_sensors demo_env 10 k = [demo_sensor 0 1, demo_sensor 7 8]"
  by (simp_all add: demo_env_def)

text \<open>The state after opening both and building the list.\<close>

definition demo_ctx :: sensors_poll_context where
  "demo_ctx = \<lparr>proxy_version = 260, sub_hw_devices = [\<lparr>dev_id = 10, dev_version = 256\<rparr>,
       \<lparr>dev_id = 20, dev_version = 256\<rparr>],
     queues = [SensorEventQueue_new 36 (\<lambda>i. demo_event), SensorEventQueue_new 36 (\<lambda>i. demo_event)],
     threads = [], nextReadIndex = 0\<rparr>"

definition demo_started :: multihal where
  "demo_started = demo_loaded\<lparr>
     tables := snd (assign_seq [(0, 0), (0, 7), (1, 0)] initial_tables),
     global_sensors_list := Some [demo_sensor 1 1, demo_sensor 2 8, demo_sensor 3 5],
     global_sensors_count := 3\<rparr>"

lemmas demo_defs = demo_h_def demo_env_def demo_sensor_def demo_loaded_def demo_ctx_def
  demo_started_def initial_multihal_def initial_tables_def

lemma demo_tables:
  "get_local_handle (tables demo_started) 2 = 7" "get_module_index (tables demo_started) 2 = 0"
  "get_local_handle (tables demo_started) 3 = 0" "get_module_index (tables demo_started) 3 = 1"
  "global_to_full (tables demo_started) 4 = None"
  by (simp_all add: demo_started_def get_local_handle_def get_module_index_def initial_tables_def
      assign_global_handle_def Let_def)

lemma demo_devices:
  "get_v0_device_by_handle (tables demo_started) demo_ctx 2 = Some \<lparr>dev_id = 10, dev_version = 256\<rparr>"
  "get_v0_device_by_handle (tables demo_started) demo_ctx 3 = Some \<lparr>dev_id = 20, dev_version = 256\<rparr>"
  by (simp_all add: get_v0_device_by_handle_def demo_tables demo_ctx_def)

section \<open>Properties\<close>

text \<open>
  C25. Starting the multi-HAL when every sub-HAL opens and reports the same number of sensors
  on both calls: the global list has exactly the sub-HALs' sensors in module order, the
  \<open>k\<close>-th with global handle \<open>k + 1\<close> and otherwise unchanged but for its flags, and that
  global handle leads to the device its own module opened and to its own local handle.
\<close>

theorem startup_routes_every_sensor:
  assumes "open_sensors h env name initial_multihal = Inr (ctx, st1)"
    and "sub_hw_modules st1 = Some mods"
    and "\<forall>m\<in>set mods. module_open env m name \<noteq> None"
    and "\<forall>m\<in>set mods. length (module_sensors env m 0) = length (module_sensors env m 1)"
  shows "\<exists>st2 sensors. module__get_sensors_list h env st1 = Inr (int (length sensors), Some sensors, st2)
    \<and> length sensors = length (listed_sensors env mods)
    \<and> (\<forall>k<length sensors. case listed_sensors env mods ! k of (m, s) \<Rightarrow>
         s_handle (sensors ! k) = int k + 1 \<and> s_name (sensors ! k) = s_name s
         \<and> s_type (sensors ! k) = s_type s \<and> s_minDelay (sensors ! k) = s_minDelay s
         \<and> s_maxDelay (sensors ! k) = s_maxDelay s
         \<and> get_v0_device_by_handle (tables st2) ctx (int k + 1) = module_open env m name
         \<and> get_local_handle (tables st2) (int k + 1) = s_handle s)"
proof -
  obtain st2 vs where st2: "module__get_sensors_list h env st1 =
      Inr (int (length (listed_sensors env mods)), Some (startup_list h vs env mods), st2)"
    "tables st2 = startup_tables env mods" "sub_hw_devices ctx = map (\<lambda>m. the (module_open env m name)) mods"
    by (rule startup_state [OF assms])
  have "case listed_sensors env mods ! k of (m, s) \<Rightarrow>
         s_handle (startup_list h vs env mods ! k) = int k + 1 \<and> s_name (startup_list h vs env mods ! k) = s_name s
         \<and> s_type (startup_list h vs env mods ! k) = s_type s
         \<and> s_minDelay (startup_list h vs env mods ! k) = s_minDelay s
         \<and> s_maxDelay (startup_list h vs env mods ! k) = s_maxDelay s
         \<and> get_v0_device_by_handle (tables st2) ctx (int k + 1) = module_open env m name
         \<and> get_local_handle (tables st2) (int k + 1) = s_handle s"
    if k: "k < length (listed_sensors env mods)" for k
  proof -
    obtain i m s where e: "listed_sensors env mods ! k = (m, s)" "i < length mods" "m = mods ! i"
      "startup_list h vs env mods ! k = global_entry h vs (m, s) (int k + 1)"
      "global_to_full (startup_tables env mods) (int k + 1) = Some (FullHandle (int i) (s_handle s))"
      by (rule startup_entry [OF k])
    moreover have "module_open env m name \<noteq> None" using assms(3) e(2,3) by simp
    ultimately show ?thesis
      by (auto simp: global_entry_def get_v0_device_by_handle_def get_module_index_def
          get_local_handle_def st2)
  qed
  with st2(1) show ?thesis
    by (intro exI [of _ st2] exI [of _ "startup_list h vs env mods"]) (simp add: startup_list_length)
qed

theorem startup_routes_every_sensor_witness:
  "\<exists>ctx st1 st2 sensors. open_sensors demo_h demo_env ''hal'' initial_multihal = Inr (ctx, st1)
    \<and> module__get_sensors_list demo_h demo_env st1 = Inr (int (length sensors), Some sensors, st2)
    \<and> length sensors = 2 \<and> s_handle (sensors ! 1) = 2
    \<and> get_v0_device_by_handle (tables st2) ctx 2 = Some \<lparr>dev_id = 10, dev_version = 256\<rparr>
    \<and> get_local_handle (tables st2) 2 = 7"
proof -
  obtain ctx st1 where o: "open_sensors demo_h demo_env ''hal'' initial_multihal = Inr (ctx, st1)"
    and m: "sub_hw_modules st1 = Some [10]"
    by (simp add: open_sensors_def lazy_init_modules_def get_so_paths_def Let_def
        demo_env_def initial_multihal_def)
  have h: "\<forall>m\<in>set [10]. module_open demo_env m ''hal'' \<noteq> None"
    "\<forall>m\<in>set [10]. length (module_sensors demo_env m 0) = length (module_sensors demo_env m 1)"
    by (simp_all add: demo_env_10)
  have l: "listed_sensors demo_env [10] = [(10, demo_sensor 0 1), (10, demo_sensor 7 8)]"
    by (simp add: listed_sensors_def demo_env_10)
  obtain st2 sensors where r: "module__get_sensors_list demo_h demo_env st1 = Inr (int (length sensors), Some sensors, st2)"
    and n: "length sensors = 2"
    and e: "s_handle (sensors ! 1) = int 1 + 1"
      "get_v0_device_by_handle (tables st2) ctx (int 1 + 1) = module_open demo_env 10 ''hal''"
      "get_local_handle (tables st2) (int 1 + 1) = s_handle (demo_sensor 7 8)"
    using startup_routes_every_sensor [OF o m h] unfolding l by force
  with o show ?thesis
    by (intro exI [of _ ctx] exI [of _ st1] exI [of _ st2] exI [of _ sensors])
      (simp add: demo_env_10 demo_sensor_def)
qed

text \<open>
  A call with a global handle that was never given out is refused with \<open>-EINVAL\<close>, whatever
  the call, and no sub-HAL is called.
\<close>

theorem unknown_handle_refused:
  assumes "global_to_full (tables st) (device_call_handle c) = None"
  shows "device_dispatch h env st ctx c tr = Inr (- EINVAL, tr)"
  using assms by (cases c) (simp_all add: dispatch_defs unknown_handle)

theorem unknown_handle_refused_witness:
  "device_dispatch demo_h demo_env demo_started demo_ctx (Activate 4 1) [] = Inr (- EINVAL, [])"
  by (rule unknown_handle_refused) (simp add: demo_tables)

text \<open>
  The sub-HAL call that a framework call for a sensor comes to, when \<open>d\<close> is the device that the sensor's own
  sub-HAL has opened, \<open>l\<close> the handle the sub-HAL gave the sensor, \<open>i\<close> the number of the sub-HAL and
  \<open>sensors\<close> the list the framework has: \<open>None\<close> is a call that is refused, \<open>Inl\<close> a fault.
\<close>

definition supports :: "hw_device \<Rightarrow> int \<Rightarrow> bool" where
  "supports d level \<longleftrightarrow> dev_version d \<noteq> -1 \<and> dev_version d \<ge> level"

fun owner_call :: "sensors_h \<Rightarrow> sensor_t list \<Rightarrow> nat \<Rightarrow> hw_device \<Rightarrow> int \<Rightarrow> device_call \<Rightarrow> fault + subcall option" where
  "owner_call h sensors i d l (Activate g enabled) = Inr (Some (SubActivate (dev_id d) l enabled))"
| "owner_call h sensors i d l (SetDelay g ns) = Inr (Some (SubSetDelay (dev_id d) l ns))"
| "owner_call h sensors i d l (Batch g flags period timeout) =
     (if supports d (SENSORS_DEVICE_API_VERSION_1_1 h) then Inr (Some (SubBatch (dev_id d) l flags period timeout))
      else if period < 0 \<or> timeout < 0 then Inr None
      else if i \<ge> length sensors then Inl OutOfBounds
      else Inr (Some (SubSetDelay (dev_id d) g
        (if period < s_minDelay (sensors ! i) then s_minDelay (sensors ! i) else min period (s_maxDelay (sensors ! i))))))"
| "owner_call h sensors i d l (Flush g) =
     Inr (if supports d (SENSORS_DEVICE_API_VERSION_1_1 h) then Some (SubFlush (dev_id d) l) else None)"
| "owner_call h sensors i d l (Inject e) =
     Inr (if supports d (SENSORS_DEVICE_API_VERSION_1_4 h) then Some (SubInject (dev_id d) ProxyDevice e) else None)"

lemma dispatch_owner_call:
  assumes "get_v0_device_by_handle (tables st) ctx g = Some d" and "get_module_index (tables st) g = int i"
    and "get_local_handle (tables st) g = l" and "0 \<le> l" and "global_sensors_list st = Some sensors"
    and "device_call_handle c = g"
  shows "device_dispatch h env st ctx c tr = (case owner_call h sensors i d l c of Inl f \<Rightarrow> Inl f
     | Inr None \<Rightarrow> Inr (- EINVAL, tr) | Inr (Some sc) \<Rightarrow> Inr (reply env tr sc, tr @ [sc]))"
  using assms by (cases c)
    (auto simp: dispatch_defs halIsAPILevelCompliant_def get_device_version_by_handle_def supports_def min_def)

text \<open>
  C33. Every call of the framework for a sensor reaches the sensor's own sub-HAL as the right call. After a
  start in which every sub-HAL opens and reports the same number of sensors on both calls, take any entry of the
  sensor list whose sub-HAL gave it a handle that is not negative, and any call with the entry's handle. \<open>activate\<close>, \<open>setDelay\<close>,
  and, from API 1.1 on, \<open>batch\<close> and \<open>flush\<close> make exactly one call, the same one with the same arguments, on the
  device the owning module opened and with the module's own handle, and return its result.
  An older device gets no \<open>flush\<close>, and for \<open>batch\<close> a \<open>setDelay\<close>, which the code gets wrong: the handle is the global one,
  and the limits are those of the entry at the number of the \<^emph>\<open>module\<close>, or the list is left.
  \<open>inject_sensor_data\<close> goes to the right device's function from API 1.4 on, but with the multi-HAL's device and the
  global handle. All else is refused with \<open>-EINVAL\<close> and no call.
\<close>

theorem dispatch_reaches_the_owner:
  assumes "open_sensors h env name initial_multihal = Inr (ctx, st1)"
    and "sub_hw_modules st1 = Some mods"
    and "\<forall>m\<in>set mods. module_open env m name \<noteq> None"
    and "\<forall>m\<in>set mods. length (module_sensors env m 0) = length (module_sensors env m 1)"
    and "module__get_sensors_list h env st1 = Inr (count, Some sensors, st2)"
    and "k < length sensors" and "listed_sensors env mods ! k = (m, s)" and "0 \<le> s_handle s"
  shows "\<exists>i d. i < length mods \<and> mods ! i = m \<and> module_open env m name = Some d \<and>
    (\<forall>c tr. device_call_handle c = s_handle (sensors ! k) \<longrightarrow>
      device_dispatch h env st2 ctx c tr = (case owner_call h sensors i d (s_handle s) c of
          Inl f \<Rightarrow> Inl f
        | Inr None \<Rightarrow> Inr (- EINVAL, tr)
        | Inr (Some sc) \<Rightarrow> Inr (reply env tr sc, tr @ [sc])))"
proof (rule startup_state [OF assms(1-4)])
  fix st vs
  assume st: "module__get_sensors_list h env st1 =
      Inr (int (length (listed_sensors env mods)), Some (startup_list h vs env mods), st)"
    "tables st = startup_tables env mods"
    and devs: "sub_hw_devices ctx = map (\<lambda>m. the (module_open env m name)) mods"
  from st assms(5) have eqs: "sensors = startup_list h vs env mods" "tables st2 = startup_tables env mods" by auto
  have gl: "global_sensors_list st2 = Some sensors"
    using assms(5) by (auto simp: module__get_sensors_list_def split: sum.splits)
  have "k < length (listed_sensors env mods)" using assms(6) eqs by (simp add: startup_list_length)
  then obtain i m' s' where e: "listed_sensors env mods ! k = (m', s')" "i < length mods" "m' = mods ! i"
    "startup_list h vs env mods ! k = global_entry h vs (m', s') (int k + 1)"
    "global_to_full (startup_tables env mods) (int k + 1) = Some (FullHandle (int i) (s_handle s'))"
    by (rule startup_entry)
  with assms(7) have ms: "m' = m" "s' = s" by simp_all
  obtain d where d: "module_open env m name = Some d" using assms(3) e(2,3) ms by fastforce
  have g: "s_handle (sensors ! k) = int k + 1" using e(4) by (simp add: eqs(1) global_entry_def)
  have "get_v0_device_by_handle (tables st2) ctx (int k + 1) = Some d"
    "get_module_index (tables st2) (int k + 1) = int i" "get_local_handle (tables st2) (int k + 1) = s_handle s"
    using e(2,3,5) d devs ms
    by (simp_all add: eqs(2) get_v0_device_by_handle_def get_module_index_def get_local_handle_def)
  from dispatch_owner_call [OF this assms(8) gl] g have "\<forall>c tr. device_call_handle c = s_handle (sensors ! k) \<longrightarrow>
      device_dispatch h env st2 ctx c tr = (case owner_call h sensors i d (s_handle s) c of
          Inl f \<Rightarrow> Inl f | Inr None \<Rightarrow> Inr (- EINVAL, tr) | Inr (Some sc) \<Rightarrow> Inr (reply env tr sc, tr @ [sc]))" by simp
  with e(2,3) ms d show ?thesis by blast
qed

theorem dispatch_reaches_the_owner_witness:
  "\<exists>ctx st1 st2 sensors count. open_sensors demo_h demo_env ''hal'' initial_multihal = Inr (ctx, st1)
    \<and> module__get_sensors_list demo_h demo_env st1 = Inr (count, Some sensors, st2)
    \<and> device_dispatch demo_h demo_env st2 ctx (Activate 2 1) [] = Inr (0, [SubActivate 10 7 1])
    \<and> device_dispatch demo_h demo_env st2 ctx (Batch 2 0 3 0) [] = Inr (0, [SubSetDelay 10 2 10])"
proof -
  obtain ctx st1 where o: "open_sensors demo_h demo_env ''hal'' initial_multihal = Inr (ctx, st1)"
    and m: "sub_hw_modules st1 = Some [10]"
    by (simp add: open_sensors_def lazy_init_modules_def get_so_paths_def Let_def
        demo_env_def initial_multihal_def)
  have h: "\<forall>m\<in>set [10]. module_open demo_env m ''hal'' \<noteq> None"
    "\<forall>m\<in>set [10]. length (module_sensors demo_env m 0) = length (module_sensors demo_env m 1)"
    by (simp_all add: demo_env_10)
  have l: "listed_sensors demo_env [10] = [(10, demo_sensor 0 1), (10, demo_sensor 7 8)]"
    by (simp add: listed_sensors_def demo_env_10)
  obtain st2 vs where r: "module__get_sensors_list demo_h demo_env st1 =
      Inr (int (length (listed_sensors demo_env [10])), Some (startup_list demo_h vs demo_env [10]), st2)"
    by (rule startup_state [OF o m h]) blast
  define sensors where "sensors = startup_list demo_h vs demo_env [10]"
  have n: "length sensors = 2" by (simp add: sensors_def startup_list_length l)
  have e: "sensors ! k = global_entry demo_h vs (listed_sensors demo_env [10] ! k) (int k + 1)" if "k < 2" for k
    using that l by (auto simp: sensors_def intro: startup_entry [of k demo_env "[10]" demo_h vs])
  have s0: "s_minDelay (sensors ! 0) = 10" "s_maxDelay (sensors ! 0) = 500" and s1: "s_handle (sensors ! 1) = 2"
    using e [of 0] e [of 1] by (simp_all add: l global_entry_def demo_sensor_def)
  have "listed_sensors demo_env [10] ! 1 = (10, demo_sensor 7 8)" "0 \<le> s_handle (demo_sensor 7 8)" "1 < length sensors"
    by (simp_all add: l n demo_sensor_def)
  from dispatch_reaches_the_owner [OF o m h r [folded sensors_def] this(3,1,2)]
  obtain d where "module_open demo_env 10 ''hal'' = Some d" and
    "\<forall>c tr. device_call_handle c = 2 \<longrightarrow> device_dispatch demo_h demo_env st2 ctx c tr =
      (case owner_call demo_h sensors 0 d 7 c of Inl f \<Rightarrow> Inl f
        | Inr None \<Rightarrow> Inr (- EINVAL, tr) | Inr (Some sc) \<Rightarrow> Inr (reply demo_env tr sc, tr @ [sc]))"
    by (auto simp: s1 [unfolded One_nat_def] demo_sensor_def)
  then have d: "d = \<lparr>dev_id = 10, dev_version = 256\<rparr>" and disp: "device_call_handle c = 2 \<Longrightarrow>
      device_dispatch demo_h demo_env st2 ctx c tr = (case owner_call demo_h sensors 0 d 7 c of Inl f \<Rightarrow> Inl f
        | Inr None \<Rightarrow> Inr (- EINVAL, tr) | Inr (Some sc) \<Rightarrow> Inr (reply demo_env tr sc, tr @ [sc]))" for c tr
    by (simp_all add: demo_env_10 del: device_dispatch.simps)
  have "device_dispatch demo_h demo_env st2 ctx (Activate 2 1) [] = Inr (0, [SubActivate 10 7 1])"
    by (subst disp) (simp_all add: d demo_env_def)
  moreover have "device_dispatch demo_h demo_env st2 ctx (Batch 2 0 3 0) [] = Inr (0, [SubSetDelay 10 2 10])"
    by (subst disp) (simp_all add: d n s0 demo_env_def demo_h_def supports_def)
  moreover note o r [folded sensors_def]
  ultimately show ?thesis by blast
qed

text \<open>
  When no configuration file can be opened, loading the modules does not come back with an
  empty list: it dereferences a null pointer, whether \<open>open_sensors\<close> or \<open>get_sensors_list\<close> is
  called first.
\<close>

theorem missing_config_dereferences_null:
  assumes "config_file env MULTI_HAL_CONFIG_FILE_PATH = None"
    and "config_file env DEPRECATED_MULTI_HAL_CONFIG_FILE_PATH = None"
  shows "open_sensors h env name initial_multihal = Inl NullDeref
    \<and> module__get_sensors_list h env initial_multihal = Inl NullDeref"
  using assms
  by (simp add: open_sensors_def module__get_sensors_list_def lazy_init_sensors_list_def
      lazy_init_modules_def get_so_paths_def initial_multihal_def)

theorem missing_config_dereferences_null_witness:
  "open_sensors demo_h (demo_env\<lparr>config_file := (\<lambda>p. None)\<rparr>) ''hal'' initial_multihal = Inl NullDeref"
  using missing_config_dereferences_null [of "demo_env\<lparr>config_file := (\<lambda>p. None)\<rparr>" demo_h "''hal''"]
  by simp

text \<open>
  C34. The devices are pushed only for the modules that open, while the sensor list counts every
  module. With three modules of which the first does not open and has no sensors, the sensors
  of the second are routed to the third's device, and those of the third to none.
\<close>

theorem failed_open_misroutes:
  assumes "sub_hw_modules st = Some [a, b, c]" and "distinct [a, b, c]"
    and "global_sensors_list st = None" and "tables st = initial_tables"
    and "module_open env a name = None" and "module_open env b name = Some db"
    and "module_open env c name = Some dc"
    and "module_sensors env a 0 = []" and "module_sensors env a 1 = []"
    and "module_sensors env b 0 = [sb]" and "module_sensors env b 1 = [sb]"
    and "module_sensors env c 0 = [sc]" and "module_sensors env c 1 = [sc]"
  shows "\<exists>ctx st1 st2. open_sensors h env name st = Inr (ctx, st1)
    \<and> lazy_init_sensors_list h env st1 = Inr st2
    \<and> get_local_handle (tables st2) 1 = s_handle sb
    \<and> get_v0_device_by_handle (tables st2) ctx 1 = Some dc
    \<and> get_local_handle (tables st2) 2 = s_handle sc
    \<and> get_v0_device_by_handle (tables st2) ctx 2 = None"
  using assms
  by (simp add: open_sensors_def lazy_init_sensors_list_def lazy_init_modules_def
      addSubHwDevice_def Let_def assign_global_handle_def initial_tables_def
      get_local_handle_def get_v0_device_by_handle_def get_module_index_def)

definition demo_env3 :: hal_env where
  "demo_env3 = demo_env\<lparr>module_open := (\<lambda>m name. if m = 30 then None else Some \<lparr>dev_id = m, dev_version = 256\<rparr>),
     module_sensors := (\<lambda>m k. if m = 30 then [] else [demo_sensor (int m) 1])\<rparr>"

theorem failed_open_misroutes_witness:
  "\<exists>ctx st1 st2. open_sensors demo_h demo_env3 ''hal''
        (initial_multihal\<lparr>sub_hw_modules := Some [30, 40, 50]\<rparr>) = Inr (ctx, st1)
    \<and> lazy_init_sensors_list demo_h demo_env3 st1 = Inr st2
    \<and> get_local_handle (tables st2) 1 = 40
    \<and> get_v0_device_by_handle (tables st2) ctx 1 = Some \<lparr>dev_id = 50, dev_version = 256\<rparr>"
  using failed_open_misroutes [of "initial_multihal\<lparr>sub_hw_modules := Some [30, 40, 50]\<rparr>" 30 40 50
      demo_env3 "''hal''" "\<lparr>dev_id = 40, dev_version = 256\<rparr>" "\<lparr>dev_id = 50, dev_version = 256\<rparr>"
      "demo_sensor 40 1" "demo_sensor 50 1" demo_h]
  by (fastforce simp: demo_env3_def initial_multihal_def demo_sensor_def)

text \<open>
  A module that reports sensors but does not open ends the building of the sensor list in an
  uncaught \<open>std::out_of_range\<close>.
\<close>

theorem failed_open_with_sensors_throws:
  assumes "sub_hw_modules st = Some (m # ms)" and "m \<notin> set ms"
    and "global_sensors_list st = None"
    and "module_open env m name = None" and "module_sensors env m 0 \<noteq> []"
    and "module_sensors env m 1 = module_sensors env m 0"
    and "open_sensors h env name st = Inr (ctx, st1)"
  shows "lazy_init_sensors_list h env st1 = Inl OutOfRange"
proof -
  have no_version: "snd (open_modules env name ns dev vs) m = None"
    if "vs m = None" "m \<notin> set ns" for ns dev vs
    using that by (induction ns arbitrary: dev vs) (auto split: option.split)
  have st1: "sub_hw_modules st1 = Some (m # ms)" "global_sensors_list st1 = None"
    "sub_hw_versions st1 \<noteq> None" "the (sub_hw_versions st1) m = None"
    using assms no_version [of Map.empty ms]
    by (auto simp: open_sensors_def lazy_init_modules_def Let_def split: prod.splits)
      (metis snd_conv)
  obtain s ss where s: "module_sensors env m 0 = s # ss" using assms(5) by (cases "module_sensors env m 0") auto
  have "0 < sum_list (map (\<lambda>m. int (length (module_sensors env m 0))) (m # ms))"
  proof -
    have "0 \<le> sum_list (map (\<lambda>m. int (length (module_sensors env m 0))) ms)"
      by (rule sum_list_nonneg) auto
    then show ?thesis by (simp add: s)
  qed
  then show ?thesis
    using st1 s assms(6)
    by (auto simp: lazy_init_sensors_list_def lazy_init_modules_def Let_def)
qed

definition demo_env_closed :: hal_env where
  "demo_env_closed = demo_env\<lparr>module_open := (\<lambda>m name. None)\<rparr>"

theorem failed_open_with_sensors_throws_witness:
  "\<exists>ctx st1. open_sensors demo_h demo_env_closed ''hal'' demo_loaded = Inr (ctx, st1)
    \<and> lazy_init_sensors_list demo_h demo_env_closed st1 = Inl OutOfRange"
proof -
  obtain ctx st1 where o: "open_sensors demo_h demo_env_closed ''hal'' demo_loaded = Inr (ctx, st1)"
    by (simp add: open_sensors_def lazy_init_modules_def Let_def demo_env_closed_def demo_loaded_def)
  have "lazy_init_sensors_list demo_h demo_env_closed st1 = Inl OutOfRange"
    by (rule failed_open_with_sensors_throws [OF _ _ _ _ _ _ o, of 10 "[20]"])
      (simp_all add: demo_loaded_def demo_env_closed_def demo_env_def initial_multihal_def)
  with o show ?thesis by blast
qed

text \<open>
  \<open>batch\<close> on a device older than API 1.1 becomes one \<open>setDelay\<close> with a period clamped into
  the delay limits of the entry at the \<^emph>\<open>module\<close> index of the global list, and with the
  \<^emph>\<open>global\<close> handle in place of the sub-HAL's own.
\<close>

theorem legacy_batch_becomes_setDelay:
  assumes "get_v0_device_by_handle (tables st) ctx g = Some d"
    and "0 \<le> get_local_handle (tables st) g"
    and "dev_version d < SENSORS_DEVICE_API_VERSION_1_1 h"
    and "0 \<le> period" and "0 \<le> timeout"
    and "global_sensors_list st = Some sensors"
    and "i = nat (get_module_index (tables st) g)" and "i < length sensors"
    and "s_minDelay (sensors ! i) \<le> s_maxDelay (sensors ! i)"
  shows "ctx_batch h env st ctx g flags period timeout tr =
    Inr (sub_call env (SubSetDelay (dev_id d) g
      (max (s_minDelay (sensors ! i)) (min period (s_maxDelay (sensors ! i))))) tr)"
proof -
  have idx: "\<not> get_module_index (tables st) g < 0" "\<not> get_module_index (tables st) g \<ge> int (length sensors)"
    using assms(1,7,8) by (auto simp: get_v0_device_by_handle_def Let_def split: if_splits)
  show ?thesis
    using assms(1-6,9) idx assms(7) [symmetric]
    by (auto simp: ctx_batch_def get_v1_device_eq halIsAPILevelCompliant_def
        get_device_version_by_handle_def Let_def)
qed

theorem legacy_batch_becomes_setDelay_witness:
  "ctx_batch demo_h demo_env demo_started demo_ctx 2 0 3 0 [] = Inr (0, [SubSetDelay 10 2 10])"
proof -
  have "ctx_batch demo_h demo_env demo_started demo_ctx 2 0 3 0 [] =
    Inr (sub_call demo_env (SubSetDelay 10 2 (max 10 (min 3 500))) [])"
    using legacy_batch_becomes_setDelay [OF demo_devices(1), of demo_h 3 0
        "[demo_sensor 1 1, demo_sensor 2 8, demo_sensor 3 5]" 0 demo_env 0 "[]"] demo_tables
    by (simp add: demo_h_def demo_sensor_def demo_started_def)
  then show ?thesis by (simp add: sub_call_def demo_env_def)
qed
end
