(* ===== verification/MultiHalPoll.thy ===== *)
theory MultiHalPoll
  imports MultiHal
begin

text \<open>
  \<^verbatim>\<open>sensors/multihal.cpp\<close>, \<open>sensors_poll_context_t::poll\<close> and \<open>copy_event_remap_handle\<close>: the
  round-robin scan that moves events from the sub-HALs' queues into the caller's buffer with
  their handles made global, and the wait for new data around it.

  The inner loop is a \<open>while_option\<close> over the loop's variables, the outer loop a recursion on
  the queues as they are found at each return from \<open>pthread_cond_wait\<close>.
\<close>

section \<open>The code\<close>

definition copy_event_remap_handle ::
    "sensors_h \<Rightarrow> handle_tables \<Rightarrow> sensors_event \<Rightarrow> int \<Rightarrow> sensors_event" where
  "copy_event_remap_handle h t src sub_index =
     (let dest = src in
      if ev_type dest = SENSOR_TYPE_META_DATA h
      then dest\<lparr>ev_meta_sensor := get_global_handle t (FullHandle sub_index (ev_meta_sensor dest))\<rparr>
      else dest\<lparr>ev_sensor := get_global_handle t (FullHandle sub_index (ev_sensor dest))\<rparr>)"

record scan_state =
  sc_queues :: "sensors_event sensor_queue list"
  sc_next :: int
  sc_empties :: int
  sc_read :: int
  sc_data :: "sensors_event list"

text \<open>
  One turn of the inner loop. \<open>queues.at\<close> throws outside the vector; the store through
  \<open>data[eventsRead]\<close> is out of bounds when the caller's buffer is too short.
\<close>

definition scan_step :: "sensors_h \<Rightarrow> handle_tables \<Rightarrow> int \<Rightarrow> scan_state \<Rightarrow> fault + scan_state" where
  "scan_step h t queueCount s =
     (let i = sc_next s; next' = (sc_next s + 1) smod queueCount in
      if i < 0 \<or> i \<ge> int (length (sc_queues s)) then Inl OutOfRange
      else
        let queue = sc_queues s ! nat i in
        (case peek queue of
           None \<Rightarrow> Inr (s\<lparr>sc_empties := sc_empties s + 1, sc_next := next'\<rparr>)
         | Some event \<Rightarrow>
             if sc_read s < 0 \<or> sc_read s \<ge> int (length (sc_data s)) then Inl OutOfBounds
             else
               let d = copy_event_remap_handle h t event i
               in Inr (s\<lparr>sc_empties := 0, sc_data := (sc_data s)[nat (sc_read s) := d],
                        sc_read := (if ev_sensor d = -1 then sc_read s else sc_read s + 1),
                        sc_queues := (sc_queues s)[nat i := dequeue queue],
                        sc_next := next'\<rparr>)))"

fun scan_guard :: "int \<Rightarrow> int \<Rightarrow> fault + scan_state \<Rightarrow> bool" where
  "scan_guard queueCount maxReads (Inl f) = False"
| "scan_guard queueCount maxReads (Inr s) = (sc_empties s < queueCount \<and> sc_read s < maxReads)"

fun scan_body :: "sensors_h \<Rightarrow> handle_tables \<Rightarrow> int \<Rightarrow> fault + scan_state \<Rightarrow> fault + scan_state" where
  "scan_body h t queueCount (Inl f) = Inl f"
| "scan_body h t queueCount (Inr s) = scan_step h t queueCount s"

definition poll_scan ::
    "sensors_h \<Rightarrow> handle_tables \<Rightarrow> int \<Rightarrow> int \<Rightarrow> scan_state \<Rightarrow> (fault + scan_state) option" where
  "poll_scan h t queueCount maxReads s =
     while_option (scan_guard queueCount maxReads) (scan_body h t queueCount) (Inr s)"

text \<open>\<open>None\<close>: the caller is still waiting for \<open>data_available_cond\<close> after the last wake-up given.\<close>

fun poll_loop :: "sensors_h \<Rightarrow> handle_tables \<Rightarrow> int \<Rightarrow> int \<Rightarrow> scan_state
    \<Rightarrow> sensors_event sensor_queue list list \<Rightarrow> (fault + scan_state) option" where
  "poll_loop h t queueCount maxReads s wakes =
     (case poll_scan h t queueCount maxReads s of
        None \<Rightarrow> None
      | Some (Inl f) \<Rightarrow> Some (Inl f)
      | Some (Inr s') \<Rightarrow>
          if sc_read s' = 0 then
            (case wakes of
               [] \<Rightarrow> None
             | qs # wakes' \<Rightarrow>
                 poll_loop h t queueCount maxReads (s'\<lparr>sc_queues := qs, sc_empties := 0\<rparr>) wakes')
          else Some (Inr s'))"

declare poll_loop.simps [simp del]

definition ctx_poll :: "sensors_h \<Rightarrow> multihal \<Rightarrow> sensors_poll_context \<Rightarrow> sensors_event list \<Rightarrow> int
    \<Rightarrow> sensors_event sensor_queue list list
    \<Rightarrow> (fault + int \<times> sensors_event list \<times> sensors_poll_context) option" where
  "ctx_poll h st ctx data maxReads wakes =
     map_option (map_sum id (\<lambda>s. (sc_read s, sc_data s,
         ctx\<lparr>queues := sc_queues s, nextReadIndex := sc_next s\<rparr>)))
       (poll_loop h (tables st) (int (length (queues ctx))) maxReads
          \<lparr>sc_queues = queues ctx, sc_next = nextReadIndex ctx, sc_empties = 0, sc_read = 0,
           sc_data = data\<rparr> wakes)"

section \<open>Specification of a scan\<close>

text \<open>
  A scan is described by the events it takes, as pairs of queue index and event in the order
  taken: what it took from one queue, and what of it ends in the caller's buffer.
\<close>

type_synonym taken = "(nat \<times> sensors_event) list"

definition taken_from :: "taken \<Rightarrow> nat \<Rightarrow> sensors_event list" where
  "taken_from tr j = map snd (filter (\<lambda>p. fst p = j) tr)"

definition delivered :: "sensors_h \<Rightarrow> handle_tables \<Rightarrow> taken \<Rightarrow> sensors_event list" where
  "delivered h t tr =
     filter (\<lambda>d. ev_sensor d \<noteq> -1) (map (\<lambda>p. copy_event_remap_handle h t (snd p) (int (fst p))) tr)"

definition has_deliverable ::
    "sensors_h \<Rightarrow> handle_tables \<Rightarrow> sensors_event sensor_queue list \<Rightarrow> bool" where
  "has_deliverable h t qs \<longleftrightarrow>
     (\<exists>j<length qs. \<exists>e\<in>set (queue_list (qs ! j)). ev_sensor (copy_event_remap_handle h t e (int j)) \<noteq> -1)"

lemma taken_from_snoc:
  "taken_from (tr @ [(k, e)]) j = (if k = j then taken_from tr j @ [e] else taken_from tr j)"
  by (simp add: taken_from_def)

lemma delivered_snoc:
  "delivered h t (tr @ [(k, e)]) = (let d = copy_event_remap_handle h t e (int k)
     in if ev_sensor d = -1 then delivered h t tr else delivered h t tr @ [d])"
  by (simp add: delivered_def Let_def)

definition queues_ok :: "nat \<Rightarrow> sensors_event sensor_queue list \<Rightarrow> bool" where
  "queues_ok n qs \<longleftrightarrow> length qs = n \<and> (\<forall>q\<in>set qs. queue_inv q)"

definition ring_offset :: "nat \<Rightarrow> int \<Rightarrow> int \<Rightarrow> int" where
  "ring_offset n start i = (i - start) mod int n"

text \<open>
  The loop invariant: index ranges; every queue is what it was less what was taken from its
  front; the buffer holds what was delivered; the \<open>empties\<close> queues before \<open>nextReadIndex\<close> are
  empty; and every queue was visited \<open>r\<close> or \<open>r + 1\<close> times, a queue that still has events having
  given one at each visit.
\<close>

definition scan_ranges :: "nat \<Rightarrow> int \<Rightarrow> nat \<Rightarrow> scan_state \<Rightarrow> bool" where
  "scan_ranges n maxReads len s \<longleftrightarrow> queues_ok n (sc_queues s)
     \<and> 0 \<le> sc_next s \<and> sc_next s < int n \<and> 0 \<le> sc_empties s \<and> sc_empties s \<le> int n
     \<and> 0 \<le> sc_read s \<and> sc_read s \<le> maxReads \<and> maxReads \<le> int len \<and> length (sc_data s) = len"

definition scan_taken :: "sensors_h \<Rightarrow> handle_tables \<Rightarrow> sensors_event sensor_queue list \<Rightarrow> scan_state \<Rightarrow> taken \<Rightarrow> bool" where
  "scan_taken h t qs0 s tr \<longleftrightarrow>
     (\<forall>j<length qs0. queue_list (qs0 ! j) = taken_from tr j @ queue_list (sc_queues s ! j))
     \<and> take (nat (sc_read s)) (sc_data s) = delivered h t tr
     \<and> fst ` set tr \<subseteq> {..<length qs0}"

definition scan_empties :: "nat \<Rightarrow> scan_state \<Rightarrow> bool" where
  "scan_empties n s \<longleftrightarrow> (\<forall>k. 1 \<le> k \<and> k \<le> sc_empties s \<longrightarrow>
     queue_list (sc_queues s ! nat ((sc_next s - k) mod int n)) = [])"

definition visits :: "nat \<Rightarrow> int \<Rightarrow> nat \<Rightarrow> int \<Rightarrow> nat \<Rightarrow> nat" where
  "visits n start r i j = r + (if ring_offset n start (int j) < ring_offset n start i then 1 else 0)"

definition scan_rounds :: "nat \<Rightarrow> int \<Rightarrow> scan_state \<Rightarrow> taken \<Rightarrow> nat \<Rightarrow> bool" where
  "scan_rounds n start s tr r \<longleftrightarrow> (\<forall>j<n.
     length (taken_from tr j) \<le> visits n start r (sc_next s) j
     \<and> (queue_list (sc_queues s ! j) \<noteq> [] \<longrightarrow>
          length (taken_from tr j) = visits n start r (sc_next s) j))"

definition scan_measure :: "nat \<Rightarrow> fault + scan_state \<Rightarrow> nat" where
  "scan_measure n x = (case x of Inl f \<Rightarrow> 0
     | Inr s \<Rightarrow> sum_list (map (\<lambda>q. length (queue_list q)) (sc_queues s)) * (n + 1)
                + (n - nat (sc_empties s)))"

section \<open>One turn of the scan\<close>

lemma ring_offset_range: "0 < n \<Longrightarrow> 0 \<le> ring_offset n start i \<and> ring_offset n start i < int n"
  by (simp add: ring_offset_def)

lemma ring_offset_next: "ring_offset n start ((i + 1) mod int n) = (ring_offset n start i + 1) mod int n"
  by (simp add: ring_offset_def mod_simps algebra_simps)

lemma ring_offset_inj:
  assumes "ring_offset n start i = ring_offset n start j"
    and "0 \<le> i" "i < int n" "0 \<le> j" "j < int n"
  shows "i = j"
proof -
  have "int n dvd (i - start) - (j - start)"
    using assms(1) unfolding ring_offset_def by (simp only: mod_eq_dvd_iff)
  then have "int n dvd i - j" by simp
  then have "int n \<le> \<bar>i - j\<bar>" if "i - j \<noteq> 0"
    using dvd_imp_le_int [OF that, of "int n"] by simp
  then show ?thesis using assms(2-) by linarith
qed

text \<open>A turn at queue \<open>i\<close> is one more visit of queue \<open>i\<close> and of no other.\<close>

lemma visits_next:
  assumes "0 \<le> i" and "i < int n"
  shows "\<exists>r'. \<forall>j<n. visits n start r' ((i + 1) mod int n) j
    = visits n start r i j + (if int j = i then 1 else 0)"
proof -
  let ?o = "ring_offset n start"
  have n: "0 < n" using assms by simp
  have oi: "0 \<le> ?o i" "?o i < int n" using ring_offset_range [OF n] by auto
  have same: "?o (int j) = ?o i \<longleftrightarrow> int j = i" if "j < n" for j
    using ring_offset_inj [of n start "int j" i] that assms by auto
  show ?thesis
  proof (cases "?o i + 1 = int n")
    case True
    then have "?o ((i + 1) mod int n) = 0" by (simp add: ring_offset_next)
    then have "visits n start (r + 1) ((i + 1) mod int n) j
        = visits n start r i j + (if int j = i then 1 else 0)" if "j < n" for j
      using same [OF that] ring_offset_range [OF n, of start "int j"] True
      unfolding visits_def by auto
    then show ?thesis by blast
  next
    case False
    with oi have "?o ((i + 1) mod int n) = ?o i + 1" by (simp add: ring_offset_next)
    then have "visits n start r ((i + 1) mod int n) j
        = visits n start r i j + (if int j = i then 1 else 0)" if "j < n" for j
      using same [OF that] oi unfolding visits_def by auto
    then show ?thesis by blast
  qed
qed

lemma next_index:
  assumes "0 \<le> i" and "i < int n"
  shows "(i + 1) smod int n = (i + 1) mod int n" and "0 \<le> (i + 1) mod int n" and "(i + 1) mod int n < int n"
  using assms by (simp_all add: smod_eq_mod)

lemma take_update_snoc: "k < length xs \<Longrightarrow> take (Suc k) (xs[k := d]) = take k xs @ [d]"
  by (simp add: take_Suc_conv_app_nth)

lemma scan_step_empty:
  assumes "scan_ranges n m len s" and "sc_empties s < int n"
    and "queue_list (sc_queues s ! nat (sc_next s)) = []"
  shows "scan_step h t (int n) s
    = Inr (s\<lparr>sc_empties := sc_empties s + 1, sc_next := (sc_next s + 1) mod int n\<rparr>)"
proof -
  have i: "0 \<le> sc_next s" "sc_next s < int n" "length (sc_queues s) = n"
    and inv: "queue_inv (sc_queues s ! nat (sc_next s))"
    using assms(1) by (auto simp: scan_ranges_def queues_ok_def)
  have "peek (sc_queues s ! nat (sc_next s)) = None"
    using inv assms(3) by (simp add: seq.front_None_iff)
  with i show ?thesis by (simp add: scan_step_def Let_def next_index)
qed

lemma scan_step_event:
  assumes "scan_ranges n m len s" and "sc_read s < m"
    and "queue_list (sc_queues s ! nat (sc_next s)) = e # es"
  shows "scan_step h t (int n) s = (let d = copy_event_remap_handle h t e (sc_next s) in
     Inr (s\<lparr>sc_empties := 0, sc_data := (sc_data s)[nat (sc_read s) := d],
            sc_read := (if ev_sensor d = -1 then sc_read s else sc_read s + 1),
            sc_queues := (sc_queues s)[nat (sc_next s) := dequeue (sc_queues s ! nat (sc_next s))],
            sc_next := (sc_next s + 1) mod int n\<rparr>))"
proof -
  have i: "0 \<le> sc_next s" "sc_next s < int n" "length (sc_queues s) = n"
    and r: "\<not> sc_read s < 0" "\<not> sc_read s \<ge> int (length (sc_data s))"
    and inv: "queue_inv (sc_queues s ! nat (sc_next s))"
    using assms(1,2) by (auto simp: scan_ranges_def queues_ok_def)
  have "peek (sc_queues s ! nat (sc_next s)) = Some e"
    using inv assms(3) by (simp add: seq.front_law)
  with i r show ?thesis by (simp add: scan_step_def Let_def next_index)
qed

section \<open>The invariant is kept\<close>

definition scan_inv :: "sensors_h \<Rightarrow> handle_tables \<Rightarrow> nat \<Rightarrow> int \<Rightarrow> int \<Rightarrow> nat
    \<Rightarrow> sensors_event sensor_queue list \<Rightarrow> fault + scan_state \<Rightarrow> bool" where
  "scan_inv h t n start maxReads len qs0 x \<longleftrightarrow> (case x of Inl f \<Rightarrow> False
     | Inr s \<Rightarrow> scan_ranges n maxReads len s \<and> scan_empties n s
         \<and> (\<exists>tr r. scan_taken h t qs0 s tr \<and> scan_rounds n start s tr r))"

lemma queues_okD: "queues_ok n qs \<Longrightarrow> j < n \<Longrightarrow> queue_inv (qs ! j)"
  by (simp add: queues_ok_def)

lemma queues_ok_update: "queues_ok n qs \<Longrightarrow> queue_inv q \<Longrightarrow> queues_ok n (qs[i := q])"
  by (auto simp: queues_ok_def dest: set_update_subset_insert [THEN subsetD])

lemma scan_empties_step:
  assumes "scan_ranges n m len s" and "scan_empties n s" and "sc_empties s < int n"
    and "queue_list (sc_queues s ! nat (sc_next s)) = []"
  shows "scan_empties n (s\<lparr>sc_empties := sc_empties s + 1, sc_next := (sc_next s + 1) mod int n\<rparr>)"
proof -
  have i: "0 \<le> sc_next s" "sc_next s < int n" using assms(1) by (auto simp: scan_ranges_def)
  have "queue_list (sc_queues s ! nat (((sc_next s + 1) mod int n - k) mod int n)) = []"
    if "1 \<le> k" "k \<le> sc_empties s + 1" for k
  proof (cases "k = 1")
    case True
    with i assms(4) show ?thesis by (simp add: mod_simps)
  next
    case False
    have "((sc_next s + 1) mod int n - k) mod int n = (sc_next s - (k - 1)) mod int n"
      by (simp add: mod_simps algebra_simps)
    moreover have "1 \<le> k - 1" "k - 1 \<le> sc_empties s" using that False by linarith+
    ultimately show ?thesis using assms(2) unfolding scan_empties_def by metis
  qed
  then show ?thesis by (simp add: scan_empties_def)
qed

lemma scan_inv_empty:
  assumes "scan_inv h t n start m len qs0 (Inr s)" and "sc_empties s < int n"
    and "queue_list (sc_queues s ! nat (sc_next s)) = []"
  shows "scan_inv h t n start m len qs0 (scan_step h t (int n) s)"
proof -
  let ?s = "s\<lparr>sc_empties := sc_empties s + 1, sc_next := (sc_next s + 1) mod int n\<rparr>"
  have r: "scan_ranges n m len s" and e: "scan_empties n s" using assms(1) by (auto simp: scan_inv_def)
  obtain tr r where tr: "scan_taken h t qs0 s tr" "scan_rounds n start s tr r"
    using assms(1) by (auto simp: scan_inv_def)
  have i: "0 \<le> sc_next s" "sc_next s < int n" using r by (auto simp: scan_ranges_def)
  obtain r' where r': "\<forall>j<n. visits n start r' ((sc_next s + 1) mod int n) j
      = visits n start r (sc_next s) j + (if int j = sc_next s then 1 else 0)"
    using visits_next [OF i] by blast
  have "scan_rounds n start ?s tr r'"
    unfolding scan_rounds_def
  proof (intro allI impI)
    fix j assume j: "j < n"
    have "length (taken_from tr j) \<le> visits n start r (sc_next s) j"
      "queue_list (sc_queues s ! j) \<noteq> [] \<Longrightarrow> length (taken_from tr j) = visits n start r (sc_next s) j"
      using tr(2) j by (auto simp: scan_rounds_def)
    moreover have "queue_list (sc_queues s ! j) = []" if "int j = sc_next s"
      using assms(3) that [symmetric] by simp
    ultimately show "length (taken_from tr j) \<le> visits n start r' (sc_next ?s) j
      \<and> (queue_list (sc_queues ?s ! j) \<noteq> [] \<longrightarrow> length (taken_from tr j) = visits n start r' (sc_next ?s) j)"
      using r' j by auto
  qed
  moreover have "scan_ranges n m len ?s"
    using r assms(2) next_index [OF i] by (simp add: scan_ranges_def)
  moreover have "scan_taken h t qs0 ?s tr" using tr(1) by (simp add: scan_taken_def)
  moreover note scan_empties_step [OF r e assms(2,3)]
  ultimately show ?thesis
    unfolding scan_step_empty [OF r assms(2,3)] scan_inv_def sum.case by blast
qed

lemma scan_taken_step:
  assumes "scan_taken h t qs0 s tr" and "scan_ranges n m len s" and "sc_read s < m"
    and "length qs0 = n"
    and "queue_list (sc_queues s ! nat (sc_next s)) = e # es"
    and "d = copy_event_remap_handle h t e (sc_next s)"
  shows "scan_taken h t qs0 (s\<lparr>sc_empties := 0, sc_data := (sc_data s)[nat (sc_read s) := d],
            sc_read := (if ev_sensor d = -1 then sc_read s else sc_read s + 1),
            sc_queues := (sc_queues s)[nat (sc_next s) := dequeue (sc_queues s ! nat (sc_next s))],
            sc_next := i'\<rparr>) (tr @ [(nat (sc_next s), e)])"
proof -
  have i: "0 \<le> sc_next s" "nat (sc_next s) < n" "length (sc_queues s) = n"
    and r: "0 \<le> sc_read s" "nat (sc_read s) < length (sc_data s)"
    and inv: "queue_inv (sc_queues s ! nat (sc_next s))"
    using assms(2,3) by (auto simp: scan_ranges_def queues_ok_def)
  have dq: "queue_list (dequeue (sc_queues s ! nat (sc_next s))) = es"
    using seq.deq_law [OF inv] assms(5) by simp
  have "queue_list (qs0 ! j) = taken_from (tr @ [(nat (sc_next s), e)]) j
      @ queue_list ((sc_queues s)[nat (sc_next s) := dequeue (sc_queues s ! nat (sc_next s))] ! j)"
    if "j < n" for j
    using assms(1,4,5) that i dq by (cases "nat (sc_next s) = j") (auto simp: scan_taken_def taken_from_snoc)
  moreover have "take (nat (if ev_sensor d = -1 then sc_read s else sc_read s + 1))
      ((sc_data s)[nat (sc_read s) := d]) = delivered h t (tr @ [(nat (sc_next s), e)])"
    using assms(1,6) i r take_update_snoc [OF r(2)]
    by (auto simp: scan_taken_def delivered_snoc Let_def nat_add_distrib)
  ultimately show ?thesis using assms(1,4) i by (simp add: scan_taken_def)
qed

lemma scan_inv_event:
  assumes "scan_inv h t n start m len qs0 (Inr s)" and "sc_read s < m" and "length qs0 = n"
    and "queue_list (sc_queues s ! nat (sc_next s)) = e # es"
  shows "scan_inv h t n start m len qs0 (scan_step h t (int n) s)"
proof -
  define d where "d = copy_event_remap_handle h t e (sc_next s)"
  define s' where "s' = s\<lparr>sc_empties := 0, sc_data := (sc_data s)[nat (sc_read s) := d],
            sc_read := (if ev_sensor d = -1 then sc_read s else sc_read s + 1),
            sc_queues := (sc_queues s)[nat (sc_next s) := dequeue (sc_queues s ! nat (sc_next s))],
            sc_next := (sc_next s + 1) mod int n\<rparr>"
  have r: "scan_ranges n m len s" using assms(1) by (simp add: scan_inv_def)
  obtain tr r where tr: "scan_taken h t qs0 s tr" "scan_rounds n start s tr r"
    using assms(1) by (auto simp: scan_inv_def)
  have i: "0 \<le> sc_next s" "sc_next s < int n" "length (sc_queues s) = n" and qok: "queues_ok n (sc_queues s)"
    using r by (auto simp: scan_ranges_def queues_ok_def)
  have inv: "queue_inv (sc_queues s ! nat (sc_next s))" using queues_okD [OF qok] i by simp
  let ?tr = "tr @ [(nat (sc_next s), e)]"
  obtain r' where r': "\<forall>j<n. visits n start r' ((sc_next s + 1) mod int n) j
      = visits n start r (sc_next s) j + (if int j = sc_next s then 1 else 0)"
    using visits_next [OF i(1,2)] by blast
  have "scan_rounds n start s' ?tr r'"
    unfolding scan_rounds_def
  proof (intro allI impI)
    fix j assume j: "j < n"
    have old: "length (taken_from tr j) \<le> visits n start r (sc_next s) j"
      "queue_list (sc_queues s ! j) \<noteq> [] \<longrightarrow> length (taken_from tr j) = visits n start r (sc_next s) j"
      using tr(2) j by (auto simp: scan_rounds_def)
    show "length (taken_from ?tr j) \<le> visits n start r' (sc_next s') j
      \<and> (queue_list (sc_queues s' ! j) \<noteq> [] \<longrightarrow> length (taken_from ?tr j) = visits n start r' (sc_next s') j)"
      using r' j i assms(4) old by (cases "int j = sc_next s") (auto simp: s'_def taken_from_snoc)
  qed
  moreover have "scan_ranges n m len s'"
    using r assms(2) next_index [OF i(1,2)] queues_ok_update [OF qok dequeue_inv [OF inv]]
    by (auto simp: scan_ranges_def s'_def)
  moreover have "scan_empties n s'" by (auto simp: scan_empties_def s'_def)
  moreover have "scan_taken h t qs0 s' ?tr"
    unfolding s'_def using scan_taken_step [OF tr(1) r assms(2,3,4) d_def] .
  moreover have "scan_step h t (int n) s = Inr s'"
    using scan_step_event [OF r assms(2,4)] by (simp add: s'_def d_def Let_def)
  ultimately show ?thesis by (auto simp: scan_inv_def)
qed

lemma sum_list_update_less:
  "i < length xs \<Longrightarrow> f y < f (xs ! i) \<Longrightarrow> sum_list (map f (xs[i := y])) < (sum_list (map f xs) :: nat)"
  by (induction xs arbitrary: i) (auto split: nat.split)

lemma scan_measure_less:
  assumes r: "scan_ranges n m len s" and "sc_empties s < int n" and "sc_read s < m"
  shows "scan_measure n (scan_step h t (int n) s) < scan_measure n (Inr s)"
proof -
  from r have i: "0 \<le> sc_next s" "nat (sc_next s) < n" "length (sc_queues s) = n" "0 \<le> sc_empties s"
    and inv: "queue_inv (sc_queues s ! nat (sc_next s))"
    by (auto simp: scan_ranges_def queues_ok_def)
  show ?thesis
  proof (cases "queue_list (sc_queues s ! nat (sc_next s))")
    case Nil
    with scan_step_empty [OF r assms(2)] i assms(2) show ?thesis by (simp add: scan_measure_def)
  next
    case (Cons e es)
    let ?f = "\<lambda>q. length (queue_list q)"
    let ?qs = "(sc_queues s)[nat (sc_next s) := dequeue (sc_queues s ! nat (sc_next s))]"
    have "sum_list (map ?f ?qs) < sum_list (map ?f (sc_queues s))"
      using i seq.deq_law [OF inv] Cons by (intro sum_list_update_less) (auto simp del: queue_list_length)
    then have "(sum_list (map ?f ?qs) + 1) * (n + 1) \<le> sum_list (map ?f (sc_queues s)) * (n + 1)"
      by (intro mult_le_mono1) linarith
    then have "sum_list (map ?f ?qs) * (n + 1) + n
        < sum_list (map ?f (sc_queues s)) * (n + 1) + (n - nat (sc_empties s))"
      by simp
    then show ?thesis
      using scan_step_event [OF r assms(3) Cons] by (simp add: scan_measure_def Let_def)
  qed
qed

section \<open>The scan returns\<close>

definition scan_done :: "sensors_h \<Rightarrow> handle_tables \<Rightarrow> nat \<Rightarrow> int \<Rightarrow> int \<Rightarrow> nat
    \<Rightarrow> sensors_event sensor_queue list \<Rightarrow> scan_state \<Rightarrow> taken \<Rightarrow> bool" where
  "scan_done h t n start maxReads len qs0 s tr \<longleftrightarrow> scan_ranges n maxReads len s \<and> scan_taken h t qs0 s tr
     \<and> (sc_read s = maxReads \<or> (\<forall>j<n. queue_list (sc_queues s ! j) = []))
     \<and> (\<exists>r. scan_rounds n start s tr r)"

lemma scan_empties_all:
  assumes "scan_ranges n m len s" and "scan_empties n s" and "\<not> sc_empties s < int n" and "j < n"
  shows "queue_list (sc_queues s ! j) = []"
proof -
  let ?k = "(sc_next s - int j - 1) mod int n + 1"
  have n: "0 < int n" using assms(4) by simp
  have "0 \<le> (sc_next s - int j - 1) mod int n" "(sc_next s - int j - 1) mod int n < int n"
    using n by simp_all
  then have k: "1 \<le> ?k" "?k \<le> sc_empties s" using assms(3) by linarith+
  have "(sc_next s - ?k) mod int n = (sc_next s - 1 - (sc_next s - int j - 1) mod int n) mod int n"
    by (simp only: diff_diff_eq add.commute)
  also have "\<dots> = (sc_next s - 1 - (sc_next s - int j - 1)) mod int n"
    by (rule mod_diff_right_eq)
  also have "\<dots> = int j" using assms(4) by simp
  finally have "nat ((sc_next s - ?k) mod int n) = j" by simp
  with assms(2) k show ?thesis unfolding scan_empties_def by metis
qed

lemma scan_inv_start:
  assumes "queues_ok n qs" and "0 \<le> start" "start < int n" and "0 \<le> m" "m \<le> int (length data)"
  shows "scan_inv h t n start m (length data) qs
    (Inr \<lparr>sc_queues = qs, sc_next = start, sc_empties = 0, sc_read = 0, sc_data = data\<rparr>)"
proof -
  have v: "visits n start 0 start j = 0" if "j < n" for j
    using that by (simp add: visits_def ring_offset_def linorder_not_less)
  have "scan_rounds n start \<lparr>sc_queues = qs, sc_next = start, sc_empties = 0, sc_read = 0,
      sc_data = data\<rparr> [] 0"
    by (simp add: scan_rounds_def v taken_from_def)
  moreover have "scan_taken h t qs \<lparr>sc_queues = qs, sc_next = start, sc_empties = 0, sc_read = 0,
      sc_data = data\<rparr> []"
    by (simp add: scan_taken_def taken_from_def delivered_def)
  ultimately show ?thesis
    using assms by (auto simp: scan_inv_def scan_ranges_def scan_empties_def)
qed

lemma poll_scan_done:
  assumes "queues_ok n qs" and "0 \<le> start" "start < int n" and "0 \<le> m" "m \<le> int (length data)"
  shows "\<exists>s tr. poll_scan h t (int n) m
      \<lparr>sc_queues = qs, sc_next = start, sc_empties = 0, sc_read = 0, sc_data = data\<rparr> = Some (Inr s)
    \<and> scan_done h t n start m (length data) qs s tr"
proof -
  let ?P = "scan_inv h t n start m (length data) qs"
  have len: "length qs = n" using assms(1) by (simp add: queues_ok_def)
  have step: "?P (scan_body h t (int n) x) \<and> scan_measure n (scan_body h t (int n) x) < scan_measure n x"
    if "?P x" "scan_guard (int n) m x" for x
  proof (cases x)
    case (Inl f)
    with that show ?thesis by (simp add: scan_inv_def)
  next
    case (Inr s)
    with that have s: "?P (Inr s)" "sc_empties s < int n" "sc_read s < m" by auto
    have "?P (scan_step h t (int n) s)"
    proof (cases "queue_list (sc_queues s ! nat (sc_next s))")
      case Nil
      from scan_inv_empty [OF s(1,2) this] show ?thesis .
    next
      case (Cons e es)
      from scan_inv_event [OF s(1,3) len this] show ?thesis .
    qed
    moreover have "scan_ranges n m (length data) s" using s(1) by (simp add: scan_inv_def)
    ultimately show ?thesis using scan_measure_less [OF _ s(2,3)] Inr by simp
  qed
  obtain x where x: "poll_scan h t (int n) m
      \<lparr>sc_queues = qs, sc_next = start, sc_empties = 0, sc_read = 0, sc_data = data\<rparr> = Some x"
    "?P x" "\<not> scan_guard (int n) m x"
    unfolding poll_scan_def
    using while_option_total [of ?P "scan_guard (int n) m" "scan_body h t (int n)" "scan_measure n",
        OF step scan_inv_start [OF assms]] by blast
  then obtain s where s: "x = Inr s" by (cases x) (auto simp: scan_inv_def)
  with x(2) obtain tr r where inv: "scan_ranges n m (length data) s" "scan_empties n s"
    "scan_taken h t qs s tr" "scan_rounds n start s tr r"
    by (auto simp: scan_inv_def)
  have "sc_read s = m \<or> (\<forall>j<n. queue_list (sc_queues s ! j) = [])"
    using x(3) s inv(1) scan_empties_all [OF inv(1,2)] by (auto simp: scan_ranges_def)
  with x(1) s inv show ?thesis by (auto simp: scan_done_def)
qed

text \<open>A scan reads nothing exactly when no queue holds an event that would be passed on.\<close>

lemma taken_from_mem: "e \<in> set (taken_from tr j) \<longleftrightarrow> (j, e) \<in> set tr"
  by (force simp: taken_from_def)

lemma scan_done_read:
  assumes "scan_done h t n start m len qs s tr" and "length qs = n" and "0 < m"
  shows "sc_read s = 0 \<longleftrightarrow> \<not> has_deliverable h t qs"
    and "sc_read s = int (length (delivered h t tr))"
proof -
  have r: "0 \<le> sc_read s" "sc_read s \<le> m" "m \<le> int len" "length (sc_data s) = len"
    and tk: "take (nat (sc_read s)) (sc_data s) = delivered h t tr"
    and q: "\<And>j. j < n \<Longrightarrow> queue_list (qs ! j) = taken_from tr j @ queue_list (sc_queues s ! j)"
    and sub: "fst ` set tr \<subseteq> {..<n}"
    and ex: "sc_read s = m \<or> (\<forall>j<n. queue_list (sc_queues s ! j) = [])"
    using assms(1,2) by (auto simp: scan_done_def scan_ranges_def scan_taken_def)
  have "length (delivered h t tr) = length (take (nat (sc_read s)) (sc_data s))" using tk by simp
  then show l: "sc_read s = int (length (delivered h t tr))" using r by simp
  show "sc_read s = 0 \<longleftrightarrow> \<not> has_deliverable h t qs"
  proof
    assume "sc_read s = 0"
    then have d: "delivered h t tr = []" and e: "\<forall>j<n. queue_list (sc_queues s ! j) = []"
      using l ex assms(3) by auto
    have "ev_sensor (copy_event_remap_handle h t e (int j)) = -1"
      if "j < n" "e \<in> set (queue_list (qs ! j))" for j e
      using q [OF that(1)] that e d taken_from_mem [of e tr j]
      by (force simp: delivered_def filter_empty_conv)
    then show "\<not> has_deliverable h t qs" using assms(2) by (auto simp: has_deliverable_def)
  next
    assume none: "\<not> has_deliverable h t qs"
    have "ev_sensor (copy_event_remap_handle h t e (int j)) = -1" if "(j, e) \<in> set tr" for j e
    proof -
      have j: "j < n" using sub that by force
      have "e \<in> set (queue_list (qs ! j))" using q [OF j] that by (simp add: taken_from_mem)
      with none j assms(2) show ?thesis by (auto simp: has_deliverable_def)
    qed
    then have "delivered h t tr = []" by (auto simp: delivered_def filter_empty_conv)
    with l show "sc_read s = 0" by simp
  qed
qed

lemma poll_scan_reads:
  assumes "queues_ok n qs" and "0 \<le> start" and "start < int n" and "0 < m" and "m \<le> int (length data)"
  obtains s tr where "poll_scan h t (int n) m
      \<lparr>sc_queues = qs, sc_next = start, sc_empties = 0, sc_read = 0, sc_data = data\<rparr> = Some (Inr s)"
    and "scan_done h t n start m (length data) qs s tr" and "sc_read s = 0 \<longleftrightarrow> \<not> has_deliverable h t qs"
proof -
  obtain s tr where s: "poll_scan h t (int n) m
      \<lparr>sc_queues = qs, sc_next = start, sc_empties = 0, sc_read = 0, sc_data = data\<rparr> = Some (Inr s)"
    "scan_done h t n start m (length data) qs s tr"
    using poll_scan_done [OF assms(1-3) less_imp_le [OF assms(4)] assms(5)] by blast
  have "length qs = n" using assms(1) by (simp add: queues_ok_def)
  from that [OF s scan_done_read(1) [OF s(2) this assms(4)]] show thesis .
qed

lemma poll_loop_result:
  assumes "queues_ok n qs" and "\<forall>w\<in>set wakes. queues_ok n w" and "0 \<le> start" "start < int n"
    and "0 < m" "m \<le> int (length data)"
  shows "(poll_loop h t (int n) m
      \<lparr>sc_queues = qs, sc_next = start, sc_empties = 0, sc_read = 0, sc_data = data\<rparr> wakes = None
      \<and> (\<forall>w\<in>set (qs # wakes). \<not> has_deliverable h t w))
    \<or> (\<exists>skipped w rest s tr start'. poll_loop h t (int n) m
      \<lparr>sc_queues = qs, sc_next = start, sc_empties = 0, sc_read = 0, sc_data = data\<rparr> wakes = Some (Inr s)
      \<and> qs # wakes = skipped @ w # rest \<and> (\<forall>x\<in>set skipped. \<not> has_deliverable h t x)
      \<and> has_deliverable h t w \<and> scan_done h t n start' m (length data) w s tr)"
  using assms
proof (induction wakes arbitrary: qs start data)
  case Nil
  obtain s tr where s: "poll_scan h t (int n) m
      \<lparr>sc_queues = qs, sc_next = start, sc_empties = 0, sc_read = 0, sc_data = data\<rparr> = Some (Inr s)"
    "scan_done h t n start m (length data) qs s tr" and rd: "sc_read s = 0 \<longleftrightarrow> \<not> has_deliverable h t qs"
    by (rule poll_scan_reads [OF Nil(1,3-6)])
  show ?case
  proof (cases "has_deliverable h t qs")
    case True
    with rd s show ?thesis by (intro disjI2 exI [of _ "[]"] exI) (auto simp: poll_loop.simps)
  next
    case False
    with rd s show ?thesis by (intro disjI1) (simp add: poll_loop.simps)
  qed
next
  case (Cons v wakes)
  obtain s tr where s: "poll_scan h t (int n) m
      \<lparr>sc_queues = qs, sc_next = start, sc_empties = 0, sc_read = 0, sc_data = data\<rparr> = Some (Inr s)"
    "scan_done h t n start m (length data) qs s tr" and rd: "sc_read s = 0 \<longleftrightarrow> \<not> has_deliverable h t qs"
    by (rule poll_scan_reads [OF Cons.prems(1,3-6)])
  show ?case
  proof (cases "has_deliverable h t qs")
    case True
    with rd s show ?thesis by (intro disjI2 exI [of _ "[]"] exI) (auto simp: poll_loop.simps)
  next
    case False
    have rng: "0 \<le> sc_next s" "sc_next s < int n" "length (sc_data s) = length data"
      using s(2) by (auto simp: scan_done_def scan_ranges_def)
    have v: "queues_ok n v" "\<forall>w\<in>set wakes. queues_ok n w" using Cons.prems(2) by auto
    let ?s = "\<lparr>sc_queues = v, sc_next = sc_next s, sc_empties = 0, sc_read = 0, sc_data = sc_data s\<rparr>"
    have upd: "s\<lparr>sc_queues := v, sc_empties := 0\<rparr> = ?s" using False rd by (cases s) simp
    have eq: "poll_loop h t (int n) m
        \<lparr>sc_queues = qs, sc_next = start, sc_empties = 0, sc_read = 0, sc_data = data\<rparr> (v # wakes)
      = poll_loop h t (int n) m ?s wakes"
      using False rd s by (simp add: poll_loop.simps [where wakes = "v # wakes"] upd)
    have "m \<le> int (length (sc_data s))" using Cons.prems(6) rng(3) by simp
    from Cons.IH [OF v rng(1,2) Cons.prems(5) this] False rng(3) show ?thesis
      unfolding eq by (elim disjE exE) (simp, metis append_Cons set_ConsD)
  qed
qed

text \<open>What a call of \<open>poll\<close> did, in terms of the context before and after.\<close>

definition poll_did :: "sensors_h \<Rightarrow> handle_tables \<Rightarrow> int \<Rightarrow> sensors_event sensor_queue list
    \<Rightarrow> taken \<Rightarrow> int \<Rightarrow> sensors_event list \<Rightarrow> sensors_event sensor_queue list \<Rightarrow> bool" where
  "poll_did h t maxReads qs tr k buf qs' \<longleftrightarrow>
     1 \<le> k \<and> k \<le> maxReads \<and> take (nat k) buf = delivered h t tr
     \<and> length qs' = length qs
     \<and> (\<forall>j<length qs. queue_list (qs ! j) = taken_from tr j @ queue_list (qs' ! j))
     \<and> (k = maxReads \<or> (\<forall>q\<in>set qs'. queue_list q = []))"

lemma ctx_poll_result:
  assumes "queues_ok n (queues ctx)" and "\<forall>w\<in>set wakes. queues_ok n w"
    and "0 \<le> nextReadIndex ctx" "nextReadIndex ctx < int n"
    and "0 < m" "m \<le> int (length data)"
  shows "(ctx_poll h st ctx data m wakes = None
      \<and> (\<forall>w\<in>set (queues ctx # wakes). \<not> has_deliverable h (tables st) w))
    \<or> (\<exists>skipped w rest s tr start'.
      ctx_poll h st ctx data m wakes = Some (Inr (sc_read s, sc_data s,
         ctx\<lparr>queues := sc_queues s, nextReadIndex := sc_next s\<rparr>))
      \<and> queues ctx # wakes = skipped @ w # rest
      \<and> (\<forall>x\<in>set skipped. \<not> has_deliverable h (tables st) x)
      \<and> has_deliverable h (tables st) w
      \<and> scan_done h (tables st) n start' m (length data) w s tr
      \<and> poll_did h (tables st) m w tr (sc_read s) (sc_data s) (sc_queues s))"
proof -
  have len: "length (queues ctx) = n" using assms(1) by (simp add: queues_ok_def)
  have did: "poll_did h (tables st) m w tr (sc_read s) (sc_data s) (sc_queues s)"
    if "scan_done h (tables st) n start' m (length data) w s tr" "has_deliverable h (tables st) w"
      "queues ctx # wakes = skipped @ w # rest" for skipped w rest s tr start'
  proof -
    have "w \<in> set (queues ctx # wakes)" using that(3) by simp
    then have w: "length w = n" using assms(1,2) by (auto simp: queues_ok_def)
    have s: "length (sc_queues s) = n" "0 \<le> sc_read s" "sc_read s \<le> m"
      using that(1) by (auto simp: scan_done_def scan_ranges_def queues_ok_def)
    have "sc_read s \<noteq> 0" using scan_done_read(1) [OF that(1) w assms(5)] that(2) by simp
    with that(1) w s show ?thesis
      by (auto simp: poll_did_def scan_done_def scan_taken_def in_set_conv_nth)
  qed
  show ?thesis
    using poll_loop_result [OF assms, of h "tables st"] did unfolding ctx_poll_def len
    by (elim disjE exE conjE) (simp, fastforce)
qed

text \<open>
  The contexts in which \<open>poll\<close> is called: well-formed queues, the read index inside the
  vector, a request of at least one event that fits the buffer, and well-formed queues at
  every return from the wait.
\<close>

definition poll_ready :: "sensors_poll_context \<Rightarrow> sensors_event list \<Rightarrow> int
    \<Rightarrow> sensors_event sensor_queue list list \<Rightarrow> bool" where
  "poll_ready ctx data maxReads wakes \<longleftrightarrow>
     (\<forall>w\<in>set (queues ctx # wakes). queues_ok (length (queues ctx)) w)
     \<and> 0 \<le> nextReadIndex ctx \<and> nextReadIndex ctx < int (length (queues ctx))
     \<and> 0 < maxReads \<and> maxReads \<le> int (length data)"

lemma ctx_poll_cases:
  assumes "poll_ready ctx data m wakes"
  obtains (blocked) "ctx_poll h st ctx data m wakes = None"
      "\<forall>w\<in>set (queues ctx # wakes). \<not> has_deliverable h (tables st) w"
    | (returns) skipped w rest s tr start' where
      "ctx_poll h st ctx data m wakes = Some (Inr (sc_read s, sc_data s,
         ctx\<lparr>queues := sc_queues s, nextReadIndex := sc_next s\<rparr>))"
      "queues ctx # wakes = skipped @ w # rest"
      "\<forall>x\<in>set skipped. \<not> has_deliverable h (tables st) x"
      "has_deliverable h (tables st) w"
      "scan_done h (tables st) (length (queues ctx)) start' m (length data) w s tr"
      "poll_did h (tables st) m w tr (sc_read s) (sc_data s) (sc_queues s)"
proof -
  have h: "queues_ok (length (queues ctx)) (queues ctx)"
    "\<forall>w\<in>set wakes. queues_ok (length (queues ctx)) w"
    "0 \<le> nextReadIndex ctx" "nextReadIndex ctx < int (length (queues ctx))"
    "0 < m" "m \<le> int (length data)"
    using assms by (auto simp: poll_ready_def)
  show thesis using ctx_poll_result [OF h, of h st] blocked returns by blast
qed

lemma poll_returns_deliverable:
  assumes "poll_ready ctx data m wakes" and "has_deliverable h (tables st) (queues ctx)"
  shows "\<exists>res. ctx_poll h st ctx data m wakes = Some res"
  by (rule ctx_poll_cases [OF assms(1), of h st]) (use assms(2) in auto)

text \<open>An event comes out of the global handles as the pair it went in with.\<close>

lemma copied_handle_back:
  assumes "tables_inv t" and "ev_type e \<noteq> SENSOR_TYPE_META_DATA h"
    and "ev_sensor (copy_event_remap_handle h t e j) \<noteq> -1"
  shows "get_module_index t (ev_sensor (copy_event_remap_handle h t e j)) = j
    \<and> get_local_handle t (ev_sensor (copy_event_remap_handle h t e j)) = ev_sensor e"
proof -
  have g: "ev_sensor (copy_event_remap_handle h t e j) = get_global_handle t (FullHandle j (ev_sensor e))"
    using assms(2) by (simp add: copy_event_remap_handle_def Let_def)
  with assms(3) obtain x where "full_to_global t (FullHandle j (ev_sensor e)) = Some x"
    by (auto simp: get_global_handle_def split: option.splits)
  with tables_inv_pos [OF assms(1) this] have "0 < get_global_handle t (FullHandle j (ev_sensor e))"
    by (simp add: get_global_handle_def)
  from handles.back_law [OF assms(1) this] g show ?thesis by simp
qed

definition demo_reading :: "int \<Rightarrow> int \<Rightarrow> sensors_event" where
  "demo_reading hdl ty = \<lparr>ev_sensor = hdl, ev_type = ty, ev_meta_sensor = 0, ev_data = []\<rparr>"

definition demo_queue :: "sensors_event \<Rightarrow> sensors_event sensor_queue" where
  "demo_queue e = \<lparr>mCapacity = 3, mStart = 1, mSize = 2, mData = [e, e, e]\<rparr>"

definition demo_poll_ctx :: sensors_poll_context where
  "demo_poll_ctx = demo_ctx\<lparr>queues := [demo_queue (demo_reading 7 1), demo_queue (demo_reading 0 5)],
     nextReadIndex := 1\<rparr>"

lemma demo_queue_list: "queue_list (demo_queue e) = [e, e]"
  by (simp add: demo_queue_def queue_list_def slot_def upt_rec)

lemma demo_poll_ready: "poll_ready demo_poll_ctx (replicate 4 demo_event) 4 []"
  by (simp add: poll_ready_def demo_poll_ctx_def demo_ctx_def queues_ok_def demo_queue_def queue_inv_def)

lemma demo_poll_deliverable: "has_deliverable demo_h (tables demo_started) (queues demo_poll_ctx)"
proof -
  have "get_global_handle (tables demo_started) (FullHandle 0 7) = 2"
    by (simp add: demo_started_def initial_tables_def get_global_handle_def assign_global_handle_def Let_def)
  then show ?thesis
    by (auto simp: has_deliverable_def demo_poll_ctx_def demo_queue_list copy_event_remap_handle_def
      demo_reading_def demo_h_def intro!: exI [of _ 0])
qed

section \<open>Properties\<close>

text \<open>
  \<open>poll\<close> returns to its caller exactly if the queues, at the call or at some return from its
  wait, hold an event with a known handle (or a metadata event); otherwise it keeps waiting.
  In particular the scan between two waits always ends.
\<close>

theorem poll_returns_iff:
  assumes "poll_ready ctx data m wakes"
  shows "(\<exists>res. ctx_poll h st ctx data m wakes = Some res)
    \<longleftrightarrow> (\<exists>w\<in>set (queues ctx # wakes). has_deliverable h (tables st) w)"
proof (rule ctx_poll_cases [OF assms, of h st])
  fix skipped w rest s
  assume r: "ctx_poll h st ctx data m wakes = Some (Inr (sc_read s, sc_data s,
         ctx\<lparr>queues := sc_queues s, nextReadIndex := sc_next s\<rparr>))"
    and w: "queues ctx # wakes = skipped @ w # rest" "has_deliverable h (tables st) w"
  have "w \<in> set (queues ctx # wakes)" unfolding w(1) by simp
  with r w(2) show ?thesis by blast
qed auto

theorem poll_returns_iff_witness:
  "\<exists>res. ctx_poll demo_h demo_started demo_poll_ctx (replicate 4 demo_event) 4 [] = Some res"
  using poll_returns_iff [OF demo_poll_ready, of demo_h demo_started] demo_poll_deliverable by simp

text \<open>
  C19. When \<open>poll\<close> returns, no array bound and no vector bound was violated, and its result is
  the number \<open>k\<close> of events stored, between 1 and the number asked for: the first \<open>k\<close> entries of
  the buffer are the events it took, in order, with their handles made global and those with
  an unknown handle left out; what it took from a queue is a prefix of that queue, the rest is
  still queued; and if it returns fewer events than asked for it leaves every queue empty. The
  queues it read are those of the first wake-up that had anything to deliver.
\<close>

theorem poll_delivers_in_order:
  assumes "poll_ready ctx data m wakes" and "ctx_poll h st ctx data m wakes = Some res"
  shows "\<exists>skipped w rest tr k buf ctx'. res = Inr (k, buf, ctx')
    \<and> queues ctx # wakes = skipped @ w # rest
    \<and> (\<forall>x\<in>set skipped. \<not> has_deliverable h (tables st) x)
    \<and> poll_did h (tables st) m w tr k buf (queues ctx')
    \<and> poll_ready ctx' buf m []
    \<and> ctx' = ctx\<lparr>queues := queues ctx', nextReadIndex := nextReadIndex ctx'\<rparr>"
proof (rule ctx_poll_cases [OF assms(1), of h st])
  fix skipped w rest s tr start'
  assume r: "ctx_poll h st ctx data m wakes = Some (Inr (sc_read s, sc_data s,
         ctx\<lparr>queues := sc_queues s, nextReadIndex := sc_next s\<rparr>))"
    and w: "queues ctx # wakes = skipped @ w # rest" "\<forall>x\<in>set skipped. \<not> has_deliverable h (tables st) x"
    and d: "scan_done h (tables st) (length (queues ctx)) start' m (length data) w s tr"
    and p: "poll_did h (tables st) m w tr (sc_read s) (sc_data s) (sc_queues s)"
  let ?ctx = "ctx\<lparr>queues := sc_queues s, nextReadIndex := sc_next s\<rparr>"
  have "poll_ready ?ctx (sc_data s) m []"
    using d assms(1) by (auto simp: poll_ready_def scan_done_def scan_ranges_def queues_ok_def)
  with r assms(2) w p show ?thesis
    by (intro exI [of _ skipped] exI [of _ w] exI [of _ rest] exI [of _ tr] exI [of _ "sc_read s"]
        exI [of _ "sc_data s"] exI [of _ ?ctx]) simp
qed (use assms(2) in simp)

theorem poll_delivers_in_order_witness:
  "\<exists>tr k buf ctx'. ctx_poll demo_h demo_started demo_poll_ctx (replicate 4 demo_event) 4 []
      = Some (Inr (k, buf, ctx'))
    \<and> poll_did demo_h (tables demo_started) 4 (queues demo_poll_ctx) tr k buf (queues ctx')"
proof -
  obtain res where r: "ctx_poll demo_h demo_started demo_poll_ctx (replicate 4 demo_event) 4 [] = Some res"
    using poll_returns_deliverable [OF demo_poll_ready demo_poll_deliverable] by blast
  from poll_delivers_in_order [OF demo_poll_ready r] r show ?thesis
    by (auto simp: Cons_eq_append_conv)
qed

text \<open>
  C20. The merge is fair: if a queue still holds events when \<open>poll\<close> returns, no other queue gave
  more than one event more than it did.
\<close>

theorem poll_fair:
  assumes "poll_ready ctx data m wakes" and "ctx_poll h st ctx data m wakes = Some (Inr (k, buf, ctx'))"
  shows "\<exists>w\<in>set (queues ctx # wakes). \<exists>tr. poll_did h (tables st) m w tr k buf (queues ctx')
    \<and> (\<forall>i<length w. \<forall>j<length w. queue_list (queues ctx' ! i) \<noteq> []
        \<longrightarrow> length (taken_from tr j) \<le> length (taken_from tr i) + 1)"
proof (rule ctx_poll_cases [OF assms(1), of h st])
  fix skipped w rest s tr start'
  assume r: "ctx_poll h st ctx data m wakes = Some (Inr (sc_read s, sc_data s,
         ctx\<lparr>queues := sc_queues s, nextReadIndex := sc_next s\<rparr>))"
    and w: "queues ctx # wakes = skipped @ w # rest"
    and d: "scan_done h (tables st) (length (queues ctx)) start' m (length data) w s tr"
    and p: "poll_did h (tables st) m w tr (sc_read s) (sc_data s) (sc_queues s)"
  have mem: "w \<in> set (queues ctx # wakes)" unfolding w by simp
  then have len: "length w = length (queues ctx)"
    using assms(1) by (auto simp: poll_ready_def queues_ok_def)
  obtain r where r': "scan_rounds (length w) start' s tr r" using d len by (auto simp: scan_done_def)
  have "length (taken_from tr j) \<le> length (taken_from tr i) + 1"
    if "i < length w" "j < length w" "queue_list (sc_queues s ! i) \<noteq> []" for i j
  proof -
    have "length (taken_from tr j) \<le> visits (length w) start' r (sc_next s) j"
      "length (taken_from tr i) = visits (length w) start' r (sc_next s) i"
      using r' that by (auto simp: scan_rounds_def)
    then show ?thesis unfolding visits_def by (simp split: if_splits)
  qed
  with r assms(2) p mem show ?thesis by (intro bexI [of _ w] exI [of _ tr]) auto
qed (use assms(2) in simp)

theorem poll_fair_witness:
  "\<exists>k buf ctx' tr. ctx_poll demo_h demo_started demo_poll_ctx (replicate 4 demo_event) 1 []
      = Some (Inr (k, buf, ctx'))
    \<and> (queue_list (queues ctx' ! 0) \<noteq> [] \<longrightarrow> length (taken_from tr 1) \<le> length (taken_from tr 0) + 1)"
proof -
  have ready: "poll_ready demo_poll_ctx (replicate 4 demo_event) 1 []"
    using demo_poll_ready by (simp add: poll_ready_def)
  from ctx_poll_cases [OF ready, of demo_h demo_started] demo_poll_deliverable
  obtain k buf ctx' where r: "ctx_poll demo_h demo_started demo_poll_ctx (replicate 4 demo_event) 1 []
      = Some (Inr (k, buf, ctx'))" by (metis list.set_intros(1))
  have len: "length (queues demo_poll_ctx) = 2" by (simp add: demo_poll_ctx_def)
  from poll_fair [OF ready r] r len show ?thesis by (fastforce simp: numeral_2_eq_2)
qed

text \<open>
  Events are attributed to the right sensor: every event that \<open>poll\<close> stores comes from some
  queue \<open>j\<close>, and unless it is a metadata event, the global handle it carries is mapped by
  \<open>get_module_index\<close> and \<open>get_local_handle\<close> back to \<open>j\<close> and to the handle the sub-HAL put into it.
\<close>

theorem poll_handles_route_back:
  assumes "poll_ready ctx data m wakes" and "tables_inv (tables st)"
    and "ctx_poll h st ctx data m wakes = Some (Inr (k, buf, ctx'))" and "i < nat k"
  shows "\<exists>w\<in>set (queues ctx # wakes). \<exists>j<length w. \<exists>e\<in>set (queue_list (w ! j)).
    buf ! i = copy_event_remap_handle h (tables st) e (int j)
    \<and> (ev_type e \<noteq> SENSOR_TYPE_META_DATA h \<longrightarrow>
        get_module_index (tables st) (ev_sensor (buf ! i)) = int j
        \<and> get_local_handle (tables st) (ev_sensor (buf ! i)) = ev_sensor e)"
proof (rule ctx_poll_cases [OF assms(1), of h st])
  fix skipped w rest s tr start'
  assume r: "ctx_poll h st ctx data m wakes = Some (Inr (sc_read s, sc_data s,
         ctx\<lparr>queues := sc_queues s, nextReadIndex := sc_next s\<rparr>))"
    and w: "queues ctx # wakes = skipped @ w # rest"
    and d: "scan_done h (tables st) (length (queues ctx)) start' m (length data) w s tr"
    and p: "poll_did h (tables st) m w tr (sc_read s) (sc_data s) (sc_queues s)"
  have mem: "w \<in> set (queues ctx # wakes)" unfolding w by simp
  then have len: "length w = length (queues ctx)"
    using assms(1) by (auto simp: poll_ready_def queues_ok_def)
  have kb: "k = sc_read s" "buf = sc_data s" using r assms(3) by auto
  have tk: "take (nat k) buf = delivered h (tables st) tr"
    and sub: "fst ` set tr \<subseteq> {..<length w}"
    and q: "\<And>j. j < length w \<Longrightarrow> queue_list (w ! j) = taken_from tr j @ queue_list (sc_queues s ! j)"
    and k: "nat k \<le> length buf"
    using p d len kb by (auto simp: poll_did_def scan_done_def scan_taken_def scan_ranges_def)
  have "buf ! i \<in> set (take (nat k) buf)" using assms(4) k by (auto simp: in_set_conv_nth intro!: exI [of _ i])
  then obtain j e where je: "(j, e) \<in> set tr" "buf ! i = copy_event_remap_handle h (tables st) e (int j)"
    "ev_sensor (buf ! i) \<noteq> -1"
    unfolding tk delivered_def by auto
  have j: "j < length w" using sub je(1) by force
  have "e \<in> set (queue_list (w ! j))" using q [OF j] je(1) by (simp add: taken_from_mem)
  with mem j je copied_handle_back [OF assms(2)] show ?thesis by metis
qed (use assms(3) in simp)

theorem poll_handles_route_back_witness:
  "\<exists>k buf ctx'. ctx_poll demo_h demo_started demo_poll_ctx (replicate 4 demo_event) 4 []
      = Some (Inr (k, buf, ctx')) \<and> ev_type (buf ! 0) \<in> {1, 5}
      \<and> get_module_index (tables demo_started) (ev_sensor (buf ! 0)) \<in> {0, 1}"
proof -
  have inv: "tables_inv (tables demo_started)"
    by (simp add: demo_started_def assign_snd_inv tables_inv_initial Let_def)
  from ctx_poll_cases [OF demo_poll_ready, of demo_h demo_started] demo_poll_deliverable
  obtain k buf ctx' w tr qs where r: "ctx_poll demo_h demo_started demo_poll_ctx (replicate 4 demo_event) 4 []
      = Some (Inr (k, buf, ctx'))" and d: "poll_did demo_h (tables demo_started) 4 w tr k buf qs"
    by (metis list.set_intros(1))
  have k: "0 < nat k" using d by (simp add: poll_did_def)
  from poll_handles_route_back [OF demo_poll_ready inv r k] r show ?thesis
    by (fastforce simp: demo_poll_ctx_def demo_queue_list less_Suc_eq numeral_2_eq_2
        copy_event_remap_handle_def demo_reading_def demo_h_def)
qed

text \<open>
  The check for a bad handle looks only at the event's own sensor field, so a metadata event
  about an unknown sensor is not dropped: it is passed on with the handle \<open>-1\<close> inside.
\<close>

theorem bad_metadata_is_passed_on:
  assumes "poll_ready ctx data m wakes"
    and "queues ctx = [q]" and "queue_list q = [e]"
    and "ev_type e = SENSOR_TYPE_META_DATA h" and "ev_sensor e \<noteq> -1"
    and "full_to_global (tables st) (FullHandle 0 (ev_meta_sensor e)) = None"
  shows "\<exists>buf ctx'. ctx_poll h st ctx data m wakes = Some (Inr (1, buf, ctx'))
    \<and> buf ! 0 = e\<lparr>ev_meta_sensor := -1\<rparr>"
proof (rule ctx_poll_cases [OF assms(1), of h st])
  have c: "copy_event_remap_handle h (tables st) e 0 = e\<lparr>ev_meta_sensor := -1\<rparr>"
    using assms(4,6) by (simp add: copy_event_remap_handle_def get_global_handle_def)
  with assms(2,3,5) have hd: "has_deliverable h (tables st) (queues ctx)"
    by (simp add: has_deliverable_def)
  show ?thesis if "\<forall>w\<in>set (queues ctx # wakes). \<not> has_deliverable h (tables st) w"
    using that hd by simp
  fix skipped w rest s tr start'
  assume r: "ctx_poll h st ctx data m wakes = Some (Inr (sc_read s, sc_data s,
         ctx\<lparr>queues := sc_queues s, nextReadIndex := sc_next s\<rparr>))"
    and w: "queues ctx # wakes = skipped @ w # rest" "\<forall>x\<in>set skipped. \<not> has_deliverable h (tables st) x"
    and d: "scan_done h (tables st) (length (queues ctx)) start' m (length data) w s tr"
    and p: "poll_did h (tables st) m w tr (sc_read s) (sc_data s) (sc_queues s)"
  have w': "w = [q]" using w hd assms(2) by (auto simp: Cons_eq_append_conv)
  have all0: "fst ` set tr \<subseteq> {..<1}" using d w' by (auto simp: scan_done_def scan_taken_def)
  have "filter (\<lambda>p. fst p = 0) tr = tr" using all0 by (force intro!: filter_True)
  then have "[e] = map snd tr @ queue_list (sc_queues s ! 0)"
    using p w' assms(3) by (simp add: poll_did_def taken_from_def)
  moreover have "length w = length (queues ctx)" "0 < m"
    using w' assms(1,2) by (auto simp: poll_ready_def)
  note rd = scan_done_read(2) [OF d this]
  have "tr \<noteq> []" using p rd by (auto simp: poll_did_def delivered_def)
  ultimately have "map snd tr = [e]" by (auto simp: Cons_eq_append_conv)
  with all0 have tr: "tr = [(0, e)]" by force
  then have del: "delivered h (tables st) tr = [e\<lparr>ev_meta_sensor := -1\<rparr>]"
    using c assms(5) by (simp add: delivered_def)
  with rd have one: "sc_read s = 1" by simp
  with p del have "take 1 (sc_data s) = [e\<lparr>ev_meta_sensor := -1\<rparr>]" by (simp add: poll_did_def)
  then have "sc_data s ! 0 = e\<lparr>ev_meta_sensor := -1\<rparr>" by (cases "sc_data s") auto
  with r one show ?thesis by auto
qed

theorem bad_metadata_is_passed_on_witness:
  "\<exists>buf ctx'. ctx_poll demo_h demo_started
      (demo_ctx\<lparr>queues := [\<lparr>mCapacity = 1, mStart = 0, mSize = 1, mData = [demo_event\<lparr>ev_meta_sensor := 99\<rparr>]\<rparr>]\<rparr>)
      [demo_event] 1 [] = Some (Inr (1, buf, ctx')) \<and> ev_meta_sensor (buf ! 0) = -1"
proof -
  let ?q = "\<lparr>mCapacity = 1, mStart = 0, mSize = 1, mData = [demo_event\<lparr>ev_meta_sensor := 99\<rparr>]\<rparr>"
  have "\<exists>buf ctx'. ctx_poll demo_h demo_started (demo_ctx\<lparr>queues := [?q]\<rparr>) [demo_event] 1 []
      = Some (Inr (1, buf, ctx')) \<and> buf ! 0 = demo_event\<lparr>ev_meta_sensor := 99\<rparr>\<lparr>ev_meta_sensor := -1\<rparr>"
    by (rule bad_metadata_is_passed_on [of _ _ _ _ ?q])
      (simp_all add: poll_ready_def queues_ok_def queue_inv_def demo_ctx_def queue_list_def slot_def
        demo_event_def demo_h_def demo_started_def initial_tables_def assign_global_handle_def Let_def)
  then show ?thesis by force
qed
end
