(* ===== verification/SensorThreads.thy ===== *)
theory SensorThreads
  imports MultiHalPoll
begin

text \<open>
  \<^verbatim>\<open>sensors/multihal.cpp\<close>, \<open>writerTask\<close> and the locking around \<open>poll\<close>: one writer thread per
  sub-HAL, the framework's thread in \<open>poll\<close>, one mutex (\<open>queue_mutex\<close>), one condition variable
  per queue and one for the reader. A step of the relation is a section of a thread between two
  points where another thread can come in: a section run with the mutex held is one step, which
  the mutex makes atomic; the sub-HAL's store runs without the mutex, so it is enabled while the
  reader holds it. The framework calls \<open>poll\<close> from one thread. A sub-HAL's \<open>poll\<close> is what its
  interface documents: it stores at most \<open>bufferSize\<close> events and returns their number, or
  stores none and returns a value that is not positive.
\<close>

section \<open>The threads\<close>

datatype writer_pc =
    WStart                              \<comment> \<open>before \<open>pthread_mutex_lock\<close> at the head of the loop\<close>
  | WSleep                              \<comment> \<open>in \<open>waitForSpace\<close>'s \<open>pthread_cond_wait\<close>\<close>
  | WWoken                              \<comment> \<open>woken there, about to reacquire the mutex\<close>
  | WPoll "int option" int              \<comment> \<open>in \<open>device->poll(device, buffer, bufferSize)\<close>\<close>
  | WMark int "sensors_event list"      \<comment> \<open>it stored these events, about to lock and mark them\<close>

datatype reader_pc =
    RIdle                               \<comment> \<open>not in \<open>poll\<close>\<close>
  | RScan                               \<comment> \<open>in the inner loop, holding the mutex\<close>
  | RSleep                              \<comment> \<open>in \<open>pthread_cond_wait(&data_available_cond, ..)\<close>\<close>
  | RWoken                              \<comment> \<open>woken there, about to reacquire the mutex\<close>

text \<open>
  \<open>sy_scan\<close> holds the live queues and \<open>poll\<close>'s variables. \<open>produced\<close> and \<open>consumed\<close> record, for
  each queue, the events its writer has marked and those the reader has dequeued.
\<close>

record hal_system =
  sy_scan :: scan_state
  sy_max :: int
  sy_writers :: "writer_pc list"
  sy_reader :: reader_pc
  waiting_for_data :: bool
  produced :: "nat \<Rightarrow> sensors_event list"
  consumed :: "nat \<Rightarrow> sensors_event list"

abbreviation sy_queues :: "hal_system \<Rightarrow> sensors_event sensor_queue list" where
  "sy_queues y \<equiv> sc_queues (sy_scan y)"

definition set_queue :: "nat \<Rightarrow> sensors_event sensor_queue \<Rightarrow> hal_system \<Rightarrow> hal_system" where
  "set_queue j q y = y\<lparr>sy_scan := (sy_scan y)\<lparr>sc_queues := (sy_queues y)[j := q]\<rparr>\<rparr>"

definition set_writer :: "nat \<Rightarrow> writer_pc \<Rightarrow> hal_system \<Rightarrow> hal_system" where
  "set_writer j w y = y\<lparr>sy_writers := (sy_writers y)[j := w]\<rparr>"

text \<open>The writer's section from the lock to the unlock before \<open>device->poll\<close>, or to its wait.\<close>

definition writer_section :: "nat \<Rightarrow> hal_system \<Rightarrow> hal_system" where
  "writer_section j y =
     (let queue = sy_queues y ! j in
      if mSize queue = mCapacity queue then set_writer j WSleep y
      else
        let (bufferSize, buffer) = getWritableRegion queue SENSOR_EVENT_QUEUE_CAPACITY
        in set_writer j (WPoll buffer bufferSize) y)"

text \<open>The section that marks the events and wakes a waiting reader.\<close>

definition mark_section :: "nat \<Rightarrow> sensors_event list \<Rightarrow> hal_system \<Rightarrow> hal_system" where
  "mark_section j events y =
     (let y = set_queue j (markAsWritten (sy_queues y ! j) (int (length events))) y;
          y = y\<lparr>produced := (produced y)(j := produced y j @ events)\<rparr>;
          y = (if waiting_for_data y \<and> sy_reader y = RSleep then y\<lparr>sy_reader := RWoken\<rparr> else y)
      in set_writer j WStart y)"

text \<open>One turn of \<open>poll\<close>'s inner loop; a dequeue from a full queue wakes that queue's writer.\<close>

definition reader_turn :: "sensors_h \<Rightarrow> handle_tables \<Rightarrow> hal_system \<Rightarrow> fault + hal_system" where
  "reader_turn h t y =
     (let s = sy_scan y; i = nat (sc_next s); queue = sc_queues s ! i in
      (case scan_step h t (int (length (sc_queues s))) s of
         Inl f \<Rightarrow> Inl f
       | Inr s' \<Rightarrow>
           (case peek queue of
              None \<Rightarrow> Inr (y\<lparr>sy_scan := s'\<rparr>)
            | Some event \<Rightarrow>
                let y' = y\<lparr>sy_scan := s', consumed := (consumed y)(i := consumed y i @ [event])\<rparr>
                in Inr (if snd (dequeue_signal queue) \<and> sy_writers y ! i = WSleep
                        then set_writer i WWoken y' else y'))))"

definition in_scan :: "hal_system \<Rightarrow> bool" where
  "in_scan y \<longleftrightarrow> scan_guard (int (length (sy_queues y))) (sy_max y) (Inr (sy_scan y))"

text \<open>
  What is seen of the multi-HAL from outside: a sub-HAL's events becoming readable, the
  framework calling \<open>poll\<close> with the number of events it asks for, and \<open>poll\<close> returning the first
  \<open>eventsRead\<close> entries of the buffer.
\<close>

datatype sensor_obs = Posted nat "sensors_event list" | Called int | Returned "sensors_event list"

inductive step :: "sensors_h \<Rightarrow> handle_tables \<Rightarrow> hal_system \<Rightarrow> sensor_obs list \<Rightarrow> hal_system \<Rightarrow> bool"
  for h :: sensors_h and t :: handle_tables where
  writer_lock: "j < length (sy_writers y) \<Longrightarrow> sy_writers y ! j \<in> {WStart, WWoken} \<Longrightarrow>
    sy_reader y \<noteq> RScan \<Longrightarrow> step h t y [] (writer_section j y)"
| writer_spurious: "j < length (sy_writers y) \<Longrightarrow> sy_writers y ! j = WSleep \<Longrightarrow>
    step h t y [] (set_writer j WWoken y)"
| writer_nothing: "j < length (sy_writers y) \<Longrightarrow> sy_writers y ! j = WPoll out len \<Longrightarrow>
    step h t y [] (set_writer j WStart y)"
| writer_store: "j < length (sy_writers y) \<Longrightarrow> sy_writers y ! j = WPoll (Some off) len \<Longrightarrow>
    events \<noteq> [] \<Longrightarrow> int (length events) \<le> len \<Longrightarrow>
    fillRegion (sy_queues y ! j) off events = Some q \<Longrightarrow>
    step h t y [] (set_writer j (WMark off events) (set_queue j q y))"
| writer_mark: "j < length (sy_writers y) \<Longrightarrow> sy_writers y ! j = WMark off events \<Longrightarrow>
    sy_reader y \<noteq> RScan \<Longrightarrow> step h t y [Posted j events] (mark_section j events y)"
| reader_call: "sy_reader y = RIdle \<Longrightarrow> 0 < m \<Longrightarrow> m \<le> int (length data) \<Longrightarrow> m \<le> INT_MAX \<Longrightarrow>
    step h t y [Called m] (y\<lparr>sy_reader := RScan, sy_max := m,
      sy_scan := (sy_scan y)\<lparr>sc_empties := 0, sc_read := 0, sc_data := data\<rparr>\<rparr>)"
| reader_step: "sy_reader y = RScan \<Longrightarrow> in_scan y \<Longrightarrow> reader_turn h t y = Inr y' \<Longrightarrow> step h t y [] y'"
| reader_wait: "sy_reader y = RScan \<Longrightarrow> \<not> in_scan y \<Longrightarrow> sc_read (sy_scan y) = 0 \<Longrightarrow>
    step h t y [] (y\<lparr>sy_reader := RSleep, waiting_for_data := True\<rparr>)"
| reader_return: "sy_reader y = RScan \<Longrightarrow> \<not> in_scan y \<Longrightarrow> sc_read (sy_scan y) \<noteq> 0 \<Longrightarrow>
    step h t y [Returned (take (nat (sc_read (sy_scan y))) (sc_data (sy_scan y)))] (y\<lparr>sy_reader := RIdle\<rparr>)"
| reader_spurious: "sy_reader y = RSleep \<Longrightarrow> step h t y [] (y\<lparr>sy_reader := RWoken\<rparr>)"
| reader_relock: "sy_reader y = RWoken \<Longrightarrow>
    step h t y [] (y\<lparr>sy_reader := RScan, waiting_for_data := False,
      sy_scan := (sy_scan y)\<lparr>sc_empties := 0\<rparr>\<rparr>)"

inductive_cases stepE: "step h t y obs y'"

text \<open>After \<open>open_sensors\<close>: every writer at the head of its loop, nobody in \<open>poll\<close>.\<close>

definition system_start :: "sensors_poll_context \<Rightarrow> hal_system" where
  "system_start ctx = \<lparr>sy_scan = \<lparr>sc_queues = queues ctx, sc_next = nextReadIndex ctx, sc_empties = 0,
       sc_read = 0, sc_data = []\<rparr>, sy_max = 0, sy_writers = map (\<lambda>q. WStart) (queues ctx),
     sy_reader = RIdle, waiting_for_data = False, produced = (\<lambda>j. []), consumed = (\<lambda>j. [])\<rparr>"

inductive reachable :: "sensors_h \<Rightarrow> handle_tables \<Rightarrow> sensors_poll_context \<Rightarrow> hal_system \<Rightarrow> bool"
  for h :: sensors_h and t :: handle_tables and ctx :: sensors_poll_context where
  init: "reachable h t ctx (system_start ctx)"
| again: "reachable h t ctx y \<Longrightarrow> step h t y obs y' \<Longrightarrow> reachable h t ctx y'"

section \<open>The invariant\<close>

fun writer_ok :: "sensors_event sensor_queue \<Rightarrow> writer_pc \<Rightarrow> bool" where
  "writer_ok q WSleep \<longleftrightarrow> mSize q = mCapacity q"
| "writer_ok q (WPoll out len) \<longleftrightarrow> (case out of None \<Rightarrow> False | Some off \<Rightarrow> 1 \<le> len \<and> region_ok q off len)"
| "writer_ok q (WMark off events) \<longleftrightarrow> region_ok q off (int (length events))
     \<and> pending q off (int (length events)) = events"
| "writer_ok q w \<longleftrightarrow> True"

fun reader_ok :: "hal_system \<Rightarrow> reader_pc \<Rightarrow> bool" where
  "reader_ok y RIdle \<longleftrightarrow> \<not> waiting_for_data y"
| "reader_ok y RScan \<longleftrightarrow> \<not> waiting_for_data y
     \<and> scan_ranges (length (sy_queues y)) (sy_max y) (length (sc_data (sy_scan y))) (sy_scan y)
     \<and> scan_empties (length (sy_queues y)) (sy_scan y) \<and> 0 < sy_max y"
| "reader_ok y RSleep \<longleftrightarrow> waiting_for_data y \<and> (\<forall>q\<in>set (sy_queues y). queue_list q = [])
     \<and> sc_read (sy_scan y) = 0 \<and> 0 < sy_max y \<and> sy_max y \<le> int (length (sc_data (sy_scan y)))"
| "reader_ok y RWoken \<longleftrightarrow> waiting_for_data y
     \<and> sc_read (sy_scan y) = 0 \<and> 0 < sy_max y \<and> sy_max y \<le> int (length (sc_data (sy_scan y)))"

definition queue_ok :: "hal_system \<Rightarrow> nat \<Rightarrow> bool" where
  "queue_ok y j \<longleftrightarrow> queue_inv (sy_queues y ! j) \<and> writer_ok (sy_queues y ! j) (sy_writers y ! j)
     \<and> produced y j = consumed y j @ queue_list (sy_queues y ! j)"

definition sys_inv :: "hal_system \<Rightarrow> bool" where
  "sys_inv y \<longleftrightarrow> length (sy_writers y) = length (sy_queues y)
     \<and> 0 \<le> sc_next (sy_scan y) \<and> sc_next (sy_scan y) < int (length (sy_queues y))
     \<and> (\<forall>j<length (sy_queues y). queue_ok y j)
     \<and> reader_ok y (sy_reader y)"

section \<open>Every step keeps it\<close>

lemmas set_simps = set_queue_def set_writer_def

lemma queue_ok_frame:
  assumes "queue_ok y i" and "sy_queues y' ! i = sy_queues y ! i"
    and "sy_writers y' ! i = sy_writers y ! i"
    and "produced y' i = produced y i" and "consumed y' i = consumed y i"
  shows "queue_ok y' i"
  using assms by (simp add: queue_ok_def)

lemma sys_inv_D:
  assumes "sys_inv y" and "j < length (sy_writers y)"
  shows "j < length (sy_queues y)" and "queue_inv (sy_queues y ! j)"
    and "writer_ok (sy_queues y ! j) (sy_writers y ! j)"
    and "produced y j = consumed y j @ queue_list (sy_queues y ! j)"
  using assms by (auto simp: sys_inv_def queue_ok_def)

text \<open>A change of one writer's control point.\<close>

lemma set_writer_inv:
  assumes "sys_inv y" and "j < length (sy_writers y)" and "writer_ok (sy_queues y ! j) w"
  shows "sys_inv (set_writer j w y)"
proof -
  have "queue_ok (set_writer j w y) i" if "i < length (sy_queues y)" for i
  proof (cases "i = j")
    case True
    with assms sys_inv_D [OF assms(1,2)] show ?thesis by (simp add: queue_ok_def set_simps)
  next
    case False
    with assms(1) that show ?thesis
      by - (rule queue_ok_frame [of y], auto simp: sys_inv_def set_simps)
  qed
  moreover have "reader_ok (set_writer j w y) (sy_reader y)"
    using assms(1) by (cases "sy_reader y") (simp_all add: sys_inv_def set_simps)
  ultimately show ?thesis using assms(1) by (simp add: sys_inv_def set_simps)
qed

text \<open>A store into one queue that leaves its readable events alone.\<close>

text \<open>The reader looks at the events of the queues only.\<close>

lemma reader_ok_same_lists:
  assumes "sys_inv y" and "length (sy_queues y') = length (sy_queues y)"
    and "\<And>i. i < length (sy_queues y) \<Longrightarrow> queue_inv (sy_queues y' ! i) \<and> queue_list (sy_queues y' ! i) = queue_list (sy_queues y ! i)"
    and "sy_max y' = sy_max y" and "waiting_for_data y' = waiting_for_data y"
    and "sy_scan y' = (sy_scan y)\<lparr>sc_queues := qs\<rparr>"
  shows "reader_ok y' (sy_reader y)"
proof (cases "sy_reader y")
  case RScan
  then have r: "scan_ranges (length (sy_queues y)) (sy_max y) (length (sc_data (sy_scan y))) (sy_scan y)"
    "scan_empties (length (sy_queues y)) (sy_scan y)" "\<not> waiting_for_data y" "0 < sy_max y"
    using assms(1) by (auto simp: sys_inv_def)
  have "0 < length (sy_queues y)" using assms(1) by (auto simp: sys_inv_def)
  then have lt: "nat ((sc_next (sy_scan y) - k) mod int (length (sy_queues y))) < length (sy_queues y)" for k
    by (simp add: nat_less_iff)
  have "queues_ok (length (sy_queues y)) (sy_queues y')"
    using assms(2,3) by (auto simp: queues_ok_def in_set_conv_nth)
  with r(1) have "scan_ranges (length (sy_queues y)) (sy_max y) (length (sc_data (sy_scan y))) (sy_scan y')"
    by (simp add: scan_ranges_def assms(6))
  moreover have "scan_empties (length (sy_queues y)) (sy_scan y')"
    using r(2) assms(3) [OF lt] by (simp add: scan_empties_def assms(6))
  moreover have "length qs = length (sy_queues y)" using assms(2) by (simp add: assms(6))
  ultimately show ?thesis using RScan r(3,4) by (simp add: assms(4,5,6))
next
  case RSleep
  then have "\<forall>i<length (sy_queues y). queue_list (sy_queues y ! i) = []"
    using assms(1) by (auto simp: sys_inv_def)
  with assms(2,3) have "\<forall>x\<in>set (sy_queues y'). queue_list x = []"
    by (auto simp: in_set_conv_nth)
  with RSleep assms show ?thesis by (simp add: sys_inv_def)
qed (use assms in \<open>simp_all add: sys_inv_def\<close>)

lemma set_queue_inv:
  assumes "sys_inv y" and "j < length (sy_writers y)" and "queue_inv q"
    and "queue_list q = queue_list (sy_queues y ! j)" and "writer_ok q w"
  shows "sys_inv (set_writer j w (set_queue j q y))"
proof -
  let ?y = "set_writer j w (set_queue j q y)"
  have q: "queue_inv (sy_queues ?y ! i) \<and> queue_list (sy_queues ?y ! i) = queue_list (sy_queues y ! i)"
    if "i < length (sy_queues y)" for i
    using assms(1,3,4) that by (cases "i = j") (auto simp: set_simps sys_inv_def queue_ok_def)
  have "queue_ok ?y i" if "i < length (sy_queues y)" for i
  proof (cases "i = j")
    case True
    with assms sys_inv_D [OF assms(1,2)] show ?thesis by (simp add: queue_ok_def set_simps)
  next
    case False
    with assms(1) that show ?thesis
      by - (rule queue_ok_frame [of y], auto simp: sys_inv_def set_simps)
  qed
  moreover have "reader_ok ?y (sy_reader y)"
    by (rule reader_ok_same_lists [OF assms(1) _ q]) (simp_all add: set_simps)
  ultimately show ?thesis using assms(1) by (simp add: sys_inv_def set_simps)
qed

lemma writer_section_inv:
  assumes "sys_inv y" and "j < length (sy_writers y)"
  shows "sys_inv (writer_section j y)"
proof -
  note D = sys_inv_D [OF assms]
  show ?thesis
  proof (cases "mSize (sy_queues y ! j) = mCapacity (sy_queues y ! j)")
    case True
    with assms show ?thesis by (simp add: writer_section_def set_writer_inv)
  next
    case False
    obtain len out where r: "getWritableRegion (sy_queues y ! j) SENSOR_EVENT_QUEUE_CAPACITY = (len, out)"
      by (cases "getWritableRegion (sy_queues y ! j) SENSOR_EVENT_QUEUE_CAPACITY")
    with False getWritableRegion_None [of "sy_queues y ! j" SENSOR_EVENT_QUEUE_CAPACITY len]
    obtain off where off: "out = Some off"
      by (cases out) (auto simp: SENSOR_EVENT_QUEUE_CAPACITY_def)
    with r seq.region_law [OF D(2)] have "region_ok (sy_queues y ! j) off len" "1 \<le> len" by auto
    with assms False r off show ?thesis
      by (simp add: writer_section_def Let_def set_writer_inv)
  qed
qed

lemma mark_section_inv:
  assumes "sys_inv y" and "j < length (sy_writers y)" and "sy_writers y ! j = WMark off events"
    and "sy_reader y \<noteq> RScan"
  shows "sys_inv (mark_section j events y)"
proof -
  note D = sys_inv_D [OF assms(1,2)]
  let ?q = "markAsWritten (sy_queues y ! j) (int (length events))"
  let ?y = "mark_section j events y"
  have w: "region_ok (sy_queues y ! j) off (int (length events))"
    "pending (sy_queues y ! j) off (int (length events)) = events" using D(3) assms(3) by auto
  then have q: "queue_inv ?q" "queue_list ?q = queue_list (sy_queues y ! j) @ events"
    using seq.mark_law [OF D(2) w(1), of "int (length events)"] by auto
  have f: "sy_queues ?y = (sy_queues y)[j := ?q]" "sy_writers ?y = (sy_writers y)[j := WStart]"
    "produced ?y = (produced y)(j := produced y j @ events)" "consumed ?y = consumed y"
    "waiting_for_data ?y = waiting_for_data y" "sc_next (sy_scan ?y) = sc_next (sy_scan y)"
    "sc_read (sy_scan ?y) = sc_read (sy_scan y)" "sy_max ?y = sy_max y"
    "sc_data (sy_scan ?y) = sc_data (sy_scan y)"
    "sy_reader ?y = (if waiting_for_data y \<and> sy_reader y = RSleep then RWoken else sy_reader y)"
    by (simp_all add: mark_section_def Let_def set_simps)
  have "queue_ok ?y i" if "i < length (sy_queues y)" for i
  proof (cases "i = j")
    case True
    with D q assms(2) show ?thesis by (simp add: queue_ok_def f)
  next
    case False
    with assms(1) that show ?thesis by - (rule queue_ok_frame [of y], auto simp: sys_inv_def f)
  qed
  moreover have "reader_ok ?y (sy_reader ?y)"
    using assms(1,4) by (cases "sy_reader y") (simp_all add: sys_inv_def f)
  ultimately show ?thesis using assms(1) by (simp add: sys_inv_def f)
qed

lemma scan_step_keeps:
  assumes "scan_ranges n m len s" and "scan_empties n s"
    and "sc_empties s < int n" and "sc_read s < m"
  shows "\<exists>s'. scan_step h t (int n) s = Inr s' \<and> scan_ranges n m len s' \<and> scan_empties n s'
    \<and> sc_next s' = (sc_next s + 1) mod int n
    \<and> sc_queues s' = (sc_queues s)[nat (sc_next s) := dequeue (sc_queues s ! nat (sc_next s))]"
proof -
  have i: "0 \<le> sc_next s" "sc_next s < int n" "length (sc_queues s) = n" and qok: "queues_ok n (sc_queues s)"
    using assms(1) by (auto simp: scan_ranges_def queues_ok_def)
  have inv: "queue_inv (sc_queues s ! nat (sc_next s))" using queues_okD [OF qok] i by simp
  show ?thesis
  proof (cases "queue_list (sc_queues s ! nat (sc_next s))")
    case Nil
    then have "dequeue (sc_queues s ! nat (sc_next s)) = sc_queues s ! nat (sc_next s)"
      using queue_inv_empty_iff [OF inv] by (simp add: dequeue_empty)
    moreover have "scan_ranges n m len
        (s\<lparr>sc_empties := sc_empties s + 1, sc_next := (sc_next s + 1) mod int n\<rparr>)"
      using assms(1,3) next_index [OF i(1,2)] by (simp add: scan_ranges_def)
    ultimately show ?thesis
      using scan_step_empty [OF assms(1,3) Nil] scan_empties_step [OF assms(1,2,3) Nil] by auto
  next
    case (Cons e es)
    from scan_step_event [OF assms(1,4) Cons] assms(1,4) next_index [OF i(1,2)]
      queues_ok_update [OF qok dequeue_inv [OF inv]]
    show ?thesis by (auto simp: scan_ranges_def scan_empties_def Let_def)
  qed
qed

lemma writer_ok_dequeue:
  assumes "queue_inv q" and "writer_ok q w" and "mSize q \<noteq> 0"
  shows "writer_ok (dequeue q) (if snd (dequeue_signal q) \<and> w = WSleep then WWoken else w)"
proof (cases w)
  case WSleep
  with assms(2,3) show ?thesis by (simp add: dequeue_signal_def)
next
  case (WPoll out len)
  with assms seq.valid_deq [OF assms(1)] show ?thesis by (auto split: option.splits)
next
  case (WMark off evs)
  with assms seq.valid_deq [OF assms(1)] show ?thesis by (simp add: seq.pend_deq)
qed simp_all

lemma dequeue_queue_ok:
  assumes "sys_inv y" and "i < length (sy_writers y)" and "i < length (sy_queues y')"
    and "sy_queues y' ! i = dequeue (sy_queues y ! i)"
    and "sy_writers y' ! i = (if snd (dequeue_signal (sy_queues y ! i)) \<and> sy_writers y ! i = WSleep then WWoken
      else sy_writers y ! i)" (is "_ = ?w")
    and "produced y' i = produced y i"
    and "consumed y' i = consumed y i @ (case peek (sy_queues y ! i) of None \<Rightarrow> [] | Some e \<Rightarrow> [e])"
  shows "queue_ok y' i"
proof -
  note D = sys_inv_D [OF assms(1,2)]
  have "writer_ok (dequeue (sy_queues y ! i)) ?w"
  proof (cases "mSize (sy_queues y ! i) = 0")
    case True
    with D(3) show ?thesis by (simp add: dequeue_empty dequeue_signal_def)
  next
    case False
    from writer_ok_dequeue [OF D(2,3) this] show ?thesis by simp
  qed
  moreover have "queue_list (sy_queues y ! i)
      = (case peek (sy_queues y ! i) of None \<Rightarrow> [] | Some e \<Rightarrow> [e]) @ queue_list (dequeue (sy_queues y ! i))"
    using seq.front_law [OF D(2)] seq.deq_law [OF D(2)] by (cases "queue_list (sy_queues y ! i)") auto
  ultimately show ?thesis
    using D(4) seq.deq_inv [OF D(2)] by (simp add: queue_ok_def assms(4-7) del: if_split)
qed

lemma reader_turn_inv:
  assumes "sys_inv y" and "sy_reader y = RScan" and "in_scan y"
  shows "\<exists>y'. reader_turn h t y = Inr y' \<and> sys_inv y'"
proof -
  define n i q where "n = length (sy_queues y)" and "i = nat (sc_next (sy_scan y))"
    and "q = sy_queues y ! i"
  have r: "scan_ranges n (sy_max y) (length (sc_data (sy_scan y))) (sy_scan y)"
    "scan_empties n (sy_scan y)" "\<not> waiting_for_data y" "0 < sy_max y"
    and i: "i < n" "i < length (sy_writers y)" "length (sy_writers y) = n"
    using assms(1,2) by (auto simp: sys_inv_def n_def i_def)
  note D = sys_inv_D [OF assms(1) i(2), folded q_def]
  obtain s' where s': "scan_step h t (int n) (sy_scan y) = Inr s'"
    "scan_ranges n (sy_max y) (length (sc_data (sy_scan y))) s'" "scan_empties n s'"
    "sc_queues s' = (sy_queues y)[i := dequeue q]"
    using scan_step_keeps [OF r(1,2), of h t] assms(3)
    unfolding in_scan_def n_def i_def q_def by auto
  have rng: "0 \<le> sc_next s'" "sc_next s' < int n" "length (sc_data s') = length (sc_data (sy_scan y))"
    using s'(2) by (auto simp: scan_ranges_def)
  define w where "w = (if snd (dequeue_signal q) \<and> sy_writers y ! i = WSleep then WWoken else sy_writers y ! i)"
  define y' where "y' = y\<lparr>sy_scan := s', sy_writers := (sy_writers y)[i := w],
    consumed := (consumed y)(i := consumed y i @ (case peek q of None \<Rightarrow> [] | Some e \<Rightarrow> [e]))\<rparr>"
  have keep: "(sy_writers y)[i := w] = sy_writers y" if "peek q = None"
    using that D(2) by (simp add: w_def dequeue_signal_def peek_def split: if_splits)
  have "reader_turn h t y = Inr y'"
    using s'(1) keep unfolding reader_turn_def Let_def n_def [symmetric] i_def [symmetric] q_def [symmetric]
    by (auto simp: y'_def w_def set_writer_def split: option.split)
  moreover have "sys_inv y'"
  proof -
    have "queue_ok y' j" if "j < n" for j
    proof (cases "j = i")
      case True
      show ?thesis
        unfolding True by (rule dequeue_queue_ok [OF assms(1) i(2)])
          (use i n_def in \<open>simp_all add: y'_def s'(4) q_def w_def\<close>)
    next
      case False
      with assms(1) that n_def show ?thesis
        by - (rule queue_ok_frame [of y], auto simp: sys_inv_def y'_def s'(4))
    qed
    then show ?thesis
      using r(3,4) s'(2,3,4) rng i(3) assms(2) n_def by (simp add: sys_inv_def y'_def)
  qed
  ultimately show ?thesis by blast
qed

text \<open>What a sub-HAL stores during its \<open>poll\<close> is pending and not yet readable.\<close>

lemma writer_store_facts:
  assumes "sys_inv y" and "j < length (sy_writers y)" and "sy_writers y ! j = WPoll (Some off) len"
    and "int (length events) \<le> len" and "fillRegion (sy_queues y ! j) off events = Some q"
  shows "queue_inv q" and "region_ok q off (int (length events))" and "queue_list q = queue_list (sy_queues y ! j)"
    and "pending q off (int (length events)) = events"
proof -
  note D = sys_inv_D [OF assms(1,2)]
  have "region_ok (sy_queues y ! j) off len" using D(3) assms(3) by simp
  from seq.fill_law [OF D(2) this assms(4)] assms(5)
  have q: "queue_inv q" "region_ok q off len" "queue_list q = queue_list (sy_queues y ! j)"
    "pending q off (int (length events)) = events" by auto
  have "region_ok q off (int (length events))" using q(2) assms(4) by (simp add: region_ok_def)
  with q show "queue_inv q" "region_ok q off (int (length events))" "queue_list q = queue_list (sy_queues y ! j)"
    "pending q off (int (length events)) = events" by simp_all
qed

text \<open>The reader goes to sleep over empty queues.\<close>

lemma reader_wait_inv:
  assumes "sys_inv y" and "sy_reader y = RScan" and "\<not> in_scan y" and "sc_read (sy_scan y) = 0"
  shows "sys_inv (y\<lparr>sy_reader := RSleep, waiting_for_data := True\<rparr>)"
proof -
  have r: "scan_ranges (length (sy_queues y)) (sy_max y) (length (sc_data (sy_scan y))) (sy_scan y)"
    "scan_empties (length (sy_queues y)) (sy_scan y)" "0 < sy_max y"
    using assms by (auto simp: sys_inv_def)
  have "\<not> sc_empties (sy_scan y) < int (length (sy_queues y))"
    using assms r(3) by (auto simp: in_scan_def)
  from scan_empties_all [OF r(1,2) this] have "\<forall>q\<in>set (sy_queues y). queue_list q = []"
    by (auto simp: in_set_conv_nth)
  with assms r show ?thesis by (auto simp: sys_inv_def queue_ok_def scan_ranges_def)
qed

lemma step_inv: "step h t y obs y' \<Longrightarrow> sys_inv y \<Longrightarrow> sys_inv y'"
proof (induction rule: step.induct)
  case (writer_lock j y)
  then show ?case by (simp add: writer_section_inv)
next
  case (writer_spurious j y)
  then show ?case by (simp add: set_writer_inv)
next
  case (writer_nothing j y out len)
  then show ?case by (simp add: set_writer_inv)
next
  case (writer_store j y off len events q)
  from writer_store_facts [OF writer_store(6,1,2,4,5)] writer_store(1,6) show ?case by (intro set_queue_inv) auto
next
  case (writer_mark j y off events)
  then show ?case by (intro mark_section_inv)
next
  case (reader_call y m data)
  then show ?case by (auto simp: sys_inv_def queue_ok_def scan_ranges_def scan_empties_def queues_ok_def
        in_set_conv_nth)
next
  case (reader_step y y')
  with reader_turn_inv [of y h t] show ?case by auto
next
  case (reader_wait y)
  then show ?case by (simp add: reader_wait_inv)
next
  case (reader_return y)
  then show ?case by (auto simp: sys_inv_def queue_ok_def)
next
  case (reader_spurious y)
  then show ?case by (auto simp: sys_inv_def queue_ok_def)
next
  case (reader_relock y)
  then show ?case by (auto simp: sys_inv_def queue_ok_def scan_ranges_def scan_empties_def queues_ok_def
        in_set_conv_nth)
qed

section \<open>Reachable states\<close>

lemma system_start_inv:
  assumes "context_ok ctx" and "queues ctx \<noteq> []"
    and "\<forall>q\<in>set (queues ctx). mSize q = 0"
  shows "sys_inv (system_start ctx)"
  using assms by (auto simp: sys_inv_def system_start_def queue_ok_def context_ok_def queue_list_def)

lemma reachable_inv: "reachable h t ctx y \<Longrightarrow> sys_inv (system_start ctx) \<Longrightarrow> sys_inv y"
  by (induction rule: reachable.induct) (auto intro: step_inv)

lemma step_writers: "step h t y obs y' \<Longrightarrow> length (sy_writers y') = length (sy_writers y)"
proof (induction rule: step.induct)
  case (reader_step y y')
  then show ?case
    by (auto simp: reader_turn_def Let_def set_writer_def split: sum.splits option.splits if_splits)
qed (auto simp: writer_section_def mark_section_def Let_def set_simps split: prod.split)

lemma reachable_writers: "reachable h t ctx y \<Longrightarrow> length (sy_writers y) = length (queues ctx)"
  by (induction rule: reachable.induct) (auto simp: system_start_def step_writers)

text \<open>The contexts that \<open>open_sensors\<close> makes, with at least one device.\<close>

definition fresh_context :: "sensors_poll_context \<Rightarrow> bool" where
  "fresh_context ctx \<longleftrightarrow> context_ok ctx \<and> queues ctx \<noteq> [] \<and> (\<forall>q\<in>set (queues ctx). mSize q = 0)"

lemma addSubHwDevice_empty:
  "\<forall>q\<in>set (queues dev). mSize q = 0 \<Longrightarrow> \<forall>q\<in>set (queues (addSubHwDevice env d dev)). mSize q = 0"
  by (simp add: addSubHwDevice_def SensorEventQueue_new_def)

lemma open_modules_empty:
  "\<forall>q\<in>set (queues dev). mSize q = 0 \<Longrightarrow>
     \<forall>q\<in>set (queues (fst (open_modules env name mods dev vs))). mSize q = 0"
proof (induction mods arbitrary: dev vs)
  case (Cons m mods)
  show ?case
  proof (cases "module_open env m name")
    case (Some d)
    from Cons.IH [OF addSubHwDevice_empty [OF Cons.prems]] Some show ?thesis by simp
  qed (use Cons in simp)
qed simp

lemma open_sensors_fresh:
  assumes "open_sensors h env name st = Inr (ctx, st1)" and "queues ctx \<noteq> []"
  shows "fresh_context ctx"
proof (rule open_sensorsE [OF assms(1)])
  fix mods dev
  assume dev: "dev = \<lparr>proxy_version = SENSORS_DEVICE_API_VERSION_1_4 h, sub_hw_devices = [],
           queues = [], threads = [], nextReadIndex = 0\<rparr>"
    and op: "open_modules env name mods dev Map.empty = (ctx, the (sub_hw_versions st1))"
  have ctx: "ctx = fst (open_modules env name mods dev Map.empty)" by (simp add: op)
  have "context_ok dev" by (simp add: context_ok_def dev)
  from open_modules_context [OF this] have "context_ok ctx" unfolding ctx .
  moreover have "\<forall>q\<in>set (queues ctx). mSize q = 0"
    unfolding ctx by (rule open_modules_empty) (simp add: dev)
  ultimately show ?thesis using assms(2) by (simp add: fresh_context_def)
qed

lemma reachable_fresh: "fresh_context ctx \<Longrightarrow> reachable h t ctx y \<Longrightarrow> sys_inv y"
  using system_start_inv reachable_inv by (auto simp: fresh_context_def)

lemma demo_fresh: "fresh_context demo_ctx"
  by (simp add: fresh_context_def context_ok_def demo_ctx_def queue_inv_new)
    (simp add: SensorEventQueue_new_def SENSOR_EVENT_QUEUE_CAPACITY_def)

section \<open>Properties\<close>

text \<open>
  C16. Whatever the interleaving, a sub-HAL writes only where it may: while a writer is in
  \<open>device->poll\<close> it holds a pointer, the store of up to \<open>bufferSize\<close> events through it stays
  inside the queue's array, and no slot it covers is one that the reader may read.
\<close>

theorem writers_store_safely:
  assumes "fresh_context ctx" and "reachable h t ctx y"
    and "j < length (sy_writers y)" and "sy_writers y ! j = WPoll out len"
  shows "\<exists>off. out = Some off \<and> 1 \<le> len
    \<and> (\<forall>events. int (length events) \<le> len \<longrightarrow> fillRegion (sy_queues y ! j) off events \<noteq> None)
    \<and> readable_slots (sy_queues y ! j) \<inter> {nat off..<nat (off + len)} = {}"
proof -
  note D = sys_inv_D [OF reachable_fresh [OF assms(1,2)] assms(3)]
  obtain off where off: "out = Some off" "1 \<le> len" "region_ok (sy_queues y ! j) off len"
    using D(3) assms(4) by (auto split: option.splits)
  have "0 < mCapacity (sy_queues y ! j)" using D(2) by (simp add: queue_inv_def)
  then have "0 \<le> off" using off(3) by (simp add: region_ok_def)
  then have "x \<notin> readable_slots (sy_queues y ! j)" if "nat off \<le> x" "x < nat (off + len)" for x
    using region_not_readable [OF D(2) off(3), of "x - nat off"] that by simp
  then have "readable_slots (sy_queues y ! j) \<inter> {nat off..<nat (off + len)} = {}" by auto
  moreover have "fillRegion (sy_queues y ! j) off events \<noteq> None" if "int (length events) \<le> len" for events
    using seq.fill_law [OF D(2) off(3) that] by auto
  ultimately show ?thesis using off(1,2) by blast
qed

theorem writers_store_safely_witness:
  "\<exists>y. reachable demo_h (tables demo_started) demo_ctx y \<and> sy_writers y ! 0 = WPoll (Some 0) 36
    \<and> (\<forall>events. int (length events) \<le> 36 \<longrightarrow> fillRegion (sy_queues y ! 0) 0 events \<noteq> None)"
proof -
  let ?y = "writer_section 0 (system_start demo_ctx)"
  have s: "step demo_h (tables demo_started) (system_start demo_ctx) [] ?y"
    by (rule step.writer_lock) (simp_all add: system_start_def demo_ctx_def)
  have r: "reachable demo_h (tables demo_started) demo_ctx ?y" by (rule reachable.again [OF reachable.init s])
  have w: "sy_writers ?y ! 0 = WPoll (Some 0) 36"
    by (simp add: writer_section_def system_start_def demo_ctx_def set_writer_def
        SensorEventQueue_new_def getWritableRegion_def SENSOR_EVENT_QUEUE_CAPACITY_def
        signed_modulo_int_def Let_def)
  have "0 < length (sy_writers ?y)" using reachable_writers [OF r] by (simp add: demo_ctx_def)
  from writers_store_safely [OF demo_fresh r this w] r w show ?thesis by auto
qed

text \<open>
  No event is lost, duplicated or reordered between a sub-HAL and the reader: in every
  reachable state, what a writer has marked on its queue is what the reader has dequeued from
  it followed by what is in it now.
\<close>

theorem events_arrive_in_order:
  assumes "open_sensors h env name st = Inr (ctx, st1)" and "reachable h t ctx y" and "j < length (queues ctx)"
  shows "produced y j = consumed y j @ queue_list (sy_queues y ! j)"
proof -
  have "queues ctx \<noteq> []" using assms(3) by auto
  from reachable_fresh [OF open_sensors_fresh [OF assms(1) this] assms(2)]
  show ?thesis using sys_inv_D(4) reachable_writers [OF assms(2)] assms(3) by simp
qed

lemma demo_open: "open_sensors demo_h demo_env ''hal'' demo_loaded =
    Inr (fst (open_modules demo_env ''hal'' [10, 20] \<lparr>proxy_version = 260, sub_hw_devices = [],
           queues = [], threads = [], nextReadIndex = 0\<rparr> Map.empty),
      demo_loaded\<lparr>sub_hw_versions := Some [10 \<mapsto> 256, 20 \<mapsto> 256]\<rparr>)"
  by (simp add: open_sensors_def lazy_init_modules_def Let_def demo_defs fun_upd_twist)

theorem events_arrive_in_order_witness:
  "\<exists>ctx. length (queues ctx) = 2 \<and> produced (system_start ctx) 1 = consumed (system_start ctx) 1
     @ queue_list (sy_queues (system_start ctx) ! 1)"
proof -
  let ?ctx = "fst (open_modules demo_env ''hal'' [10, 20] \<lparr>proxy_version = 260, sub_hw_devices = [],
           queues = [], threads = [], nextReadIndex = 0\<rparr> Map.empty)"
  have len: "length (queues ?ctx) = 2" by (simp add: demo_env_def addSubHwDevice_def)
  from events_arrive_in_order [OF demo_open reachable.init, of 1] len show ?thesis by auto
qed

text \<open>
  C15. No wake-up is lost: a reader that sleeps has told the writers so and every queue is empty;
  a writer that sleeps has a full queue; so the two never sleep on each other, and with the
  reader asleep every writer can move.
\<close>

theorem no_lost_wakeup:
  assumes "fresh_context ctx" and "reachable h t ctx y"
  shows "(sy_reader y = RSleep \<longrightarrow> waiting_for_data y
      \<and> (\<forall>q\<in>set (sy_queues y). queue_list q = []) \<and> WSleep \<notin> set (sy_writers y))
    \<and> (\<forall>j<length (sy_writers y). sy_writers y ! j = WSleep \<longrightarrow>
        mSize (sy_queues y ! j) = mCapacity (sy_queues y ! j))"
proof -
  have inv: "sys_inv y" by (rule reachable_fresh [OF assms])
  have full: "mSize (sy_queues y ! j) = mCapacity (sy_queues y ! j)"
    if "j < length (sy_writers y)" "sy_writers y ! j = WSleep" for j
    using sys_inv_D(3) [OF inv that(1)] that(2) by simp
  have empty: "waiting_for_data y \<and> (\<forall>q\<in>set (sy_queues y). queue_list q = [])" if "sy_reader y = RSleep"
    using inv that by (auto simp: sys_inv_def)
  have "WSleep \<notin> set (sy_writers y)" if r: "sy_reader y = RSleep"
  proof
    assume "WSleep \<in> set (sy_writers y)"
    then obtain j where j: "j < length (sy_writers y)" "sy_writers y ! j = WSleep"
      by (auto simp: in_set_conv_nth)
    note D = sys_inv_D [OF inv j(1)]
    have "mSize (sy_queues y ! j) = 0"
      using empty [OF r] D(1) queue_inv_empty_iff [OF D(2)] nth_mem [OF D(1)] by blast
    with full [OF j] D(2) show False by (simp add: queue_inv_def)
  qed
  with full empty show ?thesis by blast
qed

definition demo_asleep :: "int \<Rightarrow> int \<Rightarrow> reader_pc \<Rightarrow> bool \<Rightarrow> hal_system" where
  "demo_asleep nxt empties r waiting = (system_start demo_ctx)\<lparr>sy_reader := r, sy_max := 1,
     waiting_for_data := waiting,
     sy_scan := (sy_scan (system_start demo_ctx))\<lparr>sc_next := nxt, sc_empties := empties, sc_data := [demo_event]\<rparr>\<rparr>"

lemma demo_asleep_steps:
  "step demo_h (tables demo_started) (system_start demo_ctx) [Called 1] (demo_asleep 0 0 RScan False)"
  "step demo_h (tables demo_started) (demo_asleep 0 0 RScan False) [] (demo_asleep 1 1 RScan False)"
  "step demo_h (tables demo_started) (demo_asleep 1 1 RScan False) [] (demo_asleep 0 2 RScan False)"
  "step demo_h (tables demo_started) (demo_asleep 0 2 RScan False) [] (demo_asleep 0 2 RSleep True)"
proof -
  let ?S = "step demo_h (tables demo_started)"
  show "?S (system_start demo_ctx) [Called 1] (demo_asleep 0 0 RScan False)"
    using step.reader_call [of "system_start demo_ctx" 1 "[demo_event]" demo_h "tables demo_started"]
    by (simp add: INT_MAX_def demo_asleep_def system_start_def demo_ctx_def)
  show "?S (demo_asleep 0 0 RScan False) [] (demo_asleep 1 1 RScan False)"
    "?S (demo_asleep 1 1 RScan False) [] (demo_asleep 0 2 RScan False)"
    by (rule step.reader_step, simp_all add: demo_asleep_def system_start_def demo_ctx_def in_scan_def
        reader_turn_def scan_step_def peek_def SensorEventQueue_new_def signed_modulo_int_def Let_def)+
  show "?S (demo_asleep 0 2 RScan False) [] (demo_asleep 0 2 RSleep True)"
    using step.reader_wait [of "demo_asleep 0 2 RScan False" demo_h "tables demo_started"]
    by (simp add: demo_asleep_def system_start_def demo_ctx_def in_scan_def)
qed

lemma demo_asleep_reachable:
  "reachable demo_h (tables demo_started) demo_ctx (demo_asleep 0 0 RScan False)"
  "reachable demo_h (tables demo_started) demo_ctx (demo_asleep 0 2 RSleep True)"
proof -
  show r: "reachable demo_h (tables demo_started) demo_ctx (demo_asleep 0 0 RScan False)"
    by (rule reachable.again [OF reachable.init demo_asleep_steps(1)])
  show "reachable demo_h (tables demo_started) demo_ctx (demo_asleep 0 2 RSleep True)"
    using r demo_asleep_steps(2-4) by (meson reachable.again)
qed

theorem no_lost_wakeup_witness:
  "sy_reader (demo_asleep 0 2 RSleep True) = RSleep \<and> WSleep \<notin> set (sy_writers (demo_asleep 0 2 RSleep True))
    \<and> list_all (\<lambda>q. queue_list q = []) (sy_queues (demo_asleep 0 2 RSleep True))"
proof -
  have "sy_reader (demo_asleep 0 2 RSleep True) = RSleep" by (simp add: demo_asleep_def)
  with no_lost_wakeup [OF demo_fresh demo_asleep_reachable(2)] show ?thesis by (simp add: list_all_iff)
qed

text \<open>
  The reader's side never faults: in every reachable state in which \<open>poll\<close> is about to run a
  turn of its inner loop, the turn completes without leaving the vector of queues or the
  caller's buffer.
\<close>

theorem reader_never_faults:
  assumes "fresh_context ctx" and "reachable h t ctx y" and "sy_reader y = RScan" and "in_scan y"
  shows "\<exists>y'. reader_turn h t y = Inr y' \<and> step h t y [] y'"
  using reader_turn_inv [OF reachable_fresh [OF assms(1,2)] assms(3,4), of h t]
    step.reader_step [OF assms(3,4)] by blast

theorem reader_never_faults_witness:
  "\<exists>y y'. reachable demo_h (tables demo_started) demo_ctx y \<and> sy_reader y = RScan
    \<and> reader_turn demo_h (tables demo_started) y = Inr y'"
proof -
  let ?y = "(system_start demo_ctx)\<lparr>sy_reader := RScan, sy_max := 1,
      sy_scan := (sy_scan (system_start demo_ctx))\<lparr>sc_empties := 0, sc_read := 0, sc_data := [demo_event]\<rparr>\<rparr>"
  have "step demo_h (tables demo_started) (system_start demo_ctx) [Called 1] ?y"
    by (rule step.reader_call) (simp_all add: system_start_def INT_MAX_def)
  then have r: "reachable demo_h (tables demo_started) demo_ctx ?y"
    by (rule reachable.again [OF reachable.init])
  have g: "sy_reader ?y = RScan" "in_scan ?y"
    by (simp_all add: in_scan_def system_start_def demo_ctx_def)
  from reader_never_faults [OF demo_fresh r g] r g(1) show ?thesis by blast
qed
end
