(* ===== verification/Refinement.thy ===== *)
theory Refinement
  imports Prelude
begin

text \<open>
  Labelled step relations and refinement. An execution collects what its steps show to the
  outside; a step that shows nothing is internal. A relation \<open>match\<close> between the states of a
  detailed and an abstract system under which every detailed step is answered by an abstract
  step that shows the same, or by none when it shows nothing, makes every observation of the
  detailed system one of the abstract system.
\<close>

inductive execution :: "('s \<Rightarrow> bool) \<Rightarrow> ('s \<Rightarrow> 'o list \<Rightarrow> 's \<Rightarrow> bool) \<Rightarrow> 'o list \<Rightarrow> 's \<Rightarrow> bool"
  for start :: "'s \<Rightarrow> bool" and next_step :: "'s \<Rightarrow> 'o list \<Rightarrow> 's \<Rightarrow> bool" where
  begin_run: "start s \<Longrightarrow> execution start next_step [] s"
| extend_run: "execution start next_step obs s \<Longrightarrow> next_step s new s' \<Longrightarrow>
    execution start next_step (obs @ new) s'"

text \<open>An invariant that may also speak of what was shown so far.\<close>

lemma execution_invariant [consumes 1, case_names start step]:
  assumes "execution start next_step obs s"
    and "\<And>s. start s \<Longrightarrow> P [] s"
    and "\<And>obs s new s'. execution start next_step obs s \<Longrightarrow> P obs s \<Longrightarrow> next_step s new s' \<Longrightarrow> P (obs @ new) s'"
  shows "P obs s"
  using assms(1)
proof (induction rule: execution.induct)
  case (begin_run s)
  then show ?case by (rule assms(2))
next
  case (extend_run obs s new s')
  then show ?case by (intro assms(3))
qed

locale step_refinement =
  fixes cstart :: "'c \<Rightarrow> bool" and cstep :: "'c \<Rightarrow> 'o list \<Rightarrow> 'c \<Rightarrow> bool"
    and astart :: "'a \<Rightarrow> bool" and astep :: "'a \<Rightarrow> 'o list \<Rightarrow> 'a \<Rightarrow> bool"
    and match :: "'c \<Rightarrow> 'a \<Rightarrow> bool"
  assumes match_start: "cstart c \<Longrightarrow> \<exists>a. astart a \<and> match c a"
    and match_step: "match c a \<Longrightarrow> cstep c new c' \<Longrightarrow>
      \<exists>a'. (new = [] \<and> a' = a \<or> astep a new a') \<and> match c' a'"
begin

lemma refines: "execution cstart cstep obs c \<Longrightarrow> \<exists>a. execution astart astep obs a \<and> match c a"
proof (induction rule: execution.induct)
  case (begin_run c)
  from match_start [OF this] obtain a where "astart a" "match c a" by blast
  then show ?case by (intro exI conjI execution.begin_run)
next
  case (extend_run obs c new c')
  from extend_run.IH obtain a where a: "execution astart astep obs a" "match c a" by (elim exE conjE)
  from match_step [OF a(2) extend_run.hyps(2)] obtain a'
    where a': "new = [] \<and> a' = a \<or> astep a new a'" "match c' a'" by (elim exE conjE)
  from a'(1) have "execution astart astep (obs @ new) a'"
  proof
    assume "new = [] \<and> a' = a"
    with a(1) show ?thesis by simp
  next
    assume "astep a new a'"
    with a(1) show ?thesis by (rule execution.extend_run)
  qed
  with a'(2) show ?case by (intro exI conjI)
qed

text \<open>What holds of every abstract execution holds of every detailed one.\<close>

lemma transfer:
  assumes "execution cstart cstep obs c" and "\<And>a. execution astart astep obs a \<Longrightarrow> match c a \<Longrightarrow> P"
  shows P
  using refines [OF assms(1)] by (elim exE conjE) (rule assms(2))

end
end
