(* ===== verification/SensorMailbox.thy ===== *)
theory SensorMailbox
  imports SensorThreads Refinement "HOL-Library.Sublist"
begin

text \<open>
  What the multi-HAL promises the framework, as an abstract machine: one unbounded mailbox per
  sub-HAL, into which it posts, and a \<open>poll\<close> that takes events from the mailboxes one at a time
  and returns them with their handles made global. There are no rings, no regions, no locks, no
  sleeping and no read index in it. The step relation of \<open>SensorThreads\<close> refines it.
\<close>

section \<open>The abstract machine\<close>

record mailboxes =
  mb_waiting :: "nat \<Rightarrow> sensors_event list"   \<comment> \<open>posted and not yet taken\<close>
  mb_limit :: "int option"                    \<comment> \<open>the call of \<open>poll\<close> in progress\<close>
  mb_batch :: taken                           \<comment> \<open>what that call has taken\<close>

definition mb_start :: mailboxes where
  "mb_start = \<lparr>mb_waiting = (\<lambda>j. []), mb_limit = None, mb_batch = []\<rparr>"

inductive mb_step :: "sensors_h \<Rightarrow> handle_tables \<Rightarrow> nat \<Rightarrow> mailboxes \<Rightarrow> sensor_obs list \<Rightarrow> mailboxes \<Rightarrow> bool"
  for h :: sensors_h and t :: handle_tables and n :: nat where
  post: "j < n \<Longrightarrow> mb_step h t n a [Posted j es]
    (a\<lparr>mb_waiting := (mb_waiting a)(j := mb_waiting a j @ es)\<rparr>)"
| call: "mb_limit a = None \<Longrightarrow> 0 < m \<Longrightarrow> mb_step h t n a [Called m] (a\<lparr>mb_limit := Some m, mb_batch := []\<rparr>)"
| take_one: "mb_limit a = Some m \<Longrightarrow> int (length (delivered h t (mb_batch a))) < m \<Longrightarrow> j < n \<Longrightarrow>
    mb_waiting a j = e # es \<Longrightarrow> mb_step h t n a []
    (a\<lparr>mb_waiting := (mb_waiting a)(j := es), mb_batch := mb_batch a @ [(j, e)]\<rparr>)"
| give: "mb_limit a = Some m \<Longrightarrow> delivered h t (mb_batch a) \<noteq> [] \<Longrightarrow>
    int (length (delivered h t (mb_batch a))) = m \<or> (\<forall>j<n. mb_waiting a j = []) \<Longrightarrow>
    mb_step h t n a [Returned (delivered h t (mb_batch a))] (a\<lparr>mb_limit := None\<rparr>)"

text \<open>The runs of the two systems, with what they show.\<close>

abbreviation hal_run :: "sensors_h \<Rightarrow> handle_tables \<Rightarrow> sensors_poll_context \<Rightarrow> sensor_obs list \<Rightarrow> hal_system \<Rightarrow> bool" where
  "hal_run h t ctx \<equiv> execution (\<lambda>y. fresh_context ctx \<and> y = system_start ctx) (step h t)"

abbreviation mailbox_run :: "sensors_h \<Rightarrow> handle_tables \<Rightarrow> nat \<Rightarrow> sensor_obs list \<Rightarrow> mailboxes \<Rightarrow> bool" where
  "mailbox_run h t n \<equiv> execution (\<lambda>a. a = mb_start) (mb_step h t n)"

section \<open>What its observers see\<close>

definition posted :: "sensor_obs list \<Rightarrow> nat \<Rightarrow> sensors_event list" where
  "posted obs j = concat (map (\<lambda>ob. case ob of Posted i es \<Rightarrow> if i = j then es else [] | _ \<Rightarrow> []) obs)"

definition returned :: "sensor_obs list \<Rightarrow> sensors_event list" where
  "returned obs = concat (map (\<lambda>ob. case ob of Returned es \<Rightarrow> es | _ \<Rightarrow> []) obs)"

text \<open>
  The protocol of \<open>poll\<close>: calls and returns alternate, and a return has at least one event and at
  most as many as its call asked for. The result is the call in progress; \<open>None\<close> is a violation.
\<close>

fun poll_protocol :: "sensor_obs \<Rightarrow> int option \<Rightarrow> int option option" where
  "poll_protocol (Posted j es) p = Some p"
| "poll_protocol (Called m) p = (if p = None \<and> 0 < m then Some (Some m) else None)"
| "poll_protocol (Returned es) p = (case p of None \<Rightarrow> None
     | Some m \<Rightarrow> if 1 \<le> length es \<and> int (length es) \<le> m then Some None else None)"

definition outstanding :: "sensor_obs list \<Rightarrow> int option option" where
  "outstanding obs = fold (\<lambda>ob p. Option.bind p (poll_protocol ob)) obs (Some None)"

lemma seen_simps [simp]:
  "posted [] j = []" "posted (obs @ [Posted i es]) j = posted obs j @ (if i = j then es else [])"
  "posted (obs @ [Called m]) j = posted obs j" "posted (obs @ [Returned es]) j = posted obs j"
  "returned [] = []" "returned (obs @ [Posted i es]) = returned obs"
  "returned (obs @ [Called m]) = returned obs" "returned (obs @ [Returned es]) = returned obs @ es"
  "outstanding [] = Some None" "outstanding (obs @ [ob]) = Option.bind (outstanding obs) (poll_protocol ob)"
  by (simp_all add: posted_def returned_def outstanding_def)

lemma delivered_append: "delivered h t (tr @ tr') = delivered h t tr @ delivered h t tr'"
  by (simp add: delivered_def)

lemma taken_from_append: "taken_from (tr @ tr') j = taken_from tr j @ taken_from tr' j"
  by (simp add: taken_from_def)

lemma taken_from_single [simp]: "taken_from [(k, e)] j = (if k = j then [e] else [])"
  by (simp add: taken_from_def)

definition mb_current :: "mailboxes \<Rightarrow> taken" where
  "mb_current a = (case mb_limit a of None \<Rightarrow> [] | Some m \<Rightarrow> mb_batch a)"

lemma mb_current_simps [simp]:
  "mb_current (a\<lparr>mb_waiting := w\<rparr>) = mb_current a"
  "mb_limit a = None \<Longrightarrow> mb_current a = []" "mb_limit a = Some m \<Longrightarrow> mb_current a = mb_batch a"
  by (simp_all add: mb_current_def split: option.split)

definition mb_inv :: "sensors_h \<Rightarrow> handle_tables \<Rightarrow> nat \<Rightarrow> sensor_obs list \<Rightarrow> mailboxes \<Rightarrow> bool" where
  "mb_inv h t n obs a \<longleftrightarrow> outstanding obs = Some (mb_limit a)
     \<and> (\<forall>m. mb_limit a = Some m \<longrightarrow> int (length (delivered h t (mb_batch a))) \<le> m)
     \<and> (\<exists>tr. returned obs = delivered h t tr \<and> fst ` set (tr @ mb_current a) \<subseteq> {..<n}
         \<and> (\<forall>j. posted obs j = taken_from (tr @ mb_current a) j @ mb_waiting a j))"

lemma mb_invE:
  assumes "mb_inv h t n obs a"
  obtains tr where "outstanding obs = Some (mb_limit a)"
    "\<And>m. mb_limit a = Some m \<Longrightarrow> int (length (delivered h t (mb_batch a))) \<le> m"
    "returned obs = delivered h t tr" "fst ` set (tr @ mb_current a) \<subseteq> {..<n}"
    "\<And>j. posted obs j = taken_from (tr @ mb_current a) j @ mb_waiting a j"
  using assms by (auto simp: mb_inv_def)

lemma mb_invI:
  assumes "outstanding obs = Some (mb_limit a)"
    and "\<And>m. mb_limit a = Some m \<Longrightarrow> int (length (delivered h t (mb_batch a))) \<le> m"
    and "returned obs = delivered h t tr" and "fst ` set (tr @ mb_current a) \<subseteq> {..<n}"
    and "\<And>j. posted obs j = taken_from (tr @ mb_current a) j @ mb_waiting a j"
  shows "mb_inv h t n obs a"
  using assms by (auto simp: mb_inv_def)

lemma mb_step_inv: "mb_step h t n a new a' \<Longrightarrow> mb_inv h t n obs a \<Longrightarrow> mb_inv h t n (obs @ new) a'"
proof (induction rule: mb_step.induct)
  case (post j a es)
  from post(2) show ?case
    by (rule mb_invE) (rule mb_invI, auto)
next
  case (call a m)
  from call(3) show ?case
    by (rule mb_invE) (rule mb_invI, use call(1,2) in \<open>auto simp: delivered_def\<close>)
next
  case (take_one a m j e es)
  from take_one(5) obtain tr where tr: "outstanding obs = Some (mb_limit a)"
    "returned obs = delivered h t tr" "fst ` set (tr @ mb_current a) \<subseteq> {..<n}"
    "\<And>j. posted obs j = taken_from (tr @ mb_current a) j @ mb_waiting a j"
    by (rule mb_invE) (rule that)
  have "int (length (delivered h t (mb_batch a @ [(j, e)]))) \<le> m"
    using take_one(2) by (simp add: delivered_snoc Let_def)
  with tr take_one(1,3,4) show ?case
    by (intro mb_invI [where tr = tr])
      (auto simp: taken_from_append simp flip: append_assoc)
next
  case (give a m)
  from give(4) obtain tr where tr: "outstanding obs = Some (mb_limit a)"
    "int (length (delivered h t (mb_batch a))) \<le> m"
    "returned obs = delivered h t tr" "fst ` set (tr @ mb_current a) \<subseteq> {..<n}"
    "\<And>j. posted obs j = taken_from (tr @ mb_current a) j @ mb_waiting a j"
    by (rule mb_invE) (use give(1) in blast)
  with give(1,2) show ?case
    by (intro mb_invI [where tr = "tr @ mb_batch a"])
      (auto simp: delivered_append Suc_le_eq)
qed

lemma mb_execution_inv:
  "mailbox_run h t n obs a \<Longrightarrow> mb_inv h t n obs a"
proof (induction rule: execution_invariant)
  case (start a)
  then show ?case
    by (intro mb_invI [where tr = "[]"]) (auto simp: mb_start_def delivered_def taken_from_def)
next
  case (step obs a new a')
  then show ?case by (intro mb_step_inv)
qed

text \<open>A return with less than was asked for leaves every mailbox empty.\<close>

lemma mb_last_return:
  assumes "mailbox_run h t n obs a"
  shows "\<forall>obs0 es m. obs = obs0 @ [Returned es] \<longrightarrow> outstanding obs0 = Some (Some m) \<longrightarrow>
    mb_limit a = None \<and> (int (length es) = m \<or> (\<forall>j<n. mb_waiting a j = []))"
  using assms
proof (induction rule: execution_invariant)
  case (step obs a new a')
  have out: "outstanding obs = Some (mb_limit a)" using mb_execution_inv [OF step(1)] by (simp add: mb_inv_def)
  from step(2,3) show ?case by (cases rule: mb_step.cases) (auto simp: out)
qed simp

section \<open>The threads refine it\<close>

text \<open>
  The mailboxes are the contents of the rings, and while a call of \<open>poll\<close> is in progress the filled
  part of the caller's buffer is what the batch delivers.
\<close>

definition mb_match :: "sensors_h \<Rightarrow> handle_tables \<Rightarrow> nat \<Rightarrow> hal_system \<Rightarrow> mailboxes \<Rightarrow> bool" where
  "mb_match h t n y a \<longleftrightarrow> sys_inv y \<and> length (sy_queues y) = n
     \<and> (\<forall>j<n. mb_waiting a j = queue_list (sy_queues y ! j))
     \<and> (if sy_reader y = RIdle then mb_limit a = None
         else mb_limit a = Some (sy_max y)
           \<and> take (nat (sc_read (sy_scan y))) (sc_data (sy_scan y)) = delivered h t (mb_batch a))"

text \<open>A step that changes neither the contents nor the buffer is internal.\<close>

lemma mb_match_frame:
  assumes "mb_match h t n y a" and "sys_inv y'"
    and "map queue_list (sy_queues y') = map queue_list (sy_queues y)"
    and "sy_reader y' = RIdle \<longleftrightarrow> sy_reader y = RIdle" and "sy_max y' = sy_max y"
    and "sc_read (sy_scan y') = sc_read (sy_scan y)" and "sc_data (sy_scan y') = sc_data (sy_scan y)"
  shows "mb_match h t n y' a"
proof -
  have len: "length (sy_queues y') = n"
    using assms(1) map_eq_imp_length_eq [OF assms(3)] by (simp add: mb_match_def)
  moreover have "queue_list (sy_queues y' ! j) = queue_list (sy_queues y ! j)" if "j < n" for j
    using that len assms(1) arg_cong [OF assms(3), of "\<lambda>xs. xs ! j"] by (simp add: mb_match_def)
  ultimately show ?thesis using assms by (simp add: mb_match_def)
qed

text \<open>What a turn of the loop does to the scan, with and without an event.\<close>

lemma reader_turn_empty:
  assumes "scan_ranges n m len (sy_scan y)" and "sc_empties (sy_scan y) < int n"
    and "queue_list (sy_queues y ! nat (sc_next (sy_scan y))) = []" and "reader_turn h t y = Inr y'"
  shows "y' = y\<lparr>sy_scan := (sy_scan y)\<lparr>sc_empties := sc_empties (sy_scan y) + 1,
    sc_next := (sc_next (sy_scan y) + 1) mod int n\<rparr>\<rparr>"
proof -
  have "queue_inv (sy_queues y ! nat (sc_next (sy_scan y)))" "length (sy_queues y) = n"
    using assms(1) by (auto simp: scan_ranges_def queues_ok_def)
  with assms(3) have "peek (sy_queues y ! nat (sc_next (sy_scan y))) = None" by (simp add: seq.front_None_iff)
  with assms(4) scan_step_empty [OF assms(1-3), of h t] \<open>length _ = n\<close> show ?thesis
    by (simp add: reader_turn_def Let_def)
qed

lemma reader_turn_event:
  assumes "scan_ranges n m len (sy_scan y)" and "sc_read (sy_scan y) < m" and "reader_turn h t y = Inr y'"
  defines "s \<equiv> sy_scan y"
  defines "i \<equiv> nat (sc_next s)"
  assumes "queue_list (sc_queues s ! i) = e # es"
  defines "d \<equiv> copy_event_remap_handle h t e (int i)"
  shows "sy_scan y' = s\<lparr>sc_empties := 0, sc_data := (sc_data s)[nat (sc_read s) := d],
      sc_read := (if ev_sensor d = -1 then sc_read s else sc_read s + 1),
      sc_queues := (sc_queues s)[i := dequeue (sc_queues s ! i)], sc_next := (sc_next s + 1) mod int n\<rparr>"
    and "sy_reader y' = sy_reader y" and "sy_max y' = sy_max y" and "queue_list (dequeue (sc_queues s ! i)) = es"
proof -
  have r: "queue_inv (sc_queues s ! i)" "length (sc_queues s) = n" "int i = sc_next s"
    using assms(1) by (auto simp: scan_ranges_def queues_ok_def s_def i_def)
  with assms(6) have p: "peek (sc_queues s ! i) = Some e" by (simp add: seq.front_law)
  show "queue_list (dequeue (sc_queues s ! i)) = es" using r(1) assms(6) by (simp add: seq.deq_law)
  show "sy_scan y' = s\<lparr>sc_empties := 0, sc_data := (sc_data s)[nat (sc_read s) := d],
      sc_read := (if ev_sensor d = -1 then sc_read s else sc_read s + 1),
      sc_queues := (sc_queues s)[i := dequeue (sc_queues s ! i)], sc_next := (sc_next s + 1) mod int n\<rparr>"
    and "sy_reader y' = sy_reader y" and "sy_max y' = sy_max y"
    using assms(3) scan_step_event [OF assms(1,2), of e es h t] assms(6) p r(2,3)
    unfolding reader_turn_def Let_def s_def [symmetric] i_def [symmetric] d_def by (auto simp: set_writer_def)
qed

lemma reader_turn_effect:
  assumes "sys_inv y" and "sy_reader y = RScan" and "in_scan y" and "reader_turn h t y = Inr y'"
  shows "sy_reader y' = RScan \<and> sy_max y' = sy_max y \<and>
    (queue_list (sy_queues y ! nat (sc_next (sy_scan y))) = []
       \<and> map queue_list (sy_queues y') = map queue_list (sy_queues y)
       \<and> sc_read (sy_scan y') = sc_read (sy_scan y) \<and> sc_data (sy_scan y') = sc_data (sy_scan y)
     \<or> (\<exists>i e es d. i = nat (sc_next (sy_scan y)) \<and> i < length (sy_queues y) \<and> queue_list (sy_queues y ! i) = e # es
       \<and> sc_read (sy_scan y) < sy_max y
       \<and> map queue_list (sy_queues y') = (map queue_list (sy_queues y))[i := es]
       \<and> d = copy_event_remap_handle h t e (int i)
       \<and> take (nat (sc_read (sy_scan y'))) (sc_data (sy_scan y'))
         = take (nat (sc_read (sy_scan y))) (sc_data (sy_scan y)) @ (if ev_sensor d = -1 then [] else [d])))"
proof -
  define n s i where "n = length (sy_queues y)" and "s = sy_scan y" and "i = nat (sc_next s)"
  have r: "scan_ranges n (sy_max y) (length (sc_data s)) s" and i: "i < n"
    using assms(1,2) by (auto simp: sys_inv_def n_def i_def s_def)
  have g: "sc_empties s < int n" "sc_read s < sy_max y" using assms(3) by (auto simp: in_scan_def n_def s_def)
  have rd: "0 \<le> sc_read s" "nat (sc_read s) < length (sc_data s)"
    using r g(2) by (auto simp: scan_ranges_def)
  show ?thesis
  proof (cases "queue_list (sc_queues s ! i)")
    case Nil
    with reader_turn_empty [OF r [unfolded s_def] g(1) [unfolded s_def] _ assms(4)] assms(2)
    show ?thesis by (simp add: s_def i_def)
  next
    case (Cons e es)
    define d where "d = copy_event_remap_handle h t e (int i)"
    note y' = reader_turn_event [OF r [unfolded s_def] g(2) [unfolded s_def] assms(4) Cons [unfolded s_def i_def],
        folded s_def, folded i_def, folded d_def]
    have "take (nat (sc_read (sy_scan y'))) (sc_data (sy_scan y'))
        = take (nat (sc_read s)) (sc_data s) @ (if ev_sensor d = -1 then [] else [d])"
      using rd take_update_snoc [OF rd(2)] by (simp add: y'(1) nat_add_distrib)
    with y' i g assms(2) Cons show ?thesis
      by (intro conjI disjI2 exI [of _ i] exI [of _ e] exI [of _ es] exI [of _ d])
        (simp_all add: n_def s_def d_def i_def map_update)
  qed
qed

lemma mb_match_turn:
  assumes "mb_match h t n y a" and "sy_reader y = RScan" and "in_scan y" and "reader_turn h t y = Inr y'"
    and "sys_inv y'"
  shows "\<exists>a'. (a' = a \<or> mb_step h t n a [] a') \<and> mb_match h t n y' a'"
proof -
  have m: "sys_inv y" "length (sy_queues y) = n" "\<And>j. j < n \<Longrightarrow> mb_waiting a j = queue_list (sy_queues y ! j)"
    "mb_limit a = Some (sy_max y)"
    "take (nat (sc_read (sy_scan y))) (sc_data (sy_scan y)) = delivered h t (mb_batch a)"
    using assms(1,2) by (auto simp: mb_match_def)
  note eff = reader_turn_effect [OF m(1) assms(2-4)]
  then have y': "sy_reader y' = RScan" "sy_max y' = sy_max y" by blast+
  from eff [THEN conjunct2, THEN conjunct2] show ?thesis
  proof (elim disjE exE conjE)
    assume "map queue_list (sy_queues y') = map queue_list (sy_queues y)"
      and "sc_read (sy_scan y') = sc_read (sy_scan y)" and "sc_data (sy_scan y') = sc_data (sy_scan y)"
    with mb_match_frame [OF assms(1,5)] y' assms(2) show ?thesis by auto
  next
    fix i e es d
    assume i: "i < length (sy_queues y)" "queue_list (sy_queues y ! i) = e # es"
      and r: "sc_read (sy_scan y) < sy_max y"
      and q: "map queue_list (sy_queues y') = (map queue_list (sy_queues y))[i := es]"
      and d: "d = copy_event_remap_handle h t e (int i)"
        "take (nat (sc_read (sy_scan y'))) (sc_data (sy_scan y'))
         = take (nat (sc_read (sy_scan y))) (sc_data (sy_scan y)) @ (if ev_sensor d = -1 then [] else [d])"
    let ?a = "a\<lparr>mb_waiting := (mb_waiting a)(i := es), mb_batch := mb_batch a @ [(i, e)]\<rparr>"
    have "0 < sy_max y" using m(1) assms(2) by (simp add: sys_inv_def)
    then have "int (length (delivered h t (mb_batch a))) < sy_max y"
      using r m(5) [symmetric] by simp
    with i m have "mb_step h t n a [] ?a" by (intro mb_step.take_one) auto
    moreover have len: "length (sy_queues y') = n" using m(2) arg_cong [OF q, of length] by simp
    have "queue_list (sy_queues y' ! j) = (if j = i then es else queue_list (sy_queues y ! j))" if "j < n" for j
      using that i m(2) len arg_cong [OF q, of "\<lambda>xs. xs ! j"] by (auto simp: nth_list_update)
    with m d y' len assms(5) have "mb_match h t n y' ?a"
      by (auto simp: mb_match_def delivered_snoc Let_def)
    ultimately show ?thesis by blast
  qed
qed

lemma mb_match_return:
  assumes "mb_match h t n y a" and "sy_reader y = RScan" and "\<not> in_scan y" and "sc_read (sy_scan y) \<noteq> 0"
  shows "mb_step h t n a [Returned (take (nat (sc_read (sy_scan y))) (sc_data (sy_scan y)))] (a\<lparr>mb_limit := None\<rparr>)"
proof -
  have m: "sys_inv y" "length (sy_queues y) = n" "\<And>j. j < n \<Longrightarrow> mb_waiting a j = queue_list (sy_queues y ! j)"
    "mb_limit a = Some (sy_max y)"
    "take (nat (sc_read (sy_scan y))) (sc_data (sy_scan y)) = delivered h t (mb_batch a)"
    using assms(1,2) by (auto simp: mb_match_def)
  have r: "scan_ranges n (sy_max y) (length (sc_data (sy_scan y))) (sy_scan y)" "scan_empties n (sy_scan y)"
    using m(1,2) assms(2) by (auto simp: sys_inv_def)
  then have rd: "0 \<le> sc_read (sy_scan y)" "sc_read (sy_scan y) \<le> sy_max y"
      "sc_read (sy_scan y) \<le> int (length (sc_data (sy_scan y)))"
    by (auto simp: scan_ranges_def)
  have len: "int (length (delivered h t (mb_batch a))) = sc_read (sy_scan y)"
    unfolding m(5) [symmetric] using rd by simp
  have "sc_read (sy_scan y) = sy_max y \<or> (\<forall>j<n. mb_waiting a j = [])"
    using assms(3) m(2,3) rd(2) scan_empties_all [OF r] by (auto simp: in_scan_def)
  moreover have "delivered h t (mb_batch a) \<noteq> []" using len assms(4) by auto
  ultimately show ?thesis unfolding m(5) using len m(4) by (intro mb_step.give) auto
qed

lemma mb_match_post:
  assumes "mb_match h t n y a" and "j < length (sy_writers y)" and "sy_writers y ! j = WMark off events"
    and "sys_inv (mark_section j events y)"
  shows "\<exists>a'. mb_step h t n a [Posted j events] a' \<and> mb_match h t n (mark_section j events y) a'"
proof -
  have inv: "sys_inv y" "length (sy_queues y) = n" using assms(1) by (auto simp: mb_match_def)
  note D = sys_inv_D [OF inv(1) assms(2)]
  have w: "region_ok (sy_queues y ! j) off (int (length events))"
    "pending (sy_queues y ! j) off (int (length events)) = events" using D(3) assms(3) by auto
  have q: "queue_list (markAsWritten (sy_queues y ! j) (int (length events))) = queue_list (sy_queues y ! j) @ events"
    using seq.mark_law [OF D(2) w(1), of "int (length events)"] w(2) by auto
  let ?a = "a\<lparr>mb_waiting := (mb_waiting a)(j := mb_waiting a j @ events)\<rparr>"
  have "mb_step h t n a [Posted j events] ?a" by (rule mb_step.post) (use D(1) inv(2) in simp)
  moreover have "mb_match h t n (mark_section j events y) ?a"
    using assms(1,4) q D(1) by (auto simp: mb_match_def mark_section_def Let_def set_simps nth_list_update)
  ultimately show ?thesis by blast
qed

lemma mb_match_step:
  assumes "mb_match h t n y a" and "step h t y new y'"
  shows "\<exists>a'. (new = [] \<and> a' = a \<or> mb_step h t n a new a') \<and> mb_match h t n y' a'"
proof -
  have inv: "sys_inv y" "length (sy_queues y) = n" using assms(1) by (auto simp: mb_match_def)
  have inv': "sys_inv y'" by (rule step_inv [OF assms(2) inv(1)])
  note frame = mb_match_frame [OF assms(1) inv']
  have internal: ?thesis if "new = []" "map queue_list (sy_queues y') = map queue_list (sy_queues y)"
    "sy_reader y' = RIdle \<longleftrightarrow> sy_reader y = RIdle" "sy_max y' = sy_max y"
    "sc_read (sy_scan y') = sc_read (sy_scan y)" "sc_data (sy_scan y') = sc_data (sy_scan y)"
    using that frame by blast
  from assms(2) show ?thesis
  proof (cases rule: step.cases)
    case (writer_lock j)
    then show ?thesis
      by (intro internal) (auto simp: writer_section_def Let_def set_writer_def split: prod.split)
  next
    case (writer_store j off len events q)
    have "queue_list q = queue_list (sy_queues y ! j)" "j < length (sy_queues y)"
      using writer_store_facts(3) [OF inv(1) writer_store(3,4,6,7)] sys_inv_D(1) [OF inv(1) writer_store(3)] by auto
    with writer_store(1,2) show ?thesis
      by (intro internal) (auto simp: set_simps map_update list_update_same_conv)
  next
    case (writer_mark j off events)
    with mb_match_post [OF assms(1) writer_mark(3,4)] inv' show ?thesis by auto
  next
    case (reader_call m data)
    then have "mb_step h t n a new (a\<lparr>mb_limit := Some m, mb_batch := []\<rparr>)"
      using assms(1) unfolding reader_call(1) by (intro mb_step.call) (auto simp: mb_match_def)
    moreover have "mb_match h t n y' (a\<lparr>mb_limit := Some m, mb_batch := []\<rparr>)"
      using assms(1) inv' by (simp add: mb_match_def reader_call(2) delivered_def)
    ultimately show ?thesis by blast
  next
    case reader_step
    with mb_match_turn [OF assms(1)] inv' show ?thesis by auto
  next
    case reader_return
    then have "mb_step h t n a new (a\<lparr>mb_limit := None\<rparr>)"
      using mb_match_return [OF assms(1)] by simp
    moreover have "mb_match h t n y' (a\<lparr>mb_limit := None\<rparr>)"
      using assms(1) inv' by (auto simp: mb_match_def reader_return(2))
    ultimately show ?thesis by blast
  qed (rule internal; simp add: set_writer_def)+
qed

lemma mb_match_start:
  assumes "fresh_context ctx"
  shows "mb_match h t (length (queues ctx)) (system_start ctx) mb_start"
proof -
  have "sys_inv (system_start ctx)" using assms by (auto simp: fresh_context_def intro!: system_start_inv)
  with assms show ?thesis
    by (auto simp: mb_match_def system_start_def mb_start_def queue_list_def fresh_context_def)
qed

interpretation mailbox: step_refinement "\<lambda>y. fresh_context ctx \<and> y = system_start ctx" "step h t"
    "\<lambda>a. a = mb_start" "mb_step h t (length (queues ctx))" "mb_match h t (length (queues ctx))" for h t ctx
  by unfold_locales (simp add: mb_match_start, rule mb_match_step)

section \<open>A run in which one event passes\<close>

lemma fresh_queue_write:
  assumes "queue_inv q" and "queue_list q = []" and "mSize q = 0"
  shows "\<exists>len off q1. mSize q \<noteq> mCapacity q \<and> getWritableRegion q SENSOR_EVENT_QUEUE_CAPACITY = (len, Some off)
    \<and> 1 \<le> len \<and> fillRegion q off [e] = Some q1 \<and> queue_list (markAsWritten q1 1) = [e]"
proof -
  have room: "mSize q \<noteq> mCapacity q" using assms(1,3) by (simp add: queue_inv_def)
  then obtain len off where r: "getWritableRegion q SENSOR_EVENT_QUEUE_CAPACITY = (len, Some off)"
    using getWritableRegion_None [of q SENSOR_EVENT_QUEUE_CAPACITY]
    by (cases "getWritableRegion q SENSOR_EVENT_QUEUE_CAPACITY"; cases "snd (getWritableRegion q SENSOR_EVENT_QUEUE_CAPACITY)")
      (auto simp: SENSOR_EVENT_QUEUE_CAPACITY_def)
  from seq.region_law [OF assms(1) r] have v: "region_ok q off len" "1 \<le> len" by auto
  from seq.fill_law [OF assms(1) v(1), of "[e]"] v(2) obtain q1 where q1: "fillRegion q off [e] = Some q1"
    "queue_inv q1" "region_ok q1 off len" "queue_list q1 = []" "pending q1 off 1 = [e]"
    using assms(2) by auto
  have "queue_list (markAsWritten q1 1) = [e]"
    using seq.mark_law [OF q1(2,3), of 1] q1(4,5) v(2) by simp
  with room r v(2) q1(1) show ?thesis by blast
qed

lemma post_run:
  assumes ctx: "fresh_context ctx"
  shows "\<exists>y. hal_run h t ctx [Posted 0 [e]] y \<and> sy_reader y = RIdle \<and> sc_next (sy_scan y) = 0
    \<and> length (sy_queues y) = length (queues ctx) \<and> queue_list (sy_queues y ! 0) = [e] \<and> sy_writers y ! 0 = WStart"
proof -
  let ?E = "hal_run h t ctx"
  define y0 where "y0 = system_start ctx"
  have e0: "?E [] y0" unfolding y0_def by (rule execution.begin_run) (simp add: ctx)
  define q where "q = queues ctx ! 0"
  have n: "0 < length (queues ctx)" "nextReadIndex ctx = 0" using ctx
    by (auto simp: fresh_context_def context_ok_def)
  have "q \<in> set (queues ctx)" unfolding q_def by (rule nth_mem [OF n(1)])
  then have q: "queue_inv q" "queue_list q = []" "mSize q = 0"
    using ctx by (auto simp: fresh_context_def context_ok_def queue_list_def)
  have y0: "sy_writers y0 = map (\<lambda>q. WStart) (queues ctx)" "sy_reader y0 = RIdle" "sy_queues y0 = queues ctx"
      "\<not> waiting_for_data y0" "sc_next (sy_scan y0) = 0"
    by (simp_all add: y0_def system_start_def n)
  obtain len off q1 where r: "mSize q \<noteq> mCapacity q" "getWritableRegion q SENSOR_EVENT_QUEUE_CAPACITY = (len, Some off)" "1 \<le> len"
    "fillRegion q off [e] = Some q1" "queue_list (markAsWritten q1 1) = [e]"
    using fresh_queue_write [OF q] by metis
  define y1 where "y1 = set_writer 0 (WPoll (Some off) len) y0"
  have w: "writer_section 0 y0 = y1"
    using r(1,2) by (simp add: writer_section_def y0 y1_def q_def)
  have e1: "?E [] y1"
    using execution.extend_run [OF e0 step.writer_lock [of 0 y0 h t]] n(1) y0 by (simp add: w)
  define y2 where "y2 = set_writer 0 (WMark off [e]) (set_queue 0 q1 y1)"
  have e2: "?E [] y2"
    using execution.extend_run [OF e1 step.writer_store [of 0 y1 off len "[e]" q1 h t]] n(1) y0 r(3,4)
    by (simp add: y1_def y2_def set_simps q_def)
  define y3 where "y3 = mark_section 0 [e] y2"
  have e3: "?E [Posted 0 [e]] y3"
    using execution.extend_run [OF e2 step.writer_mark [of 0 y2 off "[e]" h t]] n(1) y0
    by (simp add: y1_def y2_def y3_def set_simps)
  moreover have "sy_reader y3 = RIdle" "sc_next (sy_scan y3) = 0" "queue_list (sy_queues y3 ! 0) = [e]"
    "length (sy_queues y3) = length (queues ctx)" "sy_writers y3 ! 0 = WStart"
    using n(1) y0 r(5) by (simp_all add: y1_def y2_def y3_def set_simps mark_section_def Let_def)
  ultimately show ?thesis by blast
qed

text \<open>The framework's call finds it, and one turn of the loop takes it.\<close>

lemma one_event_poll:
  assumes ctx: "fresh_context ctx" and d: "d = copy_event_remap_handle h t e 0" "ev_sensor d \<noteq> -1"
  shows "\<exists>y y'. hal_run h t ctx [Posted 0 [e], Called 1] y \<and> sy_reader y = RScan
    \<and> queue_list (sy_queues y ! 0) = [e] \<and> step h t y [] y' \<and> sys_inv y' \<and> sy_reader y' = RScan \<and> \<not> in_scan y'
    \<and> sc_read (sy_scan y') = 1 \<and> take 1 (sc_data (sy_scan y')) = [d]
    \<and> queue_list (sy_queues y' ! 0) = [] \<and> sy_writers y' ! 0 = WStart"
proof -
  obtain y3 where e3: "hal_run h t ctx [Posted 0 [e]] y3" and y3: "sy_reader y3 = RIdle" "sc_next (sy_scan y3) = 0"
    "length (sy_queues y3) = length (queues ctx)" "queue_list (sy_queues y3 ! 0) = [e]" "sy_writers y3 ! 0 = WStart"
    using post_run [OF ctx, of h t e] by blast
  have n: "0 < length (queues ctx)" using ctx by (simp add: fresh_context_def)
  define y4 where "y4 = y3\<lparr>sy_reader := RScan, sy_max := 1,
      sy_scan := (sy_scan y3)\<lparr>sc_empties := 0, sc_read := 0, sc_data := [e]\<rparr>\<rparr>"
  have f: "sc_next (sy_scan y4) = 0" "sc_read (sy_scan y4) = 0" "sy_max y4 = 1" "sy_writers y4 ! 0 = WStart"
    "queue_list (sy_queues y4 ! 0) = [e]" "length (sy_queues y4) = length (queues ctx)" "sc_empties (sy_scan y4) = 0"
    and scanning: "sy_reader y4 = RScan"
    using y3 by (simp_all add: y4_def)
  have e4: "hal_run h t ctx [Posted 0 [e], Called 1] y4"
    using execution.extend_run [OF e3 step.reader_call [of y3 1 "[e]" h t]] y3(1) by (simp add: y4_def INT_MAX_def)
  have inv4: "sys_inv y4" using mailbox.refines [OF e4] by (auto simp: mb_match_def)
  have scan: "in_scan y4" using f n by (simp add: in_scan_def)
  obtain y5 where y5: "reader_turn h t y4 = Inr y5" "sys_inv y5"
    using reader_turn_inv [OF inv4 scanning scan] by blast
  note effect = reader_turn_effect [OF inv4 scanning scan y5(1)]
  with f d have g: "sy_reader y5 = RScan" "sy_max y5 = 1"
    "take (nat (sc_read (sy_scan y5))) (sc_data (sy_scan y5)) = [d]"
    "map queue_list (sy_queues y5) = (map queue_list (sy_queues y4))[0 := []]"
    by auto
  have "0 \<le> sc_read (sy_scan y5)" "sc_read (sy_scan y5) \<le> 1"
    using y5(2) g(1,2) by (auto simp: sys_inv_def scan_ranges_def)
  moreover have "sc_read (sy_scan y5) \<noteq> 0" using g(3) by auto
  ultimately have r: "sc_read (sy_scan y5) = 1" by linarith
  have "length (sy_queues y5) = length (queues ctx)" using arg_cong [OF g(4), of length] f(6) by simp
  then have "queue_list (sy_queues y5 ! 0) = []"
    using arg_cong [OF g(4), of "\<lambda>xs. xs ! 0"] n f(6) by simp
  moreover have "sy_writers y5 ! 0 = WStart"
    using y5(1) f(1,4) by (auto simp: reader_turn_def Let_def set_writer_def split: sum.splits option.splits if_splits)
  ultimately show ?thesis
    using e4 scanning f(5) step.reader_step [OF scanning scan y5(1)] y5(2) g r
    by (intro exI [of _ y4] exI [of _ y5]) (simp add: in_scan_def)
qed

lemma one_event_run:
  assumes ctx: "fresh_context ctx" and d: "d = copy_event_remap_handle h t e 0" "ev_sensor d \<noteq> -1"
  shows "\<exists>y. hal_run h t ctx [Posted 0 [e], Called 1, Returned [d]] y"
proof -
  obtain y y' where y: "hal_run h t ctx [Posted 0 [e], Called 1] y" "step h t y [] y'"
    "sy_reader y' = RScan" "\<not> in_scan y'" "sc_read (sy_scan y') = 1" "take 1 (sc_data (sy_scan y')) = [d]"
    using one_event_poll [OF assms] by blast
  have "hal_run h t ctx [Posted 0 [e], Called 1] y'" using execution.extend_run [OF y(1,2)] by simp
  from execution.extend_run [OF this step.reader_return [of y' h t]] y(3-6) show ?thesis by auto
qed

lemma demo_remap: "demo_reading 2 ty = copy_event_remap_handle demo_h (tables demo_started) (demo_reading 7 ty) 0"
  if "ty \<noteq> 0"
  using that by (simp add: copy_event_remap_handle_def demo_reading_def demo_h_def demo_started_def
      initial_tables_def get_global_handle_def assign_global_handle_def Let_def)

lemma demo_run: "\<exists>y. hal_run demo_h (tables demo_started) demo_ctx
    [Posted 0 [demo_reading 7 1], Called 1, Returned [demo_reading 2 1]] y"
  using one_event_run [OF demo_fresh demo_remap [of 1]] by (simp add: demo_reading_def)

text \<open>An event that was returned was posted.\<close>

lemma returned_mem:
  assumes "hal_run h t ctx obs y" and "d \<in> set (returned obs)"
  shows "\<exists>e j. e \<in> set (posted obs j) \<and> d = copy_event_remap_handle h t e (int j) \<and> ev_sensor d \<noteq> -1"
proof (rule mailbox.transfer [OF assms(1)])
  fix a assume "mailbox_run h t (length (queues ctx)) obs a"
  from mb_execution_inv [OF this] obtain tr where tr: "returned obs = delivered h t tr"
    "\<And>j. posted obs j = taken_from (tr @ mb_current a) j @ mb_waiting a j"
    by (rule mb_invE) (rule that)
  from assms(2) obtain j e where e: "(j, e) \<in> set tr" "d = copy_event_remap_handle h t e (int j)" "ev_sensor d \<noteq> -1"
    unfolding tr(1) delivered_def by auto
  moreover have "e \<in> set (posted obs j)"
    unfolding tr(2) using e(1) by (simp add: taken_from_append taken_from_mem)
  ultimately show ?thesis by blast
qed

section \<open>Properties\<close>

text \<open>
  C1. The threads, rings, locks and the read index together implement the mailboxes: whatever
  the interleaving, what the sub-HALs and the framework see of a run of the multi-HAL is a run
  of the abstract machine, whose mailboxes hold what the rings hold.
\<close>

theorem threads_refine_mailboxes:
  assumes "hal_run h t ctx obs y"
  shows "\<exists>a. mailbox_run h t (length (queues ctx)) obs a
    \<and> (\<forall>j<length (queues ctx). mb_waiting a j = queue_list (sy_queues y ! j))"
  using mailbox.refines [OF assms] by (auto simp: mb_match_def)

theorem threads_refine_mailboxes_witness:
  "\<exists>a. mailbox_run demo_h (tables demo_started) 2
    [Posted 0 [demo_reading 7 1], Called 1, Returned [demo_reading 2 1]] a"
proof -
  obtain y where "hal_run demo_h (tables demo_started) demo_ctx
      [Posted 0 [demo_reading 7 1], Called 1, Returned [demo_reading 2 1]] y"
    using demo_run by blast
  from threads_refine_mailboxes [OF this]
  obtain a where "mailbox_run demo_h (tables demo_started) (length (queues demo_ctx))
      [Posted 0 [demo_reading 7 1], Called 1, Returned [demo_reading 2 1]] a" by blast
  moreover have "length (queues demo_ctx) = 2" by (simp add: demo_ctx_def)
  ultimately show ?thesis by auto
qed

text \<open>
  C2. End to end, from the sub-HALs' stores to \<open>poll\<close>'s results, over any number of calls: the
  events that the calls returned, in order, are a merge of prefixes of what the sub-HALs posted,
  with the handles made global and the events of unknown handles left out; calls and returns
  alternate and a return has between one event and as many as asked for; and one that has fewer
  than asked for leaves nothing undelivered.
\<close>

theorem poll_returns_what_was_posted:
  assumes "hal_run h t ctx obs y"
  shows "\<exists>tr. returned obs = delivered h t tr \<and> fst ` set tr \<subseteq> {..<length (queues ctx)}
    \<and> (\<forall>j. prefix (taken_from tr j) (posted obs j)) \<and> outstanding obs \<noteq> None
    \<and> (\<forall>obs0 es m. obs = obs0 @ [Returned es] \<and> outstanding obs0 = Some (Some m) \<and> int (length es) < m
        \<longrightarrow> (\<forall>j<length (queues ctx). taken_from tr j = posted obs j))"
proof (rule mailbox.transfer [OF assms])
  fix a assume run: "mailbox_run h t (length (queues ctx)) obs a"
  note last = mb_last_return [OF run]
  from mb_execution_inv [OF run] obtain tr where tr: "outstanding obs = Some (mb_limit a)"
    "returned obs = delivered h t tr" "fst ` set (tr @ mb_current a) \<subseteq> {..<length (queues ctx)}"
    "\<And>j. posted obs j = taken_from (tr @ mb_current a) j @ mb_waiting a j"
    by (rule mb_invE) (rule that)
  have "taken_from tr j = posted obs j" if "obs = obs0 @ [Returned es]" "outstanding obs0 = Some (Some m)"
    "int (length es) < m" "j < length (queues ctx)" for obs0 es m j
    using last that tr(4) [of j] by (auto simp: taken_from_append)
  moreover have "prefix (taken_from tr j) (posted obs j)" for j
    unfolding tr(4) taken_from_append by (simp add: prefix_def)
  ultimately show ?thesis using tr(1-3) by (intro exI [of _ tr]) auto
qed

theorem poll_returns_what_was_posted_witness:
  "\<exists>tr. [demo_reading 2 1] = delivered demo_h (tables demo_started) tr
    \<and> prefix (taken_from tr 0) [demo_reading 7 1] \<and> prefix (taken_from tr 1) []"
proof -
  obtain y where y: "hal_run demo_h (tables demo_started) demo_ctx
      [Posted 0 [demo_reading 7 1], Called 1, Returned [demo_reading 2 1]] y"
    using demo_run by blast
  have "posted [Posted 0 [demo_reading 7 1], Called 1, Returned [demo_reading 2 1]] 0 = [demo_reading 7 1]"
    "posted [Posted 0 [demo_reading 7 1], Called 1, Returned [demo_reading 2 1]] 1 = []"
    "returned [Posted 0 [demo_reading 7 1], Called 1, Returned [demo_reading 2 1]] = [demo_reading 2 1]"
    by (simp_all add: posted_def returned_def)
  with poll_returns_what_was_posted [OF y] show ?thesis by metis
qed

text \<open>
  C3. The parts together: when every sub-HAL opens and reports as many sensors on both calls, every event other than
  a metadata event that \<open>poll\<close> ever returns to the framework carries the handle of an entry of the sensor list
  the framework was given, and is otherwise a reading that the sub-HAL owning that entry's sensor
  posted for that sensor.
\<close>

theorem readings_name_their_sensor:
  assumes "open_sensors h env name initial_multihal = Inr (ctx, st1)"
    and "sub_hw_modules st1 = Some mods"
    and "\<forall>m\<in>set mods. module_open env m name \<noteq> None"
    and "\<forall>m\<in>set mods. length (module_sensors env m 0) = length (module_sensors env m 1)"
    and "module__get_sensors_list h env st1 = Inr (count, Some sensors, st2)"
    and "hal_run h (tables st2) ctx obs y"
    and "d \<in> set (returned obs)" and "ev_type d \<noteq> SENSOR_TYPE_META_DATA h"
  shows "\<exists>k<length sensors. \<exists>j<length mods. \<exists>s e. listed_sensors env mods ! k = (mods ! j, s)
    \<and> s_handle (sensors ! k) = ev_sensor d
    \<and> e \<in> set (posted obs j) \<and> ev_sensor e = s_handle s \<and> d = e\<lparr>ev_sensor := s_handle (sensors ! k)\<rparr>"
proof (rule startup_state [OF assms(1-4)])
  fix st vs
  assume st: "module__get_sensors_list h env st1 =
      Inr (int (length (listed_sensors env mods)), Some (startup_list h vs env mods), st)"
    "tables st = startup_tables env mods"
  let ?t = "startup_tables env mods"
  from st assms(5) have eqs: "sensors = startup_list h vs env mods" "tables st2 = ?t" by auto
  obtain e j where e: "e \<in> set (posted obs j)" "d = copy_event_remap_handle h ?t e (int j)" "ev_sensor d \<noteq> -1"
    using returned_mem [OF assms(6,7)] eqs(2) by auto
  have "ev_type e \<noteq> SENSOR_TYPE_META_DATA h" using e(2) assms(8) by (auto simp: copy_event_remap_handle_def)
  then have d: "d = e\<lparr>ev_sensor := get_global_handle ?t (FullHandle (int j) (ev_sensor e))\<rparr>"
    using e(2) by (simp add: copy_event_remap_handle_def)
  with e(3) obtain g where g: "full_to_global ?t (FullHandle (int j) (ev_sensor e)) = Some g" "ev_sensor d = g"
    by (auto simp: get_global_handle_def split: option.splits)
  have full: "global_to_full ?t g = Some (FullHandle (int j) (ev_sensor e))"
    by (rule tables_inv_back [OF startup_tables_inv g(1)])
  from startup_tables_dom [OF this] have k: "nat (g - 1) < length (listed_sensors env mods)" "int (nat (g - 1)) + 1 = g"
    by auto
  obtain i m s where s: "listed_sensors env mods ! nat (g - 1) = (m, s)" "i < length mods" "m = mods ! i"
      "startup_list h vs env mods ! nat (g - 1) = global_entry h vs (m, s) g"
      "global_to_full ?t g = Some (FullHandle (int i) (s_handle s))"
    by (rule startup_entry [OF k(1), unfolded k(2)])
  with full have "i = j" "s_handle s = ev_sensor e" by auto
  with s e(1) d g k(1) show ?thesis
    by (intro exI [of _ "nat (g - 1)"] conjI exI [of _ j] exI [of _ s] exI [of _ e])
      (simp_all add: eqs startup_list_length global_entry_def)
qed

theorem readings_name_their_sensor_witness:
  "\<exists>ctx st1 count sensors st2 y k s. open_sensors demo_h demo_env ''hal'' initial_multihal = Inr (ctx, st1)
    \<and> module__get_sensors_list demo_h demo_env st1 = Inr (count, Some sensors, st2)
    \<and> hal_run demo_h (tables st2) ctx [Posted 0 [demo_reading 7 1], Called 1, Returned [demo_reading 2 1]] y
    \<and> k < length sensors \<and> s_handle (sensors ! k) = 2
    \<and> listed_sensors demo_env [10] ! k = (10, s) \<and> s_handle s = 7"
proof -
  let ?obs = "[Posted 0 [demo_reading 7 1], Called 1, Returned [demo_reading 2 1]]"
  obtain ctx st1 where o: "open_sensors demo_h demo_env ''hal'' initial_multihal = Inr (ctx, st1)"
    and m: "sub_hw_modules st1 = Some [10]"
    by (simp add: open_sensors_def lazy_init_modules_def get_so_paths_def Let_def
        demo_env_def initial_multihal_def)
  have h: "\<forall>m\<in>set [10]. module_open demo_env m ''hal'' \<noteq> None"
    "\<forall>m\<in>set [10]. length (module_sensors demo_env m 0) = length (module_sensors demo_env m 1)"
    by (simp_all add: demo_env_10)
  have q: "queues ctx \<noteq> []" using o
    by (auto simp: open_sensors_def lazy_init_modules_def get_so_paths_def Let_def
        demo_env_def initial_multihal_def addSubHwDevice_def)
  obtain count sensors st2 where g: "module__get_sensors_list demo_h demo_env st1 = Inr (count, Some sensors, st2)"
    "tables st2 = startup_tables demo_env [10]"
    by (rule startup_state [OF o m h]) blast
  have "demo_reading 2 1 = copy_event_remap_handle demo_h (tables st2) (demo_reading 7 1) 0"
    by (simp add: g(2) startup_tables_def module_pairs_def demo_env_10 copy_event_remap_handle_def
        demo_reading_def demo_h_def demo_sensor_def initial_tables_def get_global_handle_def
        assign_global_handle_def Let_def)
  from one_event_run [OF open_sensors_fresh [OF o q] this]
  obtain y where y: "hal_run demo_h (tables st2) ctx ?obs y" by (auto simp: demo_reading_def)
  have "demo_reading 2 1 \<in> set (returned ?obs)" "ev_type (demo_reading 2 1) \<noteq> SENSOR_TYPE_META_DATA demo_h"
    by (simp_all add: returned_def demo_reading_def demo_h_def)
  from readings_name_their_sensor [OF o m h g(1) y this] o g(1) y show ?thesis
    by (fastforce simp: posted_def demo_reading_def)
qed

end
