(* ===== verification/SensorInts.thy ===== *)
theory SensorInts
  imports SensorThreads "HOL-Library.Monad_Syntax"
begin

text \<open>
  The C types of the sensor event path. Its variables are \<open>int\<close>s, and an \<open>int\<close> operation whose
  result does not fit is undefined in C++. The theory states the index arithmetic of
  \<^verbatim>\<open>sensors/SensorEventQueue.cpp\<close> and of \<open>poll\<close> once more with every operation checked, \<open>None\<close> being
  the undefined one, and shows that no reachable state of the threads meets it: the integers of
  the other theories are the values the machine computes.
\<close>

section \<open>Checked operations\<close>

definition c_int :: "int \<Rightarrow> int option" where
  "c_int i = (if in_int_range i then Some i else None)"

definition c_add :: "int \<Rightarrow> int \<Rightarrow> int option" where
  "c_add a b = c_int (a + b)"

definition c_sub :: "int \<Rightarrow> int \<Rightarrow> int option" where
  "c_sub a b = c_int (a - b)"

definition c_rem :: "int \<Rightarrow> int \<Rightarrow> int option" where
  "c_rem a b = (if b = 0 \<or> a = INT_MIN \<and> b = -1 then None else c_int (a smod b))"

lemmas c_defs = c_add_def c_sub_def c_rem_def c_int_def in_int_range_def

section \<open>The code with checked operations\<close>

definition getWritableRegion_c :: "'e sensor_queue \<Rightarrow> int \<Rightarrow> (int \<times> int option) option" where
  "getWritableRegion_c q requestedLength =
     (if mSize q = mCapacity q \<or> requestedLength \<le> 0 then Some (0, None)
      else do {
        used \<leftarrow> c_add (mStart q) (mSize q);
        firstWritable \<leftarrow> c_rem used (mCapacity q);
        past \<leftarrow> c_add firstWritable requestedLength;
        lastWritable \<leftarrow> c_sub past 1;
        lastSlot \<leftarrow> c_sub (mCapacity q) 1;
        let lastWritable = (if lastWritable > lastSlot then lastSlot else lastWritable);
        lastWritable \<leftarrow> (if firstWritable < mStart q \<and> lastWritable \<ge> mStart q
                        then c_sub (mStart q) 1 else Some lastWritable);
        distance \<leftarrow> c_sub lastWritable firstWritable;
        len \<leftarrow> c_add distance 1;
        Some (len, Some firstWritable)
      })"

definition markAsWritten_c :: "'e sensor_queue \<Rightarrow> int \<Rightarrow> 'e sensor_queue option" where
  "markAsWritten_c q count = do { size \<leftarrow> c_add (mSize q) count; Some (q\<lparr>mSize := size\<rparr>) }"

definition dequeue_c :: "'e sensor_queue \<Rightarrow> 'e sensor_queue option" where
  "dequeue_c q =
     (if mSize q = 0 then Some q
      else do {
        size \<leftarrow> c_sub (mSize q) 1;
        after \<leftarrow> c_add (mStart q) 1;
        start \<leftarrow> c_rem after (mCapacity q);
        Some (q\<lparr>mSize := size, mStart := start\<rparr>)
      })"

definition scan_step_c ::
    "sensors_h \<Rightarrow> handle_tables \<Rightarrow> int \<Rightarrow> scan_state \<Rightarrow> (fault + scan_state) option" where
  "scan_step_c h t queueCount s =
     (if sc_next s < 0 \<or> sc_next s \<ge> int (length (sc_queues s)) then Some (Inl OutOfRange)
      else
        let i = sc_next s; queue = sc_queues s ! nat i in
        (case peek queue of
           None \<Rightarrow> do {
             empties \<leftarrow> c_add (sc_empties s) 1;
             after \<leftarrow> c_add i 1;
             next' \<leftarrow> c_rem after queueCount;
             Some (Inr (s\<lparr>sc_empties := empties, sc_next := next'\<rparr>)) }
         | Some event \<Rightarrow>
             if sc_read s < 0 \<or> sc_read s \<ge> int (length (sc_data s)) then Some (Inl OutOfBounds)
             else
               let d = copy_event_remap_handle h t event i in
               do {
                 read' \<leftarrow> (if ev_sensor d = -1 then Some (sc_read s) else c_add (sc_read s) 1);
                 queue' \<leftarrow> dequeue_c queue;
                 after \<leftarrow> c_add i 1;
                 next' \<leftarrow> c_rem after queueCount;
                 Some (Inr (s\<lparr>sc_empties := 0, sc_data := (sc_data s)[nat (sc_read s) := d], sc_read := read',
                              sc_queues := (sc_queues s)[nat i := queue'], sc_next := next'\<rparr>)) }))"

section \<open>The values are in range\<close>

text \<open>The type of a queue, of the state of the threads and of the variables of \<open>poll\<close>.\<close>

definition queue_typed :: "'e sensor_queue \<Rightarrow> bool" where
  "queue_typed q \<longleftrightarrow> in_int_range (mCapacity q) \<and> in_int_range (mStart q) \<and> in_int_range (mSize q)"

fun writer_typed :: "writer_pc \<Rightarrow> bool" where
  "writer_typed (WPoll out bufferSize) \<longleftrightarrow> in_int_range bufferSize \<and> pred_option in_int_range out"
| "writer_typed (WMark off events) \<longleftrightarrow> in_int_range off \<and> in_int_range (int (length events))"
| "writer_typed w \<longleftrightarrow> True"

definition sys_typed :: "hal_system \<Rightarrow> bool" where
  "sys_typed y \<longleftrightarrow> list_all queue_typed (sy_queues y) \<and> list_all writer_typed (sy_writers y)
     \<and> in_int_range (sc_next (sy_scan y)) \<and> in_int_range (sc_empties (sy_scan y))
     \<and> in_int_range (sc_read (sy_scan y)) \<and> in_int_range (sy_max y)"

lemma c_ok: "in_int_range (a + b) \<Longrightarrow> c_add a b = Some (a + b)"
  "in_int_range (a - b) \<Longrightarrow> c_sub a b = Some (a - b)"
  by (simp_all add: c_add_def c_sub_def c_int_def)

lemma c_rem_ok: "0 \<le> a \<Longrightarrow> 0 < b \<Longrightarrow> b \<le> INT_MAX \<Longrightarrow> c_rem a b = Some (a smod b)"
  by (simp add: c_rem_def c_int_def in_int_range_def INT_MIN_def smod_eq_mod)
    (smt (verit, best) pos_mod_bound pos_mod_sign)

text \<open>A queue of the size the module uses, in its invariant.\<close>

definition small_queue :: "'e sensor_queue \<Rightarrow> bool" where
  "small_queue q \<longleftrightarrow> queue_inv q \<and> mCapacity q = SENSOR_EVENT_QUEUE_CAPACITY"

lemma small_queueD:
  assumes "small_queue q"
  shows "mCapacity q = 36" "0 \<le> mStart q" "mStart q < 36" "0 \<le> mSize q" "mSize q \<le> 36"
  using assms by (auto simp: small_queue_def queue_inv_def SENSOR_EVENT_QUEUE_CAPACITY_def)

lemma small_queue_typed: "small_queue q \<Longrightarrow> queue_typed q"
  using small_queueD [of q] by (auto simp: queue_typed_def in_int_range_def INT_MIN_def INT_MAX_def)

lemma c_small: "\<bar>i\<bar> \<le> 1000 \<Longrightarrow> c_int i = Some i"
  by (simp add: c_int_def in_int_range_def INT_MIN_def INT_MAX_def abs_le_iff)

lemma getWritableRegion_c_ok:
  assumes "small_queue q"
  shows "getWritableRegion_c q SENSOR_EVENT_QUEUE_CAPACITY = Some (getWritableRegion q SENSOR_EVENT_QUEUE_CAPACITY)"
proof -
  note q = small_queueD [OF assms]
  define f where "f = (mStart q + mSize q) smod 36"
  have f: "0 \<le> f" "f < 36" "c_rem (mStart q + mSize q) 36 = Some f"
    using q c_rem_ok [of "mStart q + mSize q" 36] by (simp_all add: f_def smod_eq_mod INT_MAX_def)
  have sum: "c_add (mStart q) (mSize q) = Some (mStart q + mSize q)"
    using q by (simp add: c_add_def c_small)
  have past: "c_add f 36 = Some (f + 36)" "c_sub (f + 36) 1 = Some (f + 35)" "c_sub 36 1 = Some 35"
      "c_sub (mStart q) 1 = Some (mStart q - 1)"
    using f q by (simp_all add: c_add_def c_sub_def c_small)
  have len: "Option.bind (c_sub l f) (\<lambda>d. Option.bind (c_add d 1) k) = k (l - f + 1)"
    if "-1 \<le> l" "l \<le> 35" for l and k :: "int \<Rightarrow> (int \<times> int option) option"
    using that f by (simp add: c_add_def c_sub_def c_small)
  show ?thesis
    using f(1,2) q(2,3) unfolding getWritableRegion_c_def getWritableRegion_def q(1) SENSOR_EVENT_QUEUE_CAPACITY_def
      sum bind.bind_lunit f(3) past Let_def f_def [symmetric]
    by (auto simp: len past)
qed

lemma markAsWritten_c_ok:
  "small_queue q \<Longrightarrow> 0 \<le> k \<Longrightarrow> mSize q + k \<le> mCapacity q \<Longrightarrow> markAsWritten_c q k = Some (markAsWritten q k)"
  using small_queueD [of q] by (simp add: markAsWritten_c_def markAsWritten_def c_add_def c_small)

lemma dequeue_c_ok:
  assumes "small_queue q"
  shows "dequeue_c q = Some (dequeue q)"
  using small_queueD [OF assms] c_rem_ok [of "mStart q + 1" 36]
  by (simp add: dequeue_c_def dequeue_def dequeue_signal_def c_add_def c_sub_def c_small INT_MAX_def)

lemma scan_step_c_ok:
  assumes "scan_ranges n m len s" and "list_all small_queue (sc_queues s)" and "int n \<le> INT_MAX" "m \<le> INT_MAX"
    and "sc_empties s < int n" "sc_read s < m"
  shows "scan_step_c h t (int n) s = Some (scan_step h t (int n) s)"
proof -
  have r: "0 \<le> sc_next s" "sc_next s < int n" "length (sc_queues s) = n" "0 \<le> sc_empties s" "0 \<le> sc_read s"
    using assms(1) by (auto simp: scan_ranges_def queues_ok_def)
  have c: "c_add (sc_next s) 1 = Some (sc_next s + 1)" "c_add (sc_empties s) 1 = Some (sc_empties s + 1)"
    "c_add (sc_read s) 1 = Some (sc_read s + 1)"
    using r assms(3-6) by (auto intro!: c_ok simp: in_int_range_def INT_MIN_def)
  have next': "c_rem (sc_next s + 1) (int n) = Some ((sc_next s + 1) smod int n)"
    using r assms(3) by (intro c_rem_ok) auto
  have "small_queue (sc_queues s ! nat (sc_next s))" using assms(2) r by (simp add: list_all_length)
  from dequeue_c_ok [OF this] show ?thesis
    using r(1-3) by (simp add: scan_step_c_def scan_step_def Let_def c next' split: option.split)
qed

section \<open>Reachable states\<close>

definition ints_ok :: "hal_system \<Rightarrow> bool" where
  "ints_ok y \<longleftrightarrow> (\<forall>q\<in>set (sy_queues y). mCapacity q = SENSOR_EVENT_QUEUE_CAPACITY)
     \<and> 0 \<le> sc_empties (sy_scan y) \<and> sc_empties (sy_scan y) \<le> int (length (sy_queues y))
     \<and> 0 \<le> sc_read (sy_scan y) \<and> sc_read (sy_scan y) \<le> sy_max y \<and> sy_max y \<le> INT_MAX"

lemma fill_capacity: "fillRegion q off es = Some q' \<Longrightarrow> mCapacity q' = mCapacity q"
  by (auto simp: fillRegion_def)

lemma same_capacity:
  "mCapacity (markAsWritten q k) = mCapacity q" "mCapacity (dequeue q) = mCapacity q"
  by (simp_all add: markAsWritten_def dequeue_def dequeue_signal_def)

lemma capacity_update:
  "\<forall>q\<in>set qs. mCapacity q = c \<Longrightarrow> j < length qs \<Longrightarrow> mCapacity q = mCapacity (qs ! j) \<Longrightarrow>
     \<forall>q\<in>set (qs[j := q]). mCapacity q = c"
  by (auto dest!: set_update_subset_insert [THEN subsetD])

lemma ints_ok_queue:
  assumes "ints_ok y" and "j < length (sy_queues y)" and "mCapacity q = mCapacity (sy_queues y ! j)"
    and "sy_queues y' = (sy_queues y)[j := q]" and "sc_empties (sy_scan y') = sc_empties (sy_scan y)"
    and "sc_read (sy_scan y') = sc_read (sy_scan y)" and "sy_max y' = sy_max y"
  shows "ints_ok y'"
  using assms(1,4-) capacity_update [OF _ assms(2,3), of SENSOR_EVENT_QUEUE_CAPACITY]
  unfolding ints_ok_def by simp

lemma reader_turn_scan:
  "reader_turn h t y = Inr y' \<Longrightarrow> scan_step h t (int (length (sy_queues y))) (sy_scan y) = Inr (sy_scan y')
     \<and> sy_max y' = sy_max y"
  by (auto simp: reader_turn_def Let_def set_writer_def split: sum.splits option.splits if_splits)

lemma step_ints: "step h t y obs y' \<Longrightarrow> sys_inv y \<Longrightarrow> ints_ok y \<Longrightarrow> ints_ok y'"
proof (induction rule: step.induct)
  case (writer_lock j y)
  then show ?case by (auto simp: ints_ok_def writer_section_def set_writer_def Let_def split: prod.split)
next
  case (writer_store j y off len events q)
  show ?case
    by (rule ints_ok_queue [OF writer_store(7) sys_inv_D(1) [OF writer_store(6,1)]
          fill_capacity [OF writer_store(5)]]) (simp_all add: set_simps)
next
  case (writer_mark j y off events)
  show ?case
    by (rule ints_ok_queue [OF writer_mark(5) sys_inv_D(1) [OF writer_mark(4,1)]
          same_capacity(1) [of _ "int (length events)"]]) (simp_all add: mark_section_def Let_def set_simps)
next
  case (reader_step y y')
  let ?n = "length (sy_queues y)" and ?q = "dequeue (sy_queues y ! nat (sc_next (sy_scan y)))"
  have r: "scan_ranges ?n (sy_max y) (length (sc_data (sy_scan y))) (sy_scan y)" "scan_empties ?n (sy_scan y)"
    and i: "nat (sc_next (sy_scan y)) < ?n"
    using reader_step(1,4) by (auto simp: sys_inv_def)
  have g: "sc_empties (sy_scan y) < int ?n" "sc_read (sy_scan y) < sy_max y"
    using reader_step(2) by (auto simp: in_scan_def)
  obtain s' where s': "scan_step h t (int ?n) (sy_scan y) = Inr s'"
    "scan_ranges ?n (sy_max y) (length (sc_data (sy_scan y))) s'"
    "sc_queues s' = (sy_queues y)[nat (sc_next (sy_scan y)) := ?q]"
    using scan_step_keeps [OF r g, of h t] by blast
  have y': "sy_scan y' = s'" "sy_max y' = sy_max y"
    using reader_turn_scan [OF reader_step(3)] s'(1) by simp_all
  from capacity_update [of "sy_queues y" SENSOR_EVENT_QUEUE_CAPACITY _ ?q, OF _ i same_capacity(2)] reader_step(5) s'(2,3)
  show ?case by (simp add: ints_ok_def y' same_capacity scan_ranges_def)
qed (auto simp: ints_ok_def set_writer_def)

lemma reachable_ints:
  assumes "fresh_context ctx" and "reachable h t ctx y"
  shows "ints_ok y"
  using assms(2)
proof (induction rule: reachable.induct)
  case init
  with assms(1) show ?case
    by (auto simp: ints_ok_def system_start_def fresh_context_def context_ok_def INT_MAX_def)
next
  case (again y obs y')
  then show ?case using step_ints [OF again.hyps(2) reachable_fresh [OF assms(1)]] by blast
qed

lemma reachable_small:
  assumes "fresh_context ctx" and "reachable h t ctx y"
  shows "list_all small_queue (sy_queues y)"
  using reachable_fresh [OF assms] reachable_ints [OF assms]
  by (simp add: list_all_length small_queue_def sys_inv_def queue_ok_def ints_ok_def)

lemma writer_ok_typed: "small_queue q \<Longrightarrow> writer_ok q w \<Longrightarrow> writer_typed w"
  using small_queueD [of q]
  by (cases w) (auto simp: region_ok_def in_int_range_def INT_MIN_def INT_MAX_def split: option.splits)

lemma reachable_typed:
  assumes "fresh_context ctx" and "reachable h t ctx y" and "int (length (queues ctx)) \<le> INT_MAX"
  shows "sys_typed y"
proof -
  have inv: "sys_inv y" by (rule reachable_fresh [OF assms(1,2)])
  note small = reachable_small [OF assms(1,2)]
  have len: "length (sy_writers y) = length (queues ctx)" "length (sy_queues y) = length (queues ctx)"
    using reachable_writers [OF assms(2)] inv by (auto simp: sys_inv_def)
  have "writer_typed (sy_writers y ! j)" if "j < length (sy_writers y)" for j
    using writer_ok_typed sys_inv_D(1,3) [OF inv that] small by (auto simp: list_all_length)
  then have "list_all writer_typed (sy_writers y)" by (simp add: list_all_length)
  moreover have "list_all queue_typed (sy_queues y)"
    using small small_queue_typed by (auto simp: list_all_iff)
  moreover have "in_int_range (sc_next (sy_scan y))" "in_int_range (sc_empties (sy_scan y))"
    "in_int_range (sc_read (sy_scan y))" "in_int_range (sy_max y)"
    using inv reachable_ints [OF assms(1,2)] assms(3) len
    by (auto simp: sys_inv_def ints_ok_def in_int_range_def INT_MIN_def)
  ultimately show ?thesis by (simp add: sys_typed_def)
qed

section \<open>Properties\<close>

text \<open>
  C17. The event path is well typed: in every reachable state of the threads, all values its
  \<open>int\<close> variables hold fit a C \<open>int\<close>, and no operation about to be run on them overflows. The
  checked versions of asking for a region, of marking what a sub-HAL stored, of dequeuing and
  of a turn of \<open>poll\<close>'s loop are defined and agree with the unchecked ones; and the turn leaves
  neither the vector of queues nor the caller's buffer.
\<close>

theorem event_path_ints_in_range:
  assumes "fresh_context ctx" and "reachable h t ctx y" and "int (length (queues ctx)) \<le> INT_MAX"
  shows "sys_typed y
    \<and> (\<forall>q\<in>set (sy_queues y). getWritableRegion_c q SENSOR_EVENT_QUEUE_CAPACITY
          = Some (getWritableRegion q SENSOR_EVENT_QUEUE_CAPACITY) \<and> dequeue_c q = Some (dequeue q))
    \<and> (\<forall>j<length (sy_writers y). \<forall>off events. sy_writers y ! j = WMark off events \<longrightarrow>
          markAsWritten_c (sy_queues y ! j) (int (length events))
            = Some (markAsWritten (sy_queues y ! j) (int (length events))))
    \<and> (sy_reader y = RScan \<and> in_scan y \<longrightarrow>
          (\<exists>s'. scan_step_c h t (int (length (sy_queues y))) (sy_scan y) = Some (Inr s')
            \<and> scan_step h t (int (length (sy_queues y))) (sy_scan y) = Inr s'))"
proof -
  have inv: "sys_inv y" by (rule reachable_fresh [OF assms(1,2)])
  note small = reachable_small [OF assms(1,2)]
  have len: "length (sy_queues y) = length (queues ctx)"
    using reachable_writers [OF assms(2)] inv by (auto simp: sys_inv_def)
  have queues: "\<forall>q\<in>set (sy_queues y). getWritableRegion_c q SENSOR_EVENT_QUEUE_CAPACITY
          = Some (getWritableRegion q SENSOR_EVENT_QUEUE_CAPACITY) \<and> dequeue_c q = Some (dequeue q)"
    using small by (simp add: list_all_iff getWritableRegion_c_ok dequeue_c_ok)
  have marks: "markAsWritten_c (sy_queues y ! j) (int (length events))
      = Some (markAsWritten (sy_queues y ! j) (int (length events)))"
    if j: "j < length (sy_writers y)" "sy_writers y ! j = WMark off events" for j off events
  proof -
    note D = sys_inv_D [OF inv j(1)]
    have "small_queue (sy_queues y ! j)" using small D(1) by (simp add: list_all_length)
    with D(3) j(2) show ?thesis by (intro markAsWritten_c_ok) (auto simp: region_ok_def)
  qed
  have turn: "\<exists>s'. scan_step_c h t (int (length (sy_queues y))) (sy_scan y) = Some (Inr s')
      \<and> scan_step h t (int (length (sy_queues y))) (sy_scan y) = Inr s'" if r: "sy_reader y = RScan" "in_scan y"
  proof -
    have "scan_step_c h t (int (length (sy_queues y))) (sy_scan y)
        = Some (scan_step h t (int (length (sy_queues y))) (sy_scan y))"
    proof (rule scan_step_c_ok [OF _ small])
      show "scan_ranges (length (sy_queues y)) (sy_max y) (length (sc_data (sy_scan y))) (sy_scan y)"
        using inv r(1) by (simp add: sys_inv_def)
    qed (use r(2) assms(3) len reachable_ints [OF assms(1,2)] in \<open>simp_all add: in_scan_def ints_ok_def\<close>)
    moreover obtain y' where "reader_turn h t y = Inr y'" using reader_turn_inv [OF inv r] by blast
    ultimately show ?thesis using reader_turn_scan by fastforce
  qed
  from reachable_typed [OF assms] queues marks turn show ?thesis by blast
qed

theorem event_path_ints_in_range_witness:
  "sys_typed (demo_asleep 0 2 RSleep True)
    \<and> list_all (\<lambda>q. dequeue_c q = Some (dequeue q)) (sy_queues (demo_asleep 0 2 RSleep True))"
  using event_path_ints_in_range [OF demo_fresh demo_asleep_reachable(2)]
  by (simp add: list_all_iff demo_ctx_def INT_MAX_def)

end
