(* ===== verification/SensorProgress.thy ===== *)
theory SensorProgress
  imports SensorInts
begin

text \<open>
  How long \<open>poll\<close> holds the mutex. While it does, a sub-HAL may still store into the region it was
  handed and a writer may wake up, but each thread soon needs the mutex; so the section ends, and
  the number of steps that all threads together can take in it has a bound.
\<close>

section \<open>The measure\<close>

text \<open>The steps that a writer can take without the mutex.\<close>

fun free_steps :: "writer_pc \<Rightarrow> nat" where
  "free_steps WSleep = 1"
| "free_steps (WPoll out len) = 1"
| "free_steps w = 0"

definition section_measure :: "hal_system \<Rightarrow> nat" where
  "section_measure y = scan_measure (length (sy_queues y)) (Inr (sy_scan y)) + sum_list (map free_steps (sy_writers y))"

lemma sum_list_update_le:
  "f w \<le> f (ws ! j) \<Longrightarrow> sum_list (map f (ws[j := w])) \<le> (sum_list (map f ws) :: nat)"
proof (cases "j < length ws")
  case True
  assume le: "f w \<le> f (ws ! j)"
  show ?thesis
  proof (cases "f w = f (ws ! j)")
    case True
    have "(map f ws)[j := f (ws ! j)] = map f ws" using \<open>j < length ws\<close> by (simp add: list_update_same_conv)
    with True show ?thesis by (simp only: map_update)
  next
    case False
    with le have "f w < f (ws ! j)" by simp
    from sum_list_update_less [OF \<open>j < length ws\<close>, of f, OF this] show ?thesis by simp
  qed
qed (simp add: list_update_beyond)

lemma scan_measure_cong:
  assumes "map queue_list (sc_queues s') = map queue_list (sc_queues s)" and "sc_empties s' = sc_empties s"
  shows "scan_measure n (Inr s') = scan_measure n (Inr s)"
proof -
  have "map (\<lambda>q. length (queue_list q)) (sc_queues s') = map (\<lambda>q. length (queue_list q)) (sc_queues s)"
    using arg_cong [OF assms(1), of "map length"] by (simp only: map_map o_def)
  with assms(2) show ?thesis by (simp only: scan_measure_def sum.case)
qed

lemma reader_turn_free:
  assumes "reader_turn h t y = Inr y'"
  shows "sum_list (map free_steps (sy_writers y')) \<le> sum_list (map free_steps (sy_writers y))"
proof -
  have "sy_writers y' = sy_writers y \<or> (\<exists>i. sy_writers y' = (sy_writers y)[i := WWoken])"
    using assms by (auto simp: reader_turn_def Let_def set_writer_def split: sum.splits option.splits if_splits)
  then show ?thesis by (elim disjE exE) (simp_all add: sum_list_update_le)
qed

text \<open>Every step inside the section lowers it.\<close>

lemma section_measure_less:
  assumes "step h t y obs y'" and "sys_inv y" and "sy_reader y = RScan" and "sy_reader y' = RScan"
  shows "section_measure y' < section_measure y"
  using assms(1)
proof (cases rule: step.cases)
  case (writer_spurious j)
  then show ?thesis
    by (simp add: section_measure_def set_writer_def sum_list_update_less)
next
  case (writer_nothing j out len)
  then show ?thesis
    by (simp add: section_measure_def set_writer_def sum_list_update_less)
next
  case (writer_store j off len events q)
  note D = sys_inv_D [OF assms(2) writer_store(3)]
  have "region_ok (sy_queues y ! j) off len" using D(3) writer_store(4) by simp
  from seq.fill_law [OF D(2) this writer_store(6)] writer_store(7)
  have "queue_list q = queue_list (sy_queues y ! j)" by auto
  then have "map queue_list ((sy_queues y)[j := q]) = map queue_list (sy_queues y)"
    using D(1) by (simp add: map_update list_update_same_conv)
  then have "scan_measure (length (sy_queues y)) (Inr (sy_scan y'))
      = scan_measure (length (sy_queues y)) (Inr (sy_scan y))"
    by (intro scan_measure_cong) (simp_all add: writer_store(2) set_simps)
  then show ?thesis
    using writer_store(3,4) by (simp add: section_measure_def writer_store(2) set_simps sum_list_update_less)
next
  case reader_step
  let ?n = "length (sy_queues y)"
  have r: "scan_ranges ?n (sy_max y) (length (sc_data (sy_scan y))) (sy_scan y)"
    using assms(2,3) by (simp add: sys_inv_def)
  have g: "sc_empties (sy_scan y) < int ?n" "sc_read (sy_scan y) < sy_max y"
    using reader_step(3) by (auto simp: in_scan_def)
  have "sum_list (map free_steps (sy_writers y')) \<le> sum_list (map free_steps (sy_writers y))"
    by (rule reader_turn_free [OF reader_step(4)])
  moreover have "length (sy_queues y') = ?n"
    using step_inv [OF assms(1,2)] step_writers [OF assms(1)] assms(2) by (simp add: sys_inv_def)
  ultimately show ?thesis using scan_measure_less [OF r g, of h t] reader_turn_scan [OF reader_step(4)]
    by (simp add: section_measure_def)
qed (use assms in \<open>auto simp: section_measure_def\<close>)

section \<open>The bound\<close>

lemma sum_list_bounded: "(\<And>x. x \<in> set xs \<Longrightarrow> f x \<le> b) \<Longrightarrow> sum_list (map f xs) \<le> length xs * (b :: nat)"
  by (induction xs) (fastforce intro: add_le_mono)+

lemma section_measure_bound:
  assumes "fresh_context ctx" and "reachable h t ctx y"
  shows "section_measure y \<le> length (queues ctx) * (36 * (length (queues ctx) + 1) + 2)"
proof -
  let ?n = "length (queues ctx)"
  have inv: "sys_inv y" by (rule reachable_fresh [OF assms])
  have len: "length (sy_writers y) = ?n" "length (sy_queues y) = ?n"
    using reachable_writers [OF assms(2)] inv by (auto simp: sys_inv_def)
  have "length (queue_list q) \<le> 36" if "q \<in> set (sy_queues y)" for q
    using reachable_small [OF assms] that small_queueD [of q] by (auto simp: list_all_iff)
  then have "sum_list (map (\<lambda>q. length (queue_list q)) (sy_queues y)) \<le> ?n * 36"
    using sum_list_bounded [of "sy_queues y" "\<lambda>q. length (queue_list q)" 36] len by simp
  then have "sum_list (map (\<lambda>q. length (queue_list q)) (sy_queues y)) * (?n + 1) \<le> ?n * 36 * (?n + 1)"
    by (rule mult_le_mono1)
  moreover have "free_steps w \<le> 1" for w by (cases w) simp_all
  then have "sum_list (map free_steps (sy_writers y)) \<le> ?n"
    using sum_list_bounded [of "sy_writers y" free_steps 1] len by simp
  ultimately show ?thesis
    unfolding section_measure_def scan_measure_def sum.case len(2) by (simp add: algebra_simps)
qed

lemma reachable_path:
  assumes "reachable h t ctx (f 0)" and "\<forall>i<k. \<exists>obs. step h t (f i) obs (f (Suc i))" and "i \<le> k"
  shows "reachable h t ctx (f i)"
  using assms(3)
proof (induction i)
  case 0
  show ?case by (rule assms(1))
next
  case (Suc i)
  then have r: "reachable h t ctx (f i)" by simp
  obtain obs where "step h t (f i) obs (f (Suc i))" using assms(2) Suc.prems Suc_le_lessD by blast
  with r show ?case by (rule reachable.again)
qed

lemma section_bounded:
  assumes "fresh_context ctx" and "reachable h t ctx (f 0)"
    and "\<forall>i<k. \<exists>obs. step h t (f i) obs (f (Suc i))" and "\<forall>i\<le>k. sy_reader (f i) = RScan"
  shows "k \<le> length (queues ctx) * (36 * (length (queues ctx) + 1) + 2)"
proof -
  have "i + section_measure (f i) \<le> section_measure (f 0)" if "i \<le> k" for i
    using that
  proof (induction i)
    case (Suc i)
    then have i: "i < k" "i \<le> k" by simp_all
    have "sys_inv (f i)" by (rule reachable_fresh [OF assms(1) reachable_path [OF assms(2,3) i(2)]])
    moreover obtain obs where "step h t (f i) obs (f (Suc i))" using assms(3) i(1) by blast
    moreover have "sy_reader (f i) = RScan" "sy_reader (f (Suc i)) = RScan" using assms(4) Suc.prems by simp_all
    ultimately have "section_measure (f (Suc i)) < section_measure (f i)" using section_measure_less by blast
    with Suc.IH [OF i(2)] show ?case by simp
  qed simp
  from this [of k] section_measure_bound [OF assms(1,2)] show ?thesis by simp
qed

section \<open>Properties\<close>

text \<open>
  C18. \<open>poll\<close> does not keep the mutex: whatever the sub-HALs and the scheduler do meanwhile, all
  threads together can take at most \<open>n (36 (n + 1) + 2)\<close> steps, with \<open>n\<close> sub-HALs, before \<open>poll\<close>
  releases it, by returning or by waiting.
\<close>

theorem poll_releases_the_mutex:
  assumes "fresh_context ctx" and "reachable h t ctx (f 0)"
    and "\<forall>i<k. \<exists>obs. step h t (f i) obs (f (Suc i))" and "\<forall>i\<le>k. sy_reader (f i) = RScan"
  shows "k \<le> length (queues ctx) * (36 * (length (queues ctx) + 1) + 2)"
  by (rule section_bounded [OF assms])

theorem poll_releases_the_mutex_witness:
  "\<exists>f::nat \<Rightarrow> hal_system. reachable demo_h (tables demo_started) demo_ctx (f 0) \<and> sy_reader (f 0) = RScan \<and> sy_reader (f 2) = RScan
    \<and> f 1 \<noteq> f 0 \<and> 2 \<le> length (queues demo_ctx) * (36 * (length (queues demo_ctx) + 1) + 2)"
proof -
  let ?f = "\<lambda>i::nat. if i = 0 then demo_asleep 0 0 RScan False else if i = Suc 0 then demo_asleep 1 1 RScan False
    else demo_asleep 0 2 RScan False"
  have scan: "sy_reader (?f i) = RScan" for i :: nat by (simp add: demo_asleep_def)
  have "\<exists>obs. step demo_h (tables demo_started) (?f i) obs (?f (Suc i))" if "i < 2" for i
    using demo_asleep_steps(2,3) that by (cases i) auto
  then have "2 \<le> length (queues demo_ctx) * (36 * (length (queues demo_ctx) + 1) + 2)"
    using scan demo_asleep_reachable(1)
    by (intro poll_releases_the_mutex [OF demo_fresh, of demo_h "tables demo_started" ?f]) auto
  moreover have "?f 1 \<noteq> ?f 0" by (simp add: demo_asleep_def system_start_def)
  ultimately show ?thesis using scan [of 0] scan [of 2] demo_asleep_reachable(1) by (intro exI [of _ ?f]) auto
qed

end
