(* ===== verification/SensorLiveness.thy ===== *)
theory SensorLiveness
  imports SensorMailbox SensorProgress
begin

text \<open>
  That a \<open>poll\<close> with something to deliver returns, in every infinite run of the threads in which
  the reader is not kept from the mutex for ever. A run is a function from the step numbers to
  the states; the fairness is weak fairness of the one step with which a woken reader takes the
  mutex again. The argument is over the mailboxes: the reader cannot fall asleep while something
  deliverable is in a mailbox or in the buffer, and a section of \<open>poll\<close> ends.
\<close>

section \<open>Something to deliver\<close>

definition due :: "sensors_h \<Rightarrow> handle_tables \<Rightarrow> nat \<Rightarrow> mailboxes \<Rightarrow> bool" where
  "due h t n a \<longleftrightarrow> mb_limit a \<noteq> None \<and> (delivered h t (mb_batch a) \<noteq> []
     \<or> (\<exists>j<n. \<exists>e\<in>set (mb_waiting a j). ev_sensor (copy_event_remap_handle h t e (int j)) \<noteq> -1))"

lemma dueI:
  "mb_limit a \<noteq> None \<Longrightarrow> delivered h t (mb_batch a) \<noteq> [] \<Longrightarrow> due h t n a"
  "mb_limit a \<noteq> None \<Longrightarrow> j < n \<Longrightarrow> e \<in> set (mb_waiting a j) \<Longrightarrow>
    ev_sensor (copy_event_remap_handle h t e (int j)) \<noteq> -1 \<Longrightarrow> due h t n a"
  by (auto simp: due_def)

lemma due_step:
  assumes "mb_step h t n a obs a'" and "due h t n a" and "mb_limit a' \<noteq> None"
  shows "due h t n a'"
proof (cases "delivered h t (mb_batch a) = []")
  case False
  from assms(1) have "delivered h t (mb_batch a') \<noteq> []"
    by (cases rule: mb_step.cases) (use assms(2) False in \<open>auto simp: due_def delivered_snoc Let_def\<close>)
  with assms(3) show ?thesis by (rule dueI(1))
next
  case True
  with assms(2) obtain k x where x: "k < n" "x \<in> set (mb_waiting a k)"
    "ev_sensor (copy_event_remap_handle h t x (int k)) \<noteq> -1" by (auto simp: due_def)
  from assms(1) have "x \<in> set (mb_waiting a' k) \<or> delivered h t (mb_batch a') \<noteq> []"
    by (cases rule: mb_step.cases) (use assms(2,3) x in \<open>auto simp: due_def delivered_snoc Let_def\<close>)
  with x(1,3) assms(3) show ?thesis by (auto intro: dueI)
qed

definition poll_due :: "sensors_h \<Rightarrow> handle_tables \<Rightarrow> nat \<Rightarrow> hal_system \<Rightarrow> bool" where
  "poll_due h t n y \<longleftrightarrow> (\<exists>a. mb_match h t n y a \<and> due h t n a)"

lemma poll_due_awake: "poll_due h t n y \<Longrightarrow> sy_reader y \<noteq> RSleep \<and> sy_reader y \<noteq> RIdle"
  by (auto simp: poll_due_def due_def mb_match_def sys_inv_def)

lemma poll_due_step:
  assumes "poll_due h t n y" and "step h t y obs y'" and "sy_reader y' \<noteq> RIdle"
  shows "poll_due h t n y'"
proof -
  from assms(1) obtain a where a: "mb_match h t n y a" "due h t n a" by (auto simp: poll_due_def)
  from mb_match_step [OF a(1) assms(2)] obtain a'
    where a': "obs = [] \<and> a' = a \<or> mb_step h t n a obs a'" "mb_match h t n y' a'" by blast
  have "mb_limit a' \<noteq> None" using a'(2) assms(3) by (simp add: mb_match_def)
  with a' a(2) due_step show ?thesis unfolding poll_due_def by blast
qed

lemma reachable_match:
  assumes "fresh_context ctx" and "reachable h t ctx y"
  shows "\<exists>a. mb_match h t (length (queues ctx)) y a"
  using assms(2)
proof (induction rule: reachable.induct)
  case init
  show ?case using mb_match_start [OF assms(1)] by blast
next
  case (again y obs y')
  then show ?case using mb_match_step by blast
qed

lemma poll_due_start:
  assumes "fresh_context ctx" and "reachable h t ctx y" and "sy_reader y \<noteq> RIdle"
    and "j < length (queues ctx)" and "e \<in> set (queue_list (sy_queues y ! j))"
    and "ev_sensor (copy_event_remap_handle h t e (int j)) \<noteq> -1"
  shows "poll_due h t (length (queues ctx)) y"
proof -
  obtain a where a: "mb_match h t (length (queues ctx)) y a" using reachable_match [OF assms(1,2)] by blast
  with assms(3-6) have "due h t (length (queues ctx)) a" 
    by (intro dueI(2) [of a j]) (simp_all add: mb_match_def)
  with a show ?thesis unfolding poll_due_def by blast
qed

section \<open>Infinite runs\<close>

definition thread_run :: "sensors_h \<Rightarrow> handle_tables \<Rightarrow> sensors_poll_context \<Rightarrow> (nat \<Rightarrow> hal_system) \<Rightarrow> bool" where
  "thread_run h t ctx f \<longleftrightarrow> reachable h t ctx (f 0) \<and> (\<forall>i. \<exists>obs. step h t (f i) obs (f (Suc i)))"

definition reader_fair :: "(nat \<Rightarrow> hal_system) \<Rightarrow> bool" where
  "reader_fair f \<longleftrightarrow> (\<forall>i. \<exists>k\<ge>i. sy_reader (f k) \<noteq> RWoken)"

lemma thread_run_shift: "thread_run h t ctx f \<Longrightarrow> thread_run h t ctx (\<lambda>k. f (i + k))"
  using reachable_path [of h t ctx f i i] by (simp add: thread_run_def)

text \<open>The reader in its section leaves it.\<close>

lemma section_ends:
  assumes "fresh_context ctx" and "thread_run h t ctx f" and "\<forall>k\<ge>i. sy_reader (f k) = RScan"
  shows False
proof -
  let ?g = "\<lambda>k. f (i + k)"
  have g: "reachable h t ctx (?g 0)" "\<And>k. \<exists>obs. step h t (?g k) obs (?g (Suc k))"
    using thread_run_shift [OF assms(2)] by (simp_all add: thread_run_def)
  let ?k = "Suc (length (queues ctx) * (36 * (length (queues ctx) + 1) + 2))"
  have "?k \<le> length (queues ctx) * (36 * (length (queues ctx) + 1) + 2)"
    using g assms(3) by (intro section_bounded [OF assms(1), of h t ?g ?k]) auto
  then show False by simp
qed

lemma scan_stays_awake:
  "step h t y obs y' \<Longrightarrow> sy_reader y = RScan \<Longrightarrow> sy_reader y' \<noteq> RWoken"
  by (cases rule: step.cases)
    (auto simp: set_simps writer_section_def reader_turn_def mark_section_def Let_def
      split: prod.splits sum.splits option.splits if_splits)

lemma poll_returns:
  assumes ctx: "fresh_context ctx" and run: "thread_run h t ctx f" and fair: "reader_fair f"
    and due: "poll_due h t n (f i)"
  shows "\<exists>k\<ge>i. sy_reader (f k) \<noteq> RIdle \<and> sy_reader (f (Suc k)) = RIdle"
proof (rule ccontr)
  assume never: "\<not> ?thesis"
  have next_step: "\<exists>obs. step h t (f k) obs (f (Suc k))" for k using run by (simp add: thread_run_def)
  have all: "poll_due h t n (f k)" if "i \<le> k" for k
    using that
  proof (induction rule: dec_induct)
    case base
    show ?case by (rule due)
  next
    case (step k)
    from next_step obtain obs where "step h t (f k) obs (f (Suc k))" by blast
    with step never poll_due_awake [OF step.IH] show ?case using poll_due_step by blast
  qed
  obtain k where k: "i \<le> k" "sy_reader (f k) \<noteq> RWoken" using fair by (auto simp: reader_fair_def)
  have "sy_reader (f l) = RScan" if "k \<le> l" for l
    using that
  proof (induction rule: dec_induct)
    case base
    with k poll_due_awake [OF all [OF k(1)]] show ?case by (cases "sy_reader (f k)") auto
  next
    case (step l)
    from next_step obtain obs where "step h t (f l) obs (f (Suc l))" by blast
    with step.IH have "sy_reader (f (Suc l)) \<noteq> RWoken" using scan_stays_awake by blast
    with poll_due_awake [OF all [of "Suc l"]] k(1) step.hyps show ?case
      by (cases "sy_reader (f (Suc l))") auto
  qed
  with section_ends [OF ctx run] show False by blast
qed

text \<open>Only the return of \<open>poll\<close> makes the reader idle.\<close>

lemma idle_by_return:
  assumes "step h t y obs y'" and "sys_inv y" and "sy_reader y \<noteq> RIdle" and "sy_reader y' = RIdle"
  shows "\<exists>es. es \<noteq> [] \<and> obs = [Returned es]"
  using assms(1)
proof (cases rule: step.cases)
  case reader_return
  with assms(2) show ?thesis by (auto simp: sys_inv_def scan_ranges_def)
next
  case reader_step
  with assms(4) show ?thesis
    by (auto simp: set_simps reader_turn_def Let_def split: sum.splits option.splits if_splits)
qed (use assms(3,4) in \<open>auto simp: set_simps writer_section_def mark_section_def Let_def
  split: prod.splits if_splits\<close>)

text \<open>An idle reader and a writer whose sub-HAL has nothing can go on for ever.\<close>

lemma idle_loop:
  assumes "sys_inv y" and "sy_reader y \<noteq> RScan" and "j < length (sy_writers y)" and "sy_writers y ! j = WStart"
    and "queue_list (sy_queues y ! j) = []"
  shows "\<exists>y'. step h t y [] y' \<and> step h t y' [] y \<and> sy_reader y' = sy_reader y"
proof -
  let ?q = "sy_queues y ! j"
  have q: "queue_inv ?q" by (rule sys_inv_D(2) [OF assms(1,3)])
  with assms(5) have "mSize ?q \<noteq> mCapacity ?q"
    using seq.front_None_iff [OF q] by (auto simp: peek_def queue_inv_def split: if_splits)
  then have w: "writer_section j y = set_writer j (WPoll (snd (getWritableRegion ?q SENSOR_EVENT_QUEUE_CAPACITY))
      (fst (getWritableRegion ?q SENSOR_EVENT_QUEUE_CAPACITY))) y" (is "_ = ?y")
    by (simp add: writer_section_def Let_def case_prod_beta)
  have "set_writer j WStart ?y = y" using assms(4) list_update_id [of "sy_writers y" j] by (simp add: set_writer_def)
  moreover have "step h t ?y [] (set_writer j WStart ?y)"
    by (rule step.writer_nothing) (use assms(3) in \<open>auto simp: set_writer_def\<close>)
  moreover have "step h t y [] ?y"
    unfolding w [symmetric] by (rule step.writer_lock) (use assms(2-4) in auto)
  moreover have "sy_reader ?y = sy_reader y" by (simp add: set_writer_def)
  ultimately show ?thesis by auto
qed

lemma hal_run_reachable: "hal_run h t ctx obs y \<Longrightarrow> reachable h t ctx y"
proof (induction rule: execution.induct)
  case (begin_run y)
  then show ?case using reachable.init by simp
next
  case (extend_run obs y new y')
  from extend_run.IH extend_run.hyps(2) show ?case by (rule reachable.again)
qed

text \<open>The run of one event, and after it an idle module.\<close>

lemma demo_thread_run:
  "\<exists>f. thread_run demo_h (tables demo_started) demo_ctx f \<and> reader_fair f \<and> sy_reader (f 0) = RScan
    \<and> queue_list (sy_queues (f 0) ! 0) = [demo_reading 7 1]"
proof -
  let ?t = "tables demo_started" and ?S = "step demo_h (tables demo_started)"
  obtain y y' where y: "hal_run demo_h ?t demo_ctx [Posted 0 [demo_reading 7 1], Called 1] y"
    "sy_reader y = RScan" "queue_list (sy_queues y ! 0) = [demo_reading 7 1]" "?S y [] y'"
    "sys_inv y'" "sy_reader y' = RScan" "\<not> in_scan y'" "sc_read (sy_scan y') = 1"
    "queue_list (sy_queues y' ! 0) = []" "sy_writers y' ! 0 = WStart"
    using one_event_poll [OF demo_fresh demo_remap [of 1]] by (auto simp: demo_reading_def)
  define z where "z = y'\<lparr>sy_reader := RIdle\<rparr>"
  obtain obs where z: "?S y' obs z"
    using step.reader_return [OF y(6,7), of demo_h ?t] y(8) by (auto simp: z_def)
  have "0 < length (sy_writers z)" using y(5) by (auto simp: z_def sys_inv_def)
  with idle_loop [OF step_inv [OF z y(5)], of 0 demo_h ?t] y(9,10)
  obtain z' where z': "?S z [] z'" "?S z' [] z" "sy_reader z' = RIdle"
    by (auto simp: z_def)
  define f where "f i = (if i = 0 then y else if i = 1 then y' else if even i then z else z')" for i :: nat
  have "\<exists>obs. ?S (f i) obs (f (Suc i))" for i
    using y(4) z z'(1,2) by (auto simp: f_def)
  moreover have "sy_reader (f i) \<noteq> RWoken" for i
    using y(2,6) z'(3) by (simp add: f_def z_def)
  then have "reader_fair f" by (auto simp: reader_fair_def)
  ultimately show ?thesis
    using hal_run_reachable [OF y(1)] y(2,3) by (intro exI [of _ f]) (simp add: thread_run_def f_def)
qed

section \<open>Properties\<close>

text \<open>
  C4. A \<open>poll\<close> with something to deliver returns. Take any infinite run of the threads, with any
  stores, wake-ups and scheduling, in which the reader, once woken, does not wait for the mutex
  for ever. If \<open>poll\<close> is in progress, scanning, sleeping or woken, at a point where some ring holds
  an event of a sensor that the framework knows, then some later step is the return of \<open>poll\<close>, with
  at least one event.
\<close>

theorem waiting_poll_returns:
  assumes "fresh_context ctx" and "thread_run h t ctx f" and "reader_fair f"
    and "sy_reader (f i) \<noteq> RIdle" and "j < length (queues ctx)" and "e \<in> set (queue_list (sy_queues (f i) ! j))"
    and "ev_sensor (copy_event_remap_handle h t e (int j)) \<noteq> -1"
  shows "\<exists>k\<ge>i. \<exists>es. es \<noteq> [] \<and> step h t (f k) [Returned es] (f (Suc k))"
proof -
  have r: "reachable h t ctx (f k)" for k
    using assms(2) reachable_path [of h t ctx f k k] by (simp add: thread_run_def)
  from poll_returns [OF assms(1-3) poll_due_start [OF assms(1) r assms(4-7)]]
  obtain k where k: "i \<le> k" "sy_reader (f k) \<noteq> RIdle" "sy_reader (f (Suc k)) = RIdle" by blast
  obtain obs where "step h t (f k) obs (f (Suc k))" using assms(2) unfolding thread_run_def by blast
  with idle_by_return [OF this reachable_fresh [OF assms(1) r] k(2,3)] k(1) show ?thesis by blast
qed

theorem waiting_poll_returns_witness:
  "\<exists>f k es. thread_run demo_h (tables demo_started) demo_ctx f \<and> reader_fair f
    \<and> queue_list (sy_queues (f 0) ! 0) = [demo_reading 7 1]
    \<and> es \<noteq> [] \<and> step demo_h (tables demo_started) (f k) [Returned es] (f (Suc k))"
proof -
  obtain f where f: "thread_run demo_h (tables demo_started) demo_ctx f" "reader_fair f" "sy_reader (f 0) = RScan"
    "queue_list (sy_queues (f 0) ! 0) = [demo_reading 7 1]"
    using demo_thread_run by blast
  have "ev_sensor (copy_event_remap_handle demo_h (tables demo_started) (demo_reading 7 1) (int 0)) \<noteq> -1"
    using arg_cong [OF demo_remap [of 1], of ev_sensor] by (simp add: demo_reading_def)
  with waiting_poll_returns [OF demo_fresh f(1,2), of 0 0 "demo_reading 7 1"] f show ?thesis
    by (fastforce simp: demo_ctx_def)
qed

end
