(* ===== verification/SensorClose.thy ===== *)
theory SensorClose
  imports SensorThreads
begin

text \<open>
  \<^verbatim>\<open>sensors/multihal.cpp\<close>, closing the module while its threads exist. \<open>device__close\<close> closes the
  devices of the sub-HALs and frees the context. The writer threads are not told: each goes on with
  the device and the queue of its \<open>TaskContext\<close>, which are not freed, and with the global mutex.
  The framework closes the module when it is not in \<open>poll\<close> and does not call it afterwards.
\<close>

section \<open>The life of an open module\<close>

record hal_life =
  lf_threads :: hal_system
  lf_closed :: bool
  lf_calls :: trace                   \<comment> \<open>what the sub-HALs were asked, but for \<open>poll\<close>\<close>

inductive life_step :: "sensors_h \<Rightarrow> hal_env \<Rightarrow> handle_tables \<Rightarrow> sensors_poll_context \<Rightarrow> hal_life \<Rightarrow> hal_life \<Rightarrow> bool"
  for h :: sensors_h and env :: hal_env and t :: handle_tables and ctx :: sensors_poll_context where
  running: "\<not> lf_closed l \<Longrightarrow> step h t (lf_threads l) obs y \<Longrightarrow> life_step h env t ctx l (l\<lparr>lf_threads := y\<rparr>)"
| closing: "\<not> lf_closed l \<Longrightarrow> sy_reader (lf_threads l) = RIdle \<Longrightarrow>
    device__close env (Some ctx) (lf_calls l) = (r, tr) \<Longrightarrow>
    life_step h env t ctx l (l\<lparr>lf_closed := True, lf_calls := tr\<rparr>)"
| left_over: "lf_closed l \<Longrightarrow> step h t (lf_threads l) obs y \<Longrightarrow> sy_reader y = RIdle \<Longrightarrow>
    life_step h env t ctx l (l\<lparr>lf_threads := y\<rparr>)"

text \<open>The writer threads that are in \<open>device->poll\<close>, by their \<open>TaskContext\<close>.\<close>

definition polled :: "sensors_poll_context \<Rightarrow> hal_system \<Rightarrow> hw_device \<Rightarrow> bool" where
  "polled ctx y d \<longleftrightarrow> (\<exists>j<length (sy_writers y). (\<exists>out bufferSize. sy_writers y ! j = WPoll out bufferSize)
     \<and> task_device (threads ctx ! j) = d)"

definition polls_closed_device :: "sensors_poll_context \<Rightarrow> hal_life \<Rightarrow> hw_device \<Rightarrow> bool" where
  "polls_closed_device ctx l d \<longleftrightarrow>
     lf_closed l \<and> SubClose (dev_id d) \<in> set (lf_calls l) \<and> polled ctx (lf_threads l) d"

section \<open>Lemmas\<close>

lemma close_devices_calls: "close_devices env devs tr = tr @ map (\<lambda>d. SubClose (dev_id d)) devs"
  by (induction devs arbitrary: tr) (simp_all add: sub_call_def)

lemma device__close_calls:
  "device__close env (Some ctx) tr = (0, tr @ map (\<lambda>d. SubClose (dev_id d)) (sub_hw_devices ctx))"
  by (simp add: device__close_def ctx_close_def close_devices_calls)

text \<open>Every device has its thread.\<close>

lemma open_modules_threads:
  "map task_device (threads dev) = sub_hw_devices dev \<Longrightarrow>
     map task_device (threads (fst (open_modules env name mods dev vs)))
       = sub_hw_devices (fst (open_modules env name mods dev vs))"
  by (induction mods arbitrary: dev vs) (simp_all add: addSubHwDevice_def split: option.split)

lemma open_sensors_threads:
  assumes "open_sensors h env name st = Inr (ctx, st1)"
  shows "map task_device (threads ctx) = sub_hw_devices ctx" and "length (queues ctx) = length (sub_hw_devices ctx)"
proof -
  obtain mods dev where dev: "dev = \<lparr>proxy_version = SENSORS_DEVICE_API_VERSION_1_4 h, sub_hw_devices = [],
           queues = [], threads = [], nextReadIndex = 0\<rparr>"
    and op: "open_modules env name mods dev Map.empty = (ctx, the (sub_hw_versions st1))"
    by (rule open_sensorsE [OF assms])
  show "map task_device (threads ctx) = sub_hw_devices ctx"
    using open_modules_threads [of dev env name mods Map.empty] unfolding op by (simp add: dev)
  have "context_ok dev" by (simp add: context_ok_def dev)
  from open_modules_context [OF this, of env name mods Map.empty]
  show "length (queues ctx) = length (sub_hw_devices ctx)" by (simp add: op context_ok_def)
qed

text \<open>With room in its queue a writer comes to its \<open>poll\<close>, whatever it was doing.\<close>

definition idle_step :: "sensors_h \<Rightarrow> handle_tables \<Rightarrow> hal_system \<Rightarrow> hal_system \<Rightarrow> bool" where
  "idle_step h t y y' \<longleftrightarrow> (\<exists>obs. step h t y obs y') \<and> sy_reader y' = RIdle"

fun to_mark :: "writer_pc \<Rightarrow> int" where
  "to_mark (WMark off events) = int (length events)"
| "to_mark w = 0"

lemma writer_enters_poll:
  assumes "sy_reader y = RIdle" and "j < length (sy_writers y)" and "sy_writers y ! j \<in> {WStart, WWoken}"
    and "mSize (sy_queues y ! j) \<noteq> mCapacity (sy_queues y ! j)"
  shows "\<exists>y' out len. idle_step h t y y' \<and> j < length (sy_writers y') \<and> sy_writers y' ! j = WPoll out len"
proof -
  have "step h t y [] (writer_section j y)" using assms by (intro step.writer_lock) auto
  moreover have "\<exists>out len. writer_section j y = set_writer j (WPoll out len) y"
    using assms(4) by (auto simp: writer_section_def Let_def split: prod.split)
  ultimately show ?thesis using assms(1,2) by (fastforce simp: idle_step_def set_writer_def)
qed

lemma writer_comes_to_poll:
  assumes "sys_inv y" and "sy_reader y = RIdle" and "j < length (sy_writers y)"
    and "mSize (sy_queues y ! j) + to_mark (sy_writers y ! j) < mCapacity (sy_queues y ! j)"
  shows "\<exists>y' out len. (idle_step h t)\<^sup>*\<^sup>* y y' \<and> j < length (sy_writers y') \<and> sy_writers y' ! j = WPoll out len"
proof (cases "sy_writers y ! j")
  case (WMark off events)
  let ?y = "mark_section j events y"
  have s: "step h t y [Posted j events] ?y" using assms(2,3) WMark by (intro step.writer_mark) auto
  have y: "sy_reader ?y = RIdle" "j < length (sy_writers ?y)" "sy_writers ?y ! j = WStart"
    "mSize (sy_queues ?y ! j) \<noteq> mCapacity (sy_queues ?y ! j)"
    using assms(2-4) WMark sys_inv_D(1) [OF assms(1,3)]
    by (auto simp: mark_section_def Let_def set_simps markAsWritten_def)
  have "idle_step h t y ?y" using s y(1) by (auto simp: idle_step_def)
  moreover obtain y' out len where "idle_step h t ?y y'" "j < length (sy_writers y')" "sy_writers y' ! j = WPoll out len"
    using writer_enters_poll [OF y(1,2) _ y(4), of h t] y(3) by auto
  ultimately show ?thesis by (meson converse_rtranclp_into_rtranclp r_into_rtranclp)
next
  case WSleep
  with assms(4) sys_inv_D(3) [OF assms(1,3)] show ?thesis by simp
qed (use assms writer_enters_poll [OF assms(2,3), of h t] in \<open>auto\<close>)

lemma left_over_steps:
  "(idle_step h t)\<^sup>*\<^sup>* y y' \<Longrightarrow>
    (life_step h env t ctx)\<^sup>*\<^sup>* \<lparr>lf_threads = y, lf_closed = True, lf_calls = tr\<rparr>
      \<lparr>lf_threads = y', lf_closed = True, lf_calls = tr\<rparr>"
proof (induction rule: rtranclp_induct)
  case (step y y')
  from step(2) obtain obs where "step h t y obs y'" "sy_reader y' = RIdle" by (auto simp: idle_step_def)
  then have "life_step h env t ctx \<lparr>lf_threads = y, lf_closed = True, lf_calls = tr\<rparr>
      \<lparr>lf_threads = y', lf_closed = True, lf_calls = tr\<rparr>"
    using life_step.left_over [of "\<lparr>lf_threads = y, lf_closed = True, lf_calls = tr\<rparr>" h t obs y' env ctx] by simp
  with step.IH show ?case by (rule rtranclp.rtrancl_into_rtrancl)
qed simp

section \<open>Properties\<close>

text \<open>
  C21. Closing the module leaves its writer threads running. Closing asks every sub-HAL's device to
  close, each once and in order; but from then on any writer whose queue has room, whatever it was
  doing, can come to call \<open>poll\<close> on its device, which is closed.
\<close>

theorem writers_poll_closed_devices:
  assumes "open_sensors h env name st = Inr (ctx, st1)" and "reachable h t ctx y" and "sy_reader y = RIdle"
    and "j < length (queues ctx)"
    and "mSize (sy_queues y ! j) + to_mark (sy_writers y ! j) < mCapacity (sy_queues y ! j)"
  shows "\<exists>l l'. life_step h env t ctx \<lparr>lf_threads = y, lf_closed = False, lf_calls = tr\<rparr> l
    \<and> lf_calls l = tr @ map (\<lambda>d. SubClose (dev_id d)) (sub_hw_devices ctx)
    \<and> (life_step h env t ctx)\<^sup>*\<^sup>* l l' \<and> polls_closed_device ctx l' (sub_hw_devices ctx ! j)"
proof -
  let ?tr = "tr @ map (\<lambda>d. SubClose (dev_id d)) (sub_hw_devices ctx)"
  have "queues ctx \<noteq> []" using assms(4) by auto
  from reachable_fresh [OF open_sensors_fresh [OF assms(1) this] assms(2)] have inv: "sys_inv y" .
  have j: "j < length (sub_hw_devices ctx)" "task_device (threads ctx ! j) = sub_hw_devices ctx ! j" "j < length (sy_writers y)"
    using open_sensors_threads [OF assms(1)] reachable_writers [OF assms(2)] assms(4)
    by (auto dest: map_eq_imp_length_eq) (metis length_map nth_map)
  obtain y' out len where y': "(idle_step h t)\<^sup>*\<^sup>* y y'" "j < length (sy_writers y')" "sy_writers y' ! j = WPoll out len"
    using writer_comes_to_poll [OF inv assms(3) j(3) assms(5)] by blast
  have "life_step h env t ctx \<lparr>lf_threads = y, lf_closed = False, lf_calls = tr\<rparr>
      \<lparr>lf_threads = y, lf_closed = True, lf_calls = ?tr\<rparr>"
    using life_step.closing [of "\<lparr>lf_threads = y, lf_closed = False, lf_calls = tr\<rparr>" env ctx 0 ?tr h t] assms(3)
    by (simp add: device__close_calls)
  moreover have "polls_closed_device ctx \<lparr>lf_threads = y', lf_closed = True, lf_calls = ?tr\<rparr> (sub_hw_devices ctx ! j)"
    using y'(2,3) j(1,2) by (auto simp: polls_closed_device_def polled_def)
  ultimately show ?thesis using left_over_steps [OF y'(1), of env ctx ?tr] by (intro exI conjI) auto
qed

theorem writers_poll_closed_devices_witness:
  "\<exists>ctx l l'. life_step demo_h demo_env (tables demo_loaded) ctx
      \<lparr>lf_threads = system_start ctx, lf_closed = False, lf_calls = []\<rparr> l
    \<and> lf_calls l = [SubClose 10, SubClose 20] \<and> (life_step demo_h demo_env (tables demo_loaded) ctx)\<^sup>*\<^sup>* l l'
    \<and> polls_closed_device ctx l' \<lparr>dev_id = 20, dev_version = 256\<rparr>"
proof -
  let ?ctx = "fst (open_modules demo_env ''hal'' [10, 20] \<lparr>proxy_version = 260, sub_hw_devices = [],
           queues = [], threads = [], nextReadIndex = 0\<rparr> Map.empty)"
  have c: "length (queues ?ctx) = 2" "sub_hw_devices ?ctx = [\<lparr>dev_id = 10, dev_version = 256\<rparr>, \<lparr>dev_id = 20, dev_version = 256\<rparr>]"
    "mSize (queues ?ctx ! 1) = 0" "mCapacity (queues ?ctx ! 1) = 36"
    by (simp_all add: demo_env_def addSubHwDevice_def SensorEventQueue_new_def SENSOR_EVENT_QUEUE_CAPACITY_def)
  have "mSize (sy_queues (system_start ?ctx) ! 1) + to_mark (sy_writers (system_start ?ctx) ! 1)
      < mCapacity (sy_queues (system_start ?ctx) ! 1)" "sy_reader (system_start ?ctx) = RIdle"
    using c(1,3,4) by (simp_all add: system_start_def del: open_modules.simps)
  from writers_poll_closed_devices [OF demo_open reachable.init this(2) _ this(1), where tr = "[]"] c(1,2)
  show ?thesis by (intro exI [of _ ?ctx]) (simp del: open_modules.simps)
qed

end
