(* ===== verification/CStrings.thy ===== *)
theory CStrings
  imports Prelude
begin

text \<open>
  The C library's string functions the sources call, on strings as lists of characters:
  \<open>strtok_r\<close>, \<open>strtol\<close> in base ten, \<open>%d\<close> of \<open>snprintf\<close>, and the string that a character buffer
  holds. Used by the power HAL, the firmware tools and the lights HAL.
\<close>

section \<open>Printing and scanning of numbers\<close>

definition digit_char :: "nat \<Rightarrow> char" where "digit_char n = char_of (48 + n)"

definition is_digit :: "char \<Rightarrow> bool" where
  "is_digit c \<longleftrightarrow> 48 \<le> (of_char c :: nat) \<and> (of_char c :: nat) \<le> 57"

definition digit_val :: "char \<Rightarrow> int" where "digit_val c = int (of_char c) - 48"

fun show_nat :: "nat \<Rightarrow> string" where
  "show_nat n = (if n < 10 then [digit_char n] else show_nat (n div 10) @ [digit_char (n mod 10)])"

declare show_nat.simps [simp del]

definition show_int :: "int \<Rightarrow> string" where
  "show_int i = (if i < 0 then CHR ''-'' # show_nat (nat (- i)) else show_nat (nat i))"

fun read_digits :: "int \<Rightarrow> string \<Rightarrow> int \<times> string" where
  "read_digits acc [] = (acc, [])"
| "read_digits acc (c # cs) =
     (if is_digit c then read_digits (acc * 10 + digit_val c) cs else (acc, c # cs))"

definition is_space :: "char \<Rightarrow> bool" where
  "is_space c \<longleftrightarrow> of_char c = (32::nat) \<or> (9 \<le> (of_char c :: nat) \<and> (of_char c :: nat) \<le> 13)"

text \<open>The value, saturated at the limits of \<open>long\<close>, and the text at \<open>*endptr\<close>.\<close>

definition strtol :: "int \<Rightarrow> string \<Rightarrow> int \<times> string" where
  "strtol long_max s =
     (let s1 = dropWhile is_space s;
          neg = (case s1 of [] \<Rightarrow> False | c # _ \<Rightarrow> c = CHR ''-'');
          s2 = (case s1 of [] \<Rightarrow> [] | c # cs \<Rightarrow> if c = CHR ''-'' \<or> c = CHR ''+'' then cs else s1)
      in (case s2 of
            [] \<Rightarrow> (0, s)
          | c # cs \<Rightarrow>
              if \<not> is_digit c then (0, s)
              else (case read_digits 0 s2 of (v, rest) \<Rightarrow>
                (if neg then max (- long_max - 1) (- v) else min long_max v, rest))))"

section \<open>Tokens and buffers\<close>

definition strtok_r :: "(char \<Rightarrow> bool) \<Rightarrow> string \<Rightarrow> (string \<times> string) option" where
  "strtok_r delim s =
     (case dropWhile delim s of
        [] \<Rightarrow> None
      | c # cs \<Rightarrow> Some (takeWhile (\<lambda>x. \<not> delim x) (c # cs), drop 1 (dropWhile (\<lambda>x. \<not> delim x) (c # cs))))"

lemma strtok_r_shorter: "strtok_r delim s = Some (tok, rest) \<Longrightarrow> length rest < length s"
proof -
  assume a: "strtok_r delim s = Some (tok, rest)"
  then obtain c cs where c: "dropWhile delim s = c # cs"
    by (auto simp: strtok_r_def split: list.splits)
  then have "\<not> delim c" by (metis hd_dropWhile list.sel(1) list.distinct(1))
  with a c have "rest = drop 1 (dropWhile (\<lambda>x. \<not> delim x) cs)"
    by (simp add: strtok_r_def)
  then have "length rest \<le> length (dropWhile (\<lambda>x. \<not> delim x) cs)" by simp
  also have "\<dots> \<le> length cs" by (rule length_dropWhile_le)
  also have "\<dots> < length (dropWhile delim s)" by (simp add: c)
  also have "\<dots> \<le> length s" by (rule length_dropWhile_le)
  finally show ?thesis .
qed

text \<open>The tokens of a loop that calls \<open>strtok_r\<close> until it returns a null pointer.\<close>

function tokens :: "(char \<Rightarrow> bool) \<Rightarrow> string \<Rightarrow> string list" where
  "tokens delim s = (case strtok_r delim s of None \<Rightarrow> [] | Some (tok, rest) \<Rightarrow> tok # tokens delim rest)"
  by pat_completeness auto
termination
  by (relation "measure (\<lambda>p. length (snd p))") (auto intro!: strtok_r_shorter)

declare tokens.simps [simp del]

text \<open>The string that starts at a buffer's first byte.\<close>

definition c_string :: "string \<Rightarrow> string" where
  "c_string buf = takeWhile (\<lambda>c. c \<noteq> CHR 0x00) buf"

section \<open>Lemmas\<close>

lemma digit_char_is: "n < 10 \<Longrightarrow> is_digit (digit_char n) \<and> digit_val (digit_char n) = int n"
  by (simp add: is_digit_def digit_char_def digit_val_def)

lemma show_nat_digits: "c \<in> set (show_nat n) \<Longrightarrow> is_digit c"
proof (induction n rule: show_nat.induct)
  case (1 n)
  then show ?case by (cases "n < 10") (auto simp: show_nat.simps [of n] digit_char_is)
qed

lemma show_nat_nonempty: "show_nat n \<noteq> []"
  by (simp add: show_nat.simps [of n])

lemma show_nat_read:
  "\<exists>k. read_digits acc (show_nat n @ ys) = read_digits (acc * 10 ^ k + int n) ys \<and> (acc = 0 \<longrightarrow> acc * 10 ^ k = 0)"
proof (induction n arbitrary: acc ys rule: show_nat.induct)
  case (1 n)
  show ?case
  proof (cases "n < 10")
    case True
    then show ?thesis
      by (intro exI [of _ 1]) (simp add: show_nat.simps [of n] digit_char_is)
  next
    case False
    let ?d = "digit_char (n mod 10)"
    obtain k where "read_digits acc (show_nat (n div 10) @ ?d # ys)
        = read_digits (acc * 10 ^ k + int (n div 10)) (?d # ys)"
      using 1 [OF False] by blast
    also have "\<dots> = read_digits ((acc * 10 ^ k + int (n div 10)) * 10 + int (n mod 10)) ys"
      by (simp add: digit_char_is)
    also have "(acc * 10 ^ k + int (n div 10)) * 10 + int (n mod 10)
        = acc * 10 ^ Suc k + (int (n div 10) * 10 + int (n mod 10))"
      by (simp add: algebra_simps)
    also have "int (n div 10) * 10 + int (n mod 10) = int n"
      by (metis div_mult_mod_eq of_nat_add of_nat_mult of_nat_numeral)
    finally show ?thesis using False by (intro exI [of _ "Suc k"]) (simp add: show_nat.simps [of n])
  qed
qed

lemma show_nat_hd: "\<exists>c cs. show_nat n = c # cs \<and> is_digit c"
  using show_nat_nonempty [of n] show_nat_digits [of _ n] by (cases "show_nat n") auto

lemma digit_no_space: "is_digit c \<Longrightarrow> \<not> is_space c \<and> c \<noteq> CHR ''-'' \<and> c \<noteq> CHR ''+'' \<and> c \<noteq> CHR 0x00"
  by (auto simp: is_digit_def is_space_def)

lemma strtol_show_nat: "strtol long_max (show_nat n) = (min long_max (int n), [])"
proof -
  obtain c cs where c: "show_nat n = c # cs" "is_digit c" using show_nat_hd by blast
  obtain k where "read_digits 0 (show_nat n @ []) = read_digits (0 * 10 ^ k + int n) []"
    using show_nat_read [of 0 n "[]"] by blast
  then have "read_digits 0 (c # cs) = (int n, [])" by (simp add: c)
  with c digit_no_space [OF c(2)] show ?thesis by (simp add: strtol_def Let_def)
qed

lemma tokens_step:
  assumes "tok \<noteq> []" and "\<forall>c\<in>set tok. \<not> delim c" and "delim d"
  shows "tokens delim (tok @ d # rest) = tok # tokens delim rest"
proof -
  obtain c cs where c: "tok = c # cs" using assms(1) by (cases tok) auto
  then have "dropWhile delim (tok @ d # rest) = tok @ d # rest" using assms(2) by simp
  moreover have "takeWhile (\<lambda>x. \<not> delim x) (tok @ d # rest) = tok"
    "dropWhile (\<lambda>x. \<not> delim x) (tok @ d # rest) = d # rest"
    using assms(2,3) by (simp_all add: takeWhile_tail dropWhile_append2 takeWhile_append2)
  ultimately have "strtok_r delim (tok @ d # rest) = Some (tok, rest)"
    using c by (simp add: strtok_r_def)
  then show ?thesis by (simp add: tokens.simps [of _ "tok @ d # rest"])
qed

lemma tokens_delims: "\<forall>c\<in>set s. delim c \<Longrightarrow> tokens delim s = []"
proof -
  assume "\<forall>c\<in>set s. delim c"
  then have "dropWhile delim s = []" by (simp add: dropWhile_eq_Nil_conv)
  then have "strtok_r delim s = None" unfolding strtok_r_def by (simp only: list.case)
  then show ?thesis by (simp add: tokens.simps [of _ s])
qed

lemma tokens_terminated:
  assumes "\<forall>t\<in>set ts. t \<noteq> [] \<and> (\<forall>c\<in>set t. \<not> delim c)" and "delim d" and "\<forall>c\<in>set tail. delim c"
  shows "tokens delim (concat (map (\<lambda>t. t @ [d]) ts) @ tail) = ts"
  using assms(1)
proof (induction ts)
  case Nil
  show ?case using assms(3) by (simp add: tokens_delims)
next
  case (Cons t ts)
  then have "tokens delim (t @ d # (concat (map (\<lambda>t. t @ [d]) ts) @ tail)) = t # ts"
    using assms(2) by (subst tokens_step) auto
  then show ?case by simp
qed

lemma c_string_id: "CHR 0x00 \<notin> set s \<Longrightarrow> c_string (s @ CHR 0x00 # rest) = s"
proof -
  assume "CHR 0x00 \<notin> set s"
  then have "\<forall>x\<in>set s. x \<noteq> CHR 0x00" by metis
  then show ?thesis by (simp add: c_string_def takeWhile_append2)
qed

end
