(* ===== verification/PowerHal.thy ===== *)
theory PowerHal
  imports CStrings
begin

text \<open>
  \<^verbatim>\<open>power/power.cpp\<close>: the power HAL maps a profile and the screen state to CPU frequency limits
  and writes them to the cpufreq nodes of the four CPUs. The sysfs files are not part of the
  repository: reading a node is a parameter, and what is written is recorded in order. The
  constants of \<^verbatim>\<open>hardware/power.h\<close> are parameters too. \<open>LONG_MAX\<close> is a parameter of the parsing,
  at least \<open>INT_MAX\<close>.
\<close>

section \<open>Constants, nodes and state\<close>

definition TOTAL_CPUS :: nat where "TOTAL_CPUS = 4"
definition POWERSAVE_MIN_FREQ :: int where "POWERSAVE_MIN_FREQ = 800000"
definition POWERSAVE_MAX_FREQ :: int where "POWERSAVE_MAX_FREQ = 933000"
definition BIAS_PERF_MIN_FREQ :: int where "BIAS_PERF_MIN_FREQ = 1333000"
definition NORMAL_MAX_FREQ :: int where "NORMAL_MAX_FREQ = 1600000"
definition SCREEN_OFF_TARGET_MAX_FREQ :: int where "SCREEN_OFF_TARGET_MAX_FREQ = 933000"

definition PROFILE_POWER_SAVE :: int where "PROFILE_POWER_SAVE = 0"
definition PROFILE_BALANCED :: int where "PROFILE_BALANCED = 1"
definition PROFILE_HIGH_PERFORMANCE :: int where "PROFILE_HIGH_PERFORMANCE = 2"
definition PROFILE_BIAS_POWER :: int where "PROFILE_BIAS_POWER = 3"
definition PROFILE_BIAS_PERFORMANCE :: int where "PROFILE_BIAS_PERFORMANCE = 4"
definition PROFILE_MAX :: int where "PROFILE_MAX = 5"

lemmas power_consts = TOTAL_CPUS_def POWERSAVE_MIN_FREQ_def POWERSAVE_MAX_FREQ_def
  BIAS_PERF_MIN_FREQ_def NORMAL_MAX_FREQ_def SCREEN_OFF_TARGET_MAX_FREQ_def
  PROFILE_POWER_SAVE_def PROFILE_BALANCED_def PROFILE_HIGH_PERFORMANCE_def PROFILE_BIAS_POWER_def
  PROFILE_BIAS_PERFORMANCE_def PROFILE_MAX_def

definition cpu_path_min :: "string list" where
  "cpu_path_min =
     [''/sys/devices/system/cpu/cpu0/cpufreq/scaling_min_freq'',
      ''/sys/devices/system/cpu/cpu1/cpufreq/scaling_min_freq'',
      ''/sys/devices/system/cpu/cpu2/cpufreq/scaling_min_freq'',
      ''/sys/devices/system/cpu/cpu3/cpufreq/scaling_min_freq'']"

definition cpu_path_max :: "string list" where
  "cpu_path_max =
     [''/sys/devices/system/cpu/cpu0/cpufreq/scaling_max_freq'',
      ''/sys/devices/system/cpu/cpu1/cpufreq/scaling_max_freq'',
      ''/sys/devices/system/cpu/cpu2/cpufreq/scaling_max_freq'',
      ''/sys/devices/system/cpu/cpu3/cpufreq/scaling_max_freq'']"

definition CPU0_AVAILABLE_FREQS :: string where
  "CPU0_AVAILABLE_FREQS = ''/sys/devices/system/cpu/cpu0/cpufreq/scaling_available_frequencies''"

text \<open>The build defines \<open>TAP_TO_WAKE_NODE\<close> from \<^verbatim>\<open>BoardConfig.mk\<close>.\<close>

definition TAP_TO_WAKE_NODE :: string where
  "TAP_TO_WAKE_NODE =
     ''/sys/devices/pci0000:00/0000:00:00.3/i2c-0/0-0020/input/input1/dclick_mode''"

definition BUF_SIZE :: nat where "BUF_SIZE = 80"

record power_h =
  POWER_HINT_SET_PROFILE :: int
  POWER_HINT_INTERACTION :: int
  POWER_HINT_VSYNC :: int
  POWER_FEATURE_DOUBLE_TAP_TO_WAKE :: int
  POWER_FEATURE_SUPPORTED_PROFILES :: int

text \<open>\<open>writable\<close> tells whether \<open>open\<close> for writing works.\<close>

record sysfs =
  read_node :: "string \<Rightarrow> node_read"
  writable :: "string \<Rightarrow> bool"

record power_state =
  current_power_profile :: int
  interactive :: bool
  written :: node_writes

definition initial_power :: power_state where
  "initial_power = \<lparr>current_power_profile = PROFILE_BALANCED, interactive = True, written = []\<rparr>"

section \<open>Sysfs access\<close>

text \<open>The length and the filled part of the buffer, up to the terminating zero.\<close>

definition sysfs_read :: "sysfs \<Rightarrow> string \<Rightarrow> int \<times> string" where
  "sysfs_read fs path =
     (case read_node fs path of
        OpenFails \<Rightarrow> (-1, [])
      | ReadFails \<Rightarrow> (-1, [])
      | Content s \<Rightarrow>
          let got = take (BUF_SIZE - 1) s in (int (length got), got @ [CHR 0x00]))"

definition sysfs_write :: "sysfs \<Rightarrow> string \<Rightarrow> string \<Rightarrow> node_writes \<Rightarrow> node_writes" where
  "sysfs_write fs path s w = (if writable fs path then w @ [(path, s)] else w)"

definition sysfs_write_int :: "sysfs \<Rightarrow> string \<Rightarrow> int \<Rightarrow> node_writes \<Rightarrow> node_writes" where
  "sysfs_write_int fs path value w = sysfs_write fs path (show_int value) w"

definition set_min_freq :: "sysfs \<Rightarrow> int \<Rightarrow> node_writes \<Rightarrow> node_writes" where
  "set_min_freq fs freq w =
     foldl (\<lambda>w cpu. sysfs_write_int fs (cpu_path_min ! cpu) freq w) w [0..<TOTAL_CPUS]"

definition set_max_freq :: "sysfs \<Rightarrow> int \<Rightarrow> node_writes \<Rightarrow> node_writes" where
  "set_max_freq fs freq w =
     foldl (\<lambda>w cpu. sysfs_write_int fs (cpu_path_max ! cpu) freq w) w [0..<TOTAL_CPUS]"

section \<open>Limits\<close>

text \<open>The loop over the tokens of the frequency table.\<close>

fun freq_loop :: "int \<Rightarrow> string list \<Rightarrow> int \<Rightarrow> int \<Rightarrow> int \<times> int" where
  "freq_loop long_max [] lowest_freq capped_freq = (lowest_freq, capped_freq)"
| "freq_loop long_max (token # rest) lowest_freq capped_freq =
     (case strtol long_max token of (freq, end_ptr) \<Rightarrow>
        if token = [] \<or> end_ptr \<noteq> [] \<or> freq \<le> 0 \<or> freq > INT_MAX
        then freq_loop long_max rest lowest_freq capped_freq
        else freq_loop long_max rest
               (if freq < lowest_freq then freq else lowest_freq)
               (if freq \<le> SCREEN_OFF_TARGET_MAX_FREQ \<and> freq > capped_freq then freq else capped_freq))"

definition is_sep :: "char \<Rightarrow> bool" where "is_sep c \<longleftrightarrow> c = CHR '' '' \<or> c = CHR 0x0A"

definition get_screen_off_limits :: "sysfs \<Rightarrow> int \<Rightarrow> (int \<times> int) option" where
  "get_screen_off_limits fs long_max =
     (case sysfs_read fs CPU0_AVAILABLE_FREQS of (len, buf) \<Rightarrow>
        if len < 0 then None
        else (case freq_loop long_max (tokens is_sep (c_string buf)) INT_MAX 0 of
                (lowest_freq, capped_freq) \<Rightarrow>
                   if lowest_freq = INT_MAX then None
                   else Some (lowest_freq, if capped_freq \<noteq> 0 then capped_freq else lowest_freq)))"

definition get_profile_limits :: "int \<Rightarrow> int \<times> int" where
  "get_profile_limits profile =
     (if profile = PROFILE_HIGH_PERFORMANCE then (NORMAL_MAX_FREQ, NORMAL_MAX_FREQ)
      else if profile = PROFILE_BIAS_PERFORMANCE then (BIAS_PERF_MIN_FREQ, NORMAL_MAX_FREQ)
      else if profile = PROFILE_BIAS_POWER \<or> profile = PROFILE_POWER_SAVE
      then (POWERSAVE_MIN_FREQ, POWERSAVE_MAX_FREQ)
      else (POWERSAVE_MIN_FREQ, NORMAL_MAX_FREQ))"

section \<open>Operations\<close>

definition apply_power_profile :: "sysfs \<Rightarrow> int \<Rightarrow> power_state \<Rightarrow> power_state" where
  "apply_power_profile fs long_max st =
     (let (min_freq, max_freq) = get_profile_limits (current_power_profile st);
          (min_freq, max_freq) =
            (if \<not> interactive st
             then (case get_screen_off_limits fs long_max of
                     None \<Rightarrow> (min_freq, max_freq) | Some limits \<Rightarrow> limits)
             else (min_freq, max_freq));
          min_freq = (if min_freq > max_freq then max_freq else min_freq)
      in if interactive st
         then st\<lparr>written := set_min_freq fs min_freq (set_max_freq fs max_freq (written st))\<rparr>
         else st\<lparr>written := set_max_freq fs max_freq (set_min_freq fs min_freq (written st))\<rparr>)"

definition power_set_interactive :: "sysfs \<Rightarrow> int \<Rightarrow> int \<Rightarrow> power_state \<Rightarrow> power_state" where
  "power_set_interactive fs long_max on st =
     apply_power_profile fs long_max (st\<lparr>interactive := (on \<noteq> 0)\<rparr>)"

definition set_power_profile :: "sysfs \<Rightarrow> int \<Rightarrow> int \<Rightarrow> power_state \<Rightarrow> power_state" where
  "set_power_profile fs long_max profile st =
     (if profile < PROFILE_POWER_SAVE \<or> profile \<ge> PROFILE_MAX then st
      else apply_power_profile fs long_max (st\<lparr>current_power_profile := profile\<rparr>))"

text \<open>The hints other than \<open>POWER_HINT_SET_PROFILE\<close> are accepted and do nothing.\<close>

definition power_hint :: "power_h \<Rightarrow> sysfs \<Rightarrow> int \<Rightarrow> int \<Rightarrow> int option \<Rightarrow> power_state \<Rightarrow> power_state" where
  "power_hint h fs long_max hint data st =
     (if hint = POWER_HINT_SET_PROFILE h
      then set_power_profile fs long_max (case data of Some d \<Rightarrow> d | None \<Rightarrow> PROFILE_POWER_SAVE) st
      else if current_power_profile st = PROFILE_POWER_SAVE then st
      else if hint = POWER_HINT_INTERACTION h then st
      else if hint = POWER_HINT_VSYNC h then st
      else st)"

definition set_feature :: "power_h \<Rightarrow> sysfs \<Rightarrow> int \<Rightarrow> int \<Rightarrow> power_state \<Rightarrow> power_state" where
  "set_feature h fs feature state st =
     (if feature = POWER_FEATURE_DOUBLE_TAP_TO_WAKE h
      then st\<lparr>written := sysfs_write fs TAP_TO_WAKE_NODE (show_int state) (written st)\<rparr>
      else st)"

definition get_feature :: "power_h \<Rightarrow> int \<Rightarrow> int" where
  "get_feature h feature = (if feature = POWER_FEATURE_SUPPORTED_PROFILES h then PROFILE_MAX else -1)"

text \<open>The calls the framework can make, in any order.\<close>

datatype power_call = SetInteractive int | PowerHint int "int option" | SetFeature int int

fun power_step :: "power_h \<Rightarrow> sysfs \<Rightarrow> int \<Rightarrow> power_call \<Rightarrow> power_state \<Rightarrow> power_state" where
  "power_step h fs long_max (SetInteractive on) st = power_set_interactive fs long_max on st"
| "power_step h fs long_max (PowerHint hint data) st = power_hint h fs long_max hint data st"
| "power_step h fs long_max (SetFeature feature state) st = set_feature h fs feature state st"

section \<open>Lemmas: the frequency table\<close>

lemma is_sep_cases: "is_sep c \<Longrightarrow> \<not> is_digit c \<and> c \<noteq> CHR 0x00"
  by (auto simp: is_sep_def is_digit_def)

definition freq_table :: "nat list \<Rightarrow> string" where
  "freq_table fs = concat (map (\<lambda>f. show_nat f @ '' '') fs) @ [CHR 0x0A]"

lemma tokens_freq_table: "tokens is_sep (freq_table fs) = map show_nat fs"
proof -
  have "\<forall>t\<in>set (map show_nat fs). t \<noteq> [] \<and> (\<forall>c\<in>set t. \<not> is_sep c)"
    using show_nat_digits is_sep_cases show_nat_nonempty by auto
  moreover have "is_sep (CHR '' '')" "\<forall>c\<in>set [CHR 0x0A]. is_sep c" by (simp_all add: is_sep_def)
  ultimately have "tokens is_sep (concat (map (\<lambda>t. t @ '' '') (map show_nat fs)) @ [CHR 0x0A]) = map show_nat fs"
    by (rule tokens_terminated)
  then show ?thesis by (simp add: freq_table_def comp_def)
qed

lemma freq_table_no_zero: "CHR 0x00 \<notin> set (freq_table fs)"
  using show_nat_digits digit_no_space by (auto simp: freq_table_def)

lemma freq_loop_table:
  assumes "\<forall>f\<in>set fs. 0 < f \<and> int f < INT_MAX" and "INT_MAX \<le> long_max"
  shows "freq_loop long_max (map show_nat fs) lo cap =
    (fold min (map int fs) lo,
     fold max (filter (\<lambda>v. v \<le> SCREEN_OFF_TARGET_MAX_FREQ) (map int fs)) cap)"
  using assms(1)
proof (induction fs arbitrary: lo cap)
  case (Cons f fs)
  then have "strtol long_max (show_nat f) = (int f, [])" using assms(2) by (simp add: strtol_show_nat)
  moreover have "(if int f < lo then int f else lo) = min (int f) lo" by (simp add: min_def)
  moreover have "(if int f \<le> SCREEN_OFF_TARGET_MAX_FREQ \<and> int f > cap then int f else cap)
      = (if int f \<le> SCREEN_OFF_TARGET_MAX_FREQ then max (int f) cap else cap)" by (simp add: max_def)
  ultimately show ?case using Cons by (simp add: show_nat_nonempty)
qed simp

text \<open>What the limits of a switched-off screen should be, for a list of frequencies.\<close>

definition screen_off_spec :: "nat list \<Rightarrow> int \<times> int" where
  "screen_off_spec fs =
     (int (Min (set fs)),
      if \<exists>f\<in>set fs. int f \<le> SCREEN_OFF_TARGET_MAX_FREQ
      then int (Max {f \<in> set fs. int f \<le> SCREEN_OFF_TARGET_MAX_FREQ}) else int (Min (set fs)))"

lemma int_Min: "finite A \<Longrightarrow> A \<noteq> {} \<Longrightarrow> Min (int ` A) = int (Min A)"
  by (rule mono_Min_commute [symmetric]) (auto simp: mono_def)

lemma int_Max: "finite A \<Longrightarrow> A \<noteq> {} \<Longrightarrow> Max (int ` A) = int (Max A)"
  by (rule mono_Max_commute [symmetric]) (auto simp: mono_def)

lemma fold_min_table:
  assumes "fs \<noteq> []" and "\<forall>f\<in>set fs. int f \<le> a"
  shows "fold min (map int fs) a = int (Min (set fs))"
proof -
  have "fold min (map int fs) a = Min (insert a (int ` set fs))"
    using Min.set_eq_fold [of a "map int fs"] by simp
  also have "\<dots> = min a (Min (int ` set fs))" using assms(1) by (intro Min_insert) auto
  also have "\<dots> = Min (int ` set fs)"
  proof -
    obtain f where "f \<in> set fs" using assms(1) by (cases fs) auto
    then have "Min (int ` set fs) \<le> int f" "int f \<le> a" using assms(2) by auto
    then show ?thesis by simp
  qed
  finally show ?thesis using assms(1) by (simp add: int_Min)
qed

lemma fold_max_table:
  "fold max (filter (\<lambda>v. v \<le> t) (map int fs)) 0 =
     (if \<exists>f\<in>set fs. int f \<le> t then int (Max {f \<in> set fs. int f \<le> t}) else 0)"
proof -
  have eq: "set (filter (\<lambda>v. v \<le> t) (map int fs)) = int ` {f \<in> set fs. int f \<le> t}" by auto
  have "fold max (filter (\<lambda>v. v \<le> t) (map int fs)) 0 = Max (insert 0 (int ` {f \<in> set fs. int f \<le> t}))"
    using Max.set_eq_fold [of 0 "filter (\<lambda>v. v \<le> t) (map int fs)"] eq by simp
  also have "\<dots> = (if \<exists>f\<in>set fs. int f \<le> t then int (Max {f \<in> set fs. int f \<le> t}) else 0)"
  proof (cases "\<exists>f\<in>set fs. int f \<le> t")
    case True
    then have ne: "{f \<in> set fs. int f \<le> t} \<noteq> {}" by auto
    then have "Max (insert 0 (int ` {f \<in> set fs. int f \<le> t})) = max 0 (Max (int ` {f \<in> set fs. int f \<le> t}))"
      by (intro Max_insert) auto
    with True ne show ?thesis by (simp add: int_Max)
  next
    case False
    then have "{f \<in> set fs. int f \<le> t} = {}" by auto
    then show ?thesis using False by (simp del: Collect_empty_eq)
  qed
  finally show ?thesis .
qed

lemma screen_off_limits_table:
  assumes "read_node fs CPU0_AVAILABLE_FREQS = Content (freq_table freqs)"
    and "length (freq_table freqs) < BUF_SIZE" and "freqs \<noteq> []"
    and "\<forall>f\<in>set freqs. 0 < f \<and> int f < INT_MAX" and "INT_MAX \<le> long_max"
  shows "get_screen_off_limits fs long_max = Some (screen_off_spec freqs)"
proof -
  have "sysfs_read fs CPU0_AVAILABLE_FREQS = (int (length (freq_table freqs)), freq_table freqs @ [CHR 0x00])"
    using assms(1,2) by (simp add: sysfs_read_def Let_def)
  moreover have "c_string (freq_table freqs @ [CHR 0x00]) = freq_table freqs"
    by (rule c_string_id [OF freq_table_no_zero])
  moreover have "int (Min (set freqs)) < INT_MAX" "0 < int (Min (set freqs))"
    using Min_in [of "set freqs"] assms(3,4) by auto
  moreover have "0 < Max {f \<in> set freqs. int f \<le> t}" if "\<exists>f\<in>set freqs. int f \<le> t" for t
    using Max_in [of "{f \<in> set freqs. int f \<le> t}"] assms(4) that by auto
  moreover have "fold min (map int freqs) INT_MAX = int (Min (set freqs))"
    using assms(3,4) by (intro fold_min_table) auto
  ultimately show ?thesis
    using freq_loop_table [OF assms(4,5), of INT_MAX 0]
    by (auto simp: get_screen_off_limits_def tokens_freq_table fold_max_table screen_off_spec_def)
qed

section \<open>Lemmas: what is written\<close>

definition nodes_writable :: "sysfs \<Rightarrow> bool" where
  "nodes_writable fs \<longleftrightarrow> (\<forall>p\<in>set (cpu_path_min @ cpu_path_max). writable fs p)"

definition limits_for :: "sysfs \<Rightarrow> int \<Rightarrow> int \<Rightarrow> bool \<Rightarrow> int \<times> int" where
  "limits_for fs long_max profile on =
     (if on then get_profile_limits profile
      else (case get_screen_off_limits fs long_max of
              Some limits \<Rightarrow> limits | None \<Rightarrow> get_profile_limits profile))"

definition holds_limits :: "node_writes \<Rightarrow> int \<times> int \<Rightarrow> bool" where
  "holds_limits w limits \<longleftrightarrow>
     (\<forall>p\<in>set cpu_path_min. node_text w p = Some (show_int (fst limits)))
     \<and> (\<forall>p\<in>set cpu_path_max. node_text w p = Some (show_int (snd limits)))"

text \<open>On every CPU the minimum in force is not above the maximum in force.\<close>

definition ordered_nodes :: "node_writes \<Rightarrow> bool" where
  "ordered_nodes w \<longleftrightarrow> (\<forall>cpu<TOTAL_CPUS. \<exists>a b. a \<le> b
     \<and> node_text w (cpu_path_min ! cpu) = Some (show_int a)
     \<and> node_text w (cpu_path_max ! cpu) = Some (show_int b))"

abbreviation writes_to :: "string list \<Rightarrow> int \<Rightarrow> node_writes" where
  "writes_to ps v \<equiv> map (\<lambda>p. (p, show_int v)) ps"

lemma path_facts:
  "length cpu_path_min = TOTAL_CPUS" "length cpu_path_max = TOTAL_CPUS"
  "set cpu_path_min \<inter> set cpu_path_max = {}"
  "TAP_TO_WAKE_NODE \<notin> set cpu_path_min" "TAP_TO_WAKE_NODE \<notin> set cpu_path_max"
  by (simp_all add: cpu_path_min_def cpu_path_max_def TOTAL_CPUS_def TAP_TO_WAKE_NODE_def)

lemma foldl_writes:
  assumes "n \<le> length ps" and "\<forall>p\<in>set ps. writable fs p"
  shows "foldl (\<lambda>w cpu. sysfs_write_int fs (ps ! cpu) v w) w [0..<n] = w @ writes_to (take n ps) v"
  using assms(1)
proof (induction n)
  case (Suc n)
  with assms(2) show ?case
    by (simp add: sysfs_write_int_def sysfs_write_def take_Suc_conv_app_nth)
qed simp

lemma set_freq_writes:
  assumes "nodes_writable fs"
  shows "set_min_freq fs v w = w @ writes_to cpu_path_min v"
    and "set_max_freq fs v w = w @ writes_to cpu_path_max v"
  using assms foldl_writes [of TOTAL_CPUS cpu_path_min fs] foldl_writes [of TOTAL_CPUS cpu_path_max fs]
  by (simp_all add: set_min_freq_def set_max_freq_def nodes_writable_def path_facts)

lemma profile_limits_ordered:
  "fst (get_profile_limits p) \<le> snd (get_profile_limits p)"
  "SCREEN_OFF_TARGET_MAX_FREQ \<le> snd (get_profile_limits p)"
  by (simp_all add: get_profile_limits_def power_consts)

lemma freq_loop_ordered:
  "freq_loop long_max ts lo cap = (lo', cap') \<Longrightarrow> cap = 0 \<or> lo \<le> cap \<Longrightarrow> cap' = 0 \<or> lo' \<le> cap'"
proof (induction ts arbitrary: lo cap)
  case (Cons t ts)
  then show ?case by (fastforce split: prod.splits if_splits)
qed simp

lemma screen_off_ordered:
  "get_screen_off_limits fs long_max = Some limits \<Longrightarrow> fst limits \<le> snd limits"
proof -
  assume a: "get_screen_off_limits fs long_max = Some limits"
  obtain len buf where b: "sysfs_read fs CPU0_AVAILABLE_FREQS = (len, buf)" by fastforce
  obtain lo cap where l: "freq_loop long_max (tokens is_sep (c_string buf)) INT_MAX 0 = (lo, cap)" by fastforce
  from freq_loop_ordered [OF l] have "cap = 0 \<or> lo \<le> cap" by simp
  with a b show ?thesis by (auto simp: get_screen_off_limits_def l split: if_splits)
qed

lemma limits_for_ordered: "fst (limits_for fs long_max p on) \<le> snd (limits_for fs long_max p on)"
  using profile_limits_ordered(1) screen_off_ordered by (auto simp: limits_for_def split: option.split)

text \<open>The clamp of the minimum in \<open>apply_power_profile\<close> never has an effect.\<close>

lemma apply_power_profile_writes:
  assumes "nodes_writable fs"
    and "limits_for fs long_max (current_power_profile st) (interactive st) = (mn, mx)"
  shows "apply_power_profile fs long_max st =
    st\<lparr>written := written st @ (if interactive st
         then writes_to cpu_path_max mx @ writes_to cpu_path_min mn
         else writes_to cpu_path_min mn @ writes_to cpu_path_max mx)\<rparr>"
proof -
  have "mn \<le> mx" using limits_for_ordered [of fs long_max "current_power_profile st" "interactive st"]
    assms(2) by simp
  then show ?thesis using assms
    by (auto simp: apply_power_profile_def limits_for_def set_freq_writes Let_def
        split: option.splits prod.splits if_splits)
qed

lemma map_of_writes: "map_of (writes_to ps v) p = (if p \<in> set ps then Some (show_int v) else None)"
  by (induction ps) auto

lemma node_text_writes_to: "node_text (writes_to ps v) p = (if p \<in> set ps then Some (show_int v) else None)"
  using map_of_writes [where ps = "rev ps" and v = v and p = p] by (simp add: node_text_def rev_map)

lemma holds_limits_writes:
  "holds_limits (w @ writes_to cpu_path_max mx @ writes_to cpu_path_min mn) (mn, mx)"
  "holds_limits (w @ writes_to cpu_path_min mn @ writes_to cpu_path_max mx) (mn, mx)"
  using path_facts(3) by (auto simp: holds_limits_def node_text_append node_text_writes_to)

lemma holds_limits_frame:
  assumes "p \<notin> set cpu_path_min" and "p \<notin> set cpu_path_max"
  shows "holds_limits (w @ [(p, s)]) l \<longleftrightarrow> holds_limits w l"
proof -
  have "node_text (w @ [(p, s)]) p' = node_text w p'" if "p' \<noteq> p" for p'
    using that by (simp add: node_text_def)
  with assms show ?thesis unfolding holds_limits_def by metis
qed

lemma nth_path:
  "cpu < TOTAL_CPUS \<Longrightarrow> cpu_path_min ! cpu \<in> set cpu_path_min \<and> cpu_path_min ! cpu \<notin> set cpu_path_max"
  "cpu < TOTAL_CPUS \<Longrightarrow> cpu_path_max ! cpu \<in> set cpu_path_max \<and> cpu_path_max ! cpu \<notin> set cpu_path_min"
  using nth_mem [of cpu cpu_path_min] nth_mem [of cpu cpu_path_max] path_facts(1-3)
  by (auto simp only: disjoint_iff)

text \<open>
  A sequence of writes seen at any point: the nodes of the first group are all new before the
  first one of the second group is.
\<close>

lemma ordered_lower_first:
  assumes "holds_limits w (a, b)" and "a \<le> b" and "c \<le> b" and "c \<le> d"
  shows "ordered_nodes (w @ take k (writes_to cpu_path_min c @ writes_to cpu_path_max d))"
  unfolding ordered_nodes_def
proof (intro allI impI)
  fix cpu assume cpu: "cpu < TOTAL_CPUS"
  note n = nth_path(1) [OF cpu] nth_path(2) [OF cpu]
  have old: "node_text w (cpu_path_min ! cpu) = Some (show_int a)"
    "node_text w (cpu_path_max ! cpu) = Some (show_int b)"
    using assms(1) n by (auto simp: holds_limits_def)
  let ?w = "w @ take k (writes_to cpu_path_min c @ writes_to cpu_path_max d)"
  have mn: "node_text ?w (cpu_path_min ! cpu)
      = Some (show_int (if cpu_path_min ! cpu \<in> set (take k cpu_path_min) then c else a))" (is "_ = Some (show_int ?x)")
    using n old(1) in_set_takeD [of "cpu_path_min ! cpu" "k - TOTAL_CPUS" cpu_path_max]
    by (auto simp: node_text_append node_text_writes_to take_map path_facts)
  have mx: "node_text ?w (cpu_path_max ! cpu)
      = Some (show_int (if cpu_path_max ! cpu \<in> set (take (k - TOTAL_CPUS) cpu_path_max) then d else b))" (is "_ = Some (show_int ?y)")
    using n old(2) in_set_takeD [of "cpu_path_max ! cpu" k cpu_path_min]
    by (auto simp: node_text_append node_text_writes_to take_map path_facts)
  have "cpu_path_min ! cpu \<in> set (take k cpu_path_min)"
    if "cpu_path_max ! cpu \<in> set (take (k - TOTAL_CPUS) cpu_path_max)"
  proof -
    have "TOTAL_CPUS \<le> k" using that by (cases "TOTAL_CPUS \<le> k") auto
    with n path_facts(1) show ?thesis by simp
  qed
  with assms(2-4) mn mx show "\<exists>x y. x \<le> y \<and> node_text ?w (cpu_path_min ! cpu) = Some (show_int x)
      \<and> node_text ?w (cpu_path_max ! cpu) = Some (show_int y)"
    by (intro exI [of _ ?x] exI [of _ ?y]) auto
qed

lemma ordered_raise_first:
  assumes "holds_limits w (a, b)" and "a \<le> b" and "a \<le> d" and "c \<le> d"
  shows "ordered_nodes (w @ take k (writes_to cpu_path_max d @ writes_to cpu_path_min c))"
  unfolding ordered_nodes_def
proof (intro allI impI)
  fix cpu assume cpu: "cpu < TOTAL_CPUS"
  note n = nth_path(1) [OF cpu] nth_path(2) [OF cpu]
  have old: "node_text w (cpu_path_min ! cpu) = Some (show_int a)"
    "node_text w (cpu_path_max ! cpu) = Some (show_int b)"
    using assms(1) n by (auto simp: holds_limits_def)
  let ?w = "w @ take k (writes_to cpu_path_max d @ writes_to cpu_path_min c)"
  have mx: "node_text ?w (cpu_path_max ! cpu)
      = Some (show_int (if cpu_path_max ! cpu \<in> set (take k cpu_path_max) then d else b))" (is "_ = Some (show_int ?y)")
    using n old(2) in_set_takeD [of "cpu_path_max ! cpu" "k - TOTAL_CPUS" cpu_path_min]
    by (auto simp: node_text_append node_text_writes_to take_map path_facts)
  have mn: "node_text ?w (cpu_path_min ! cpu)
      = Some (show_int (if cpu_path_min ! cpu \<in> set (take (k - TOTAL_CPUS) cpu_path_min) then c else a))" (is "_ = Some (show_int ?x)")
    using n old(1) in_set_takeD [of "cpu_path_min ! cpu" k cpu_path_max]
    by (auto simp: node_text_append node_text_writes_to take_map path_facts)
  have "cpu_path_max ! cpu \<in> set (take k cpu_path_max)"
    if "cpu_path_min ! cpu \<in> set (take (k - TOTAL_CPUS) cpu_path_min)"
  proof -
    have "TOTAL_CPUS \<le> k" using that by (cases "TOTAL_CPUS \<le> k") auto
    with n path_facts(2) show ?thesis by simp
  qed
  with assms(2-4) mn mx show "\<exists>x y. x \<le> y \<and> node_text ?w (cpu_path_min ! cpu) = Some (show_int x)
      \<and> node_text ?w (cpu_path_max ! cpu) = Some (show_int y)"
    by (intro exI [of _ ?x] exI [of _ ?y]) auto
qed

section \<open>The invariant of the service\<close>

fun applies :: "power_h \<Rightarrow> power_call \<Rightarrow> bool" where
  "applies h (SetInteractive on) = True"
| "applies h (PowerHint hint data) =
     (hint = POWER_HINT_SET_PROFILE h
      \<and> (case data of None \<Rightarrow> True | Some p \<Rightarrow> PROFILE_POWER_SAVE \<le> p \<and> p < PROFILE_MAX))"
| "applies h (SetFeature feature state) = False"

definition profile_ok :: "power_state \<Rightarrow> bool" where
  "profile_ok st \<longleftrightarrow> PROFILE_POWER_SAVE \<le> current_power_profile st \<and> current_power_profile st < PROFILE_MAX"

definition in_force :: "sysfs \<Rightarrow> int \<Rightarrow> power_state \<Rightarrow> bool" where
  "in_force fs long_max st \<longleftrightarrow>
     holds_limits (written st) (limits_for fs long_max (current_power_profile st) (interactive st))"

lemma apply_in_force:
  assumes "nodes_writable fs"
  shows "in_force fs long_max (apply_power_profile fs long_max st)"
    and "profile_ok (apply_power_profile fs long_max st) = profile_ok st"
proof -
  obtain mn mx where l: "limits_for fs long_max (current_power_profile st) (interactive st) = (mn, mx)"
    by fastforce
  note w = apply_power_profile_writes [OF assms l]
  show "in_force fs long_max (apply_power_profile fs long_max st)"
    unfolding w in_force_def using holds_limits_writes [of "written st"] l by simp
  show "profile_ok (apply_power_profile fs long_max st) = profile_ok st"
    by (simp add: w profile_ok_def)
qed

lemma power_step_profile:
  assumes "nodes_writable fs" and "profile_ok st"
  shows "profile_ok (power_step h fs long_max c st)"
  using assms apply_in_force(2) [OF assms(1)]
  by (cases c) (auto simp: power_set_interactive_def power_hint_def set_power_profile_def
      set_feature_def profile_ok_def split: option.split)

lemma power_step_applies:
  assumes "nodes_writable fs" and "applies h c"
  shows "in_force fs long_max (power_step h fs long_max c st)"
proof (cases c)
  case (PowerHint hint data)
  have v: "\<not> (p < PROFILE_POWER_SAVE \<or> p \<ge> PROFILE_MAX)"
    if "p = (case data of Some d \<Rightarrow> d | None \<Rightarrow> PROFILE_POWER_SAVE)" for p
    using that assms(2) PowerHint by (auto simp: power_consts split: option.splits)
  with apply_in_force(1) [OF assms(1)] assms(2) PowerHint show ?thesis
    by (simp add: power_hint_def set_power_profile_def del: not_less)
qed (use assms apply_in_force(1) [OF assms(1)] in \<open>auto simp: power_set_interactive_def\<close>)

lemma power_step_keeps:
  assumes "nodes_writable fs" and "\<not> applies h c" and "in_force fs long_max st"
  shows "in_force fs long_max (power_step h fs long_max c st)"
  using assms path_facts(4,5)
  by (cases c) (auto simp: power_hint_def set_power_profile_def set_feature_def sysfs_write_def
      in_force_def holds_limits_frame split: option.splits)

section \<open>Properties\<close>

text \<open>
  C37. Reading the frequency table is right for every table that fits the buffer: when the node
  holds positive frequencies, printed in decimal, each followed by a space, and a newline, then
  the limits for a switched-off screen are the lowest frequency and the highest one that does
  not exceed 933000 kHz, or the lowest twice when there is none, on any \<open>long\<close> at least as wide
  as \<open>int\<close>.
\<close>

theorem screen_off_limits_of_table:
  assumes "read_node fs CPU0_AVAILABLE_FREQS = Content (freq_table freqs)"
    and "length (freq_table freqs) < BUF_SIZE" and "freqs \<noteq> []"
    and "\<forall>f\<in>set freqs. 0 < f \<and> int f < INT_MAX" and "INT_MAX \<le> long_max"
  shows "get_screen_off_limits fs long_max =
    Some (int (Min (set freqs)),
      if \<exists>f\<in>set freqs. int f \<le> 933000 then int (Max {f \<in> set freqs. int f \<le> 933000})
      else int (Min (set freqs)))"
  using screen_off_limits_table [OF assms] by (simp add: screen_off_spec_def SCREEN_OFF_TARGET_MAX_FREQ_def)

definition demo_sysfs :: sysfs where
  "demo_sysfs = \<lparr>read_node = (\<lambda>p. Content (freq_table [1600000, 1333000, 933000, 800000])),
     writable = (\<lambda>p. True)\<rparr>"

lemma demo_table_length: "length (freq_table [1600000, 1333000, 933000, 800000]) < BUF_SIZE"
  by (simp add: freq_table_def BUF_SIZE_def show_nat.simps)

theorem screen_off_limits_of_table_witness:
  "get_screen_off_limits demo_sysfs INT_MAX = Some (800000, 933000)"
proof -
  let ?fs = "[1600000, 1333000, 933000, 800000] :: nat list"
  have "read_node demo_sysfs CPU0_AVAILABLE_FREQS = Content (freq_table ?fs)"
    by (simp add: demo_sysfs_def)
  from screen_off_limits_of_table [OF this demo_table_length]
  have l: "get_screen_off_limits demo_sysfs INT_MAX = Some (int (Min (set ?fs)),
      if \<exists>f\<in>set ?fs. int f \<le> 933000 then int (Max {f \<in> set ?fs. int f \<le> 933000}) else int (Min (set ?fs)))"
    by (simp add: INT_MAX_def)
  have "{f \<in> set ?fs. int f \<le> 933000} = {933000, 800000}" by auto
  then show ?thesis unfolding l by simp
qed

text \<open>
  C36. Whatever calls the framework makes, in whatever order, the profile stays one of the five,
  and once a screen change or a valid profile hint was made the cpufreq nodes of all four CPUs
  hold the limits that belong to the current profile and screen state; a later invalid profile,
  other hint or feature call does not disturb them.
\<close>

theorem nodes_follow_the_state:
  assumes "nodes_writable fs"
  shows "profile_ok (fold (power_step h fs long_max) calls initial_power)
    \<and> ((\<exists>c\<in>set calls. applies h c) \<longrightarrow>
        in_force fs long_max (fold (power_step h fs long_max) calls initial_power))"
proof (induction calls rule: rev_induct)
  case Nil
  show ?case by (simp add: profile_ok_def initial_power_def power_consts)
next
  case (snoc c calls)
  then show ?case
    using power_step_profile [OF assms] power_step_applies [OF assms] power_step_keeps [OF assms]
    by (cases "applies h c") auto
qed

definition demo_power_h :: power_h where
  "demo_power_h = \<lparr>POWER_HINT_SET_PROFILE = 9, POWER_HINT_INTERACTION = 2, POWER_HINT_VSYNC = 1,
     POWER_FEATURE_DOUBLE_TAP_TO_WAKE = 1, POWER_FEATURE_SUPPORTED_PROFILES = 4096\<rparr>"

lemma demo_writable: "nodes_writable demo_sysfs"
  by (simp add: nodes_writable_def demo_sysfs_def)

theorem nodes_follow_the_state_witness:
  "in_force demo_sysfs INT_MAX (fold (power_step demo_power_h demo_sysfs INT_MAX)
     [PowerHint 9 (Some 2), SetFeature 1 1, PowerHint 9 (Some 7)] initial_power)"
  using nodes_follow_the_state [OF demo_writable, of demo_power_h INT_MAX
      "[PowerHint 9 (Some 2), SetFeature 1 1, PowerHint 9 (Some 7)]"]
  by (simp add: demo_power_h_def power_consts)

text \<open>
  C35. Turning the screen on or off never leaves a CPU, not even between two of the eight writes,
  with a minimum above its maximum, provided that the lowest available frequency is not above
  933000 kHz: this is what the order of the writes in \<open>apply_power_profile\<close> is for.
\<close>

theorem screen_toggle_keeps_order:
  assumes "nodes_writable fs" and "in_force fs long_max st"
    and "get_screen_off_limits fs long_max = Some (lo, hi)" and "lo \<le> SCREEN_OFF_TARGET_MAX_FREQ"
  shows "\<exists>ws. written (power_set_interactive fs long_max on st) = written st @ ws
    \<and> length ws = 2 * TOTAL_CPUS \<and> (\<forall>k. ordered_nodes (written st @ take k ws))"
proof -
  let ?st = "st\<lparr>interactive := (on \<noteq> 0)\<rparr>" and ?p = "current_power_profile st"
  obtain a b where old: "limits_for fs long_max ?p (interactive st) = (a, b)" by fastforce
  obtain c d where new: "limits_for fs long_max ?p (on \<noteq> 0) = (c, d)" by fastforce
  have ab: "a \<le> b" "c \<le> d"
    using limits_for_ordered [of fs long_max ?p] old new by (metis fst_conv snd_conv)+
  have hi: "lo \<le> hi" using screen_off_ordered [OF assms(3)] by simp
  have top: "lo \<le> snd (get_profile_limits ?p)"
    using profile_limits_ordered(2) [of ?p] assms(4) by linarith
  have held: "holds_limits (written st) (a, b)" using assms(2) old by (simp add: in_force_def)
  note w = apply_power_profile_writes [OF assms(1), of long_max ?st c d]
  show ?thesis
  proof (cases "on = 0")
    case True
    then have "c = lo" "c \<le> b"
      using new old assms(3) hi top by (auto simp: limits_for_def split: if_splits)
    with True w new ordered_lower_first [OF held ab(1) _ ab(2)] show ?thesis
      by (simp add: power_set_interactive_def path_facts)
  next
    case False
    then have "a \<le> d"
      using new old assms(3) top ab by (auto simp: limits_for_def split: if_splits)
    with False w new ordered_raise_first [OF held ab(1) _ ab(2)] show ?thesis
      by (simp add: power_set_interactive_def path_facts)
  qed
qed

theorem screen_toggle_keeps_order_witness:
  "\<exists>ws. written (power_set_interactive demo_sysfs INT_MAX 0
        (apply_power_profile demo_sysfs INT_MAX initial_power))
      = written (apply_power_profile demo_sysfs INT_MAX initial_power) @ ws
    \<and> length ws = 8 \<and> ordered_nodes (written (apply_power_profile demo_sysfs INT_MAX initial_power) @ take 5 ws)"
proof -
  have "get_screen_off_limits demo_sysfs INT_MAX
      = Some (screen_off_spec [1600000, 1333000, 933000, 800000])"
    by (rule screen_off_limits_table [OF _ demo_table_length]) (simp_all add: demo_sysfs_def INT_MAX_def)
  moreover have "fst (screen_off_spec [1600000, 1333000, 933000, 800000]) \<le> SCREEN_OFF_TARGET_MAX_FREQ"
    by (simp add: screen_off_spec_def SCREEN_OFF_TARGET_MAX_FREQ_def)
  ultimately show ?thesis
    using screen_toggle_keeps_order [OF demo_writable apply_in_force(1) [OF demo_writable,
        where st = initial_power and long_max = INT_MAX], where on = 0]
    by (cases "screen_off_spec [1600000, 1333000, 933000, 800000]") (auto simp: TOTAL_CPUS_def)
qed

text \<open>
  The order is fixed by the screen state and not by the direction of the change, so a change
  of profile can invert the limits: with the screen on, going from high performance to power
  save (the hint's data pointer is null for profile 0) writes the new maximum of 933000 under
  the old minimum of 1600000.
\<close>

theorem profile_change_inverts_limits:
  assumes "nodes_writable fs" and "in_force fs long_max st" and "interactive st"
    and "current_power_profile st = PROFILE_HIGH_PERFORMANCE"
  shows "\<exists>ws. written (power_hint h fs long_max (POWER_HINT_SET_PROFILE h) None st) = written st @ ws
    \<and> node_text (written st @ take 1 ws) (cpu_path_max ! 0) = Some (show_int 933000)
    \<and> node_text (written st @ take 1 ws) (cpu_path_min ! 0) = Some (show_int 1600000)"
proof -
  let ?st = "st\<lparr>current_power_profile := PROFILE_POWER_SAVE\<rparr>"
  have "power_hint h fs long_max (POWER_HINT_SET_PROFILE h) None st = apply_power_profile fs long_max ?st"
    by (simp add: power_hint_def set_power_profile_def power_consts)
  moreover have "limits_for fs long_max (current_power_profile ?st) (interactive ?st) = (800000, 933000)"
    using assms(3) by (simp add: limits_for_def get_profile_limits_def power_consts)
  note apply_power_profile_writes [OF assms(1) this]
  moreover have "node_text (written st) (cpu_path_min ! 0) = Some (show_int 1600000)"
    using assms(2-4) by (simp add: in_force_def holds_limits_def limits_for_def
        get_profile_limits_def power_consts cpu_path_min_def)
  ultimately show ?thesis using assms(3)
    by (simp add: cpu_path_max_def node_text_append) (simp add: node_text_def cpu_path_min_def)
qed

theorem profile_change_inverts_limits_witness:
  "\<exists>st ws. written (power_hint demo_power_h demo_sysfs INT_MAX 9 None st) = written st @ ws
    \<and> node_text (written st @ take 1 ws) (cpu_path_max ! 0) = Some (show_int 933000)
    \<and> node_text (written st @ take 1 ws) (cpu_path_min ! 0) = Some (show_int 1600000)"
proof -
  let ?st = "power_step demo_power_h demo_sysfs INT_MAX (PowerHint 9 (Some 2)) initial_power"
  have a: "applies demo_power_h (PowerHint 9 (Some 2))" by (simp add: demo_power_h_def power_consts)
  have s: "interactive ?st" "current_power_profile ?st = PROFILE_HIGH_PERFORMANCE"
    by (simp_all add: power_hint_def set_power_profile_def demo_power_h_def initial_power_def
        apply_power_profile_def power_consts Let_def split: prod.split)
  from profile_change_inverts_limits [OF demo_writable power_step_applies [OF demo_writable a] s, of demo_power_h]
  show ?thesis by (auto simp: demo_power_h_def)
qed
end
