(* ===== verification/Bytes.thy ===== *)
theory Bytes
  imports Prelude
begin

unbundle bit_operations_syntax

text \<open>
  Memory as a list of bytes: little-endian loads and stores of machine integers, and what a store
  leaves unchanged. Shared by the firmware tools of the recovery and the boot image tools.
\<close>

section \<open>Loads and stores\<close>

type_synonym bytes = "8 word list"

definition le16_at :: "bytes \<Rightarrow> nat \<Rightarrow> 16 word" where
  "le16_at p k = ucast (p ! k) OR push_bit 8 (ucast (p ! (k + 1)))"

definition le32_at :: "bytes \<Rightarrow> nat \<Rightarrow> 32 word" where
  "le32_at p k = ucast (p ! k) OR push_bit 8 (ucast (p ! (k + 1)))
     OR push_bit 16 (ucast (p ! (k + 2))) OR push_bit 24 (ucast (p ! (k + 3)))"

definition bytes_of32 :: "32 word \<Rightarrow> bytes" where
  "bytes_of32 w = [ucast w, ucast (drop_bit 8 w), ucast (drop_bit 16 w), ucast (drop_bit 24 w)]"

text \<open>Stores inside the mapped window; \<open>write32\<close> is a store through a \<open>uint32_t\<close> pointer.\<close>

definition write_at :: "bytes \<Rightarrow> nat \<Rightarrow> bytes \<Rightarrow> bytes" where
  "write_at p k bs = take k p @ bs @ drop (k + length bs) p"

definition write32 :: "bytes \<Rightarrow> nat \<Rightarrow> 32 word \<Rightarrow> bytes" where
  "write32 p k w = write_at p k (bytes_of32 w)"

section \<open>Laws of loads and stores\<close>

lemma write_at_length [simp]: "k + length bs \<le> length p \<Longrightarrow> length (write_at p k bs) = length p"
  by (simp add: write_at_def)

lemma write_at_nth:
  assumes "k + length bs \<le> length p" and "j < length p"
  shows "write_at p k bs ! j = (if k \<le> j \<and> j < k + length bs then bs ! (j - k) else p ! j)"
  using assms by (auto simp: write_at_def nth_append min_def)

lemma bytes_of32_length [simp]: "length (bytes_of32 w) = 4"
  by (simp add: bytes_of32_def)

lemma byte_high_bit: "8 \<le> m \<Longrightarrow> \<not> bit (x :: 8 word) m"
  using bit_imp_le_length [of x m] by auto

lemma le32_at_bit:
  assumes "n < 32"
  shows "bit (le32_at p k) n \<longleftrightarrow>
    (if n < 8 then bit (p ! k) n else if n < 16 then bit (p ! (k + 1)) (n - 8)
     else if n < 24 then bit (p ! (k + 2)) (n - 16) else bit (p ! (k + 3)) (n - 24))"
proof -
  have "bit (le32_at p k) n \<longleftrightarrow> bit (p ! k) n \<or> (8 \<le> n \<and> bit (p ! (k + 1)) (n - 8))
      \<or> (16 \<le> n \<and> bit (p ! (k + 2)) (n - 16)) \<or> (24 \<le> n \<and> bit (p ! (k + 3)) (n - 24))"
    using assms by (auto simp: le32_at_def bit_or_iff bit_push_bit_iff bit_ucast_iff)
  then show ?thesis by (auto simp: byte_high_bit)
qed

lemma le32_of_bytes32: "le32_at (bytes_of32 w) 0 = w"
  by (rule bit_word_eqI) (auto simp: le32_at_bit bytes_of32_def bit_ucast_iff bit_drop_bit_eq)

lemma le32_at_cong: "(\<And>j. k \<le> j \<Longrightarrow> j < k + 4 \<Longrightarrow> p ! j = q ! j) \<Longrightarrow> le32_at p k = le32_at q k"
  by (simp add: le32_at_def)

lemma le32_at_write32_same:
  assumes "k + 4 \<le> length p"
  shows "le32_at (write32 p k w) k = w"
proof -
  have "write32 p k w ! (k + i) = bytes_of32 w ! i" if "i < 4" for i
    using assms that by (simp add: write32_def write_at_nth)
  from this [of 0] this [of 1] this [of 2] this [of 3] show ?thesis
    using le32_of_bytes32 [of w] by (simp add: le32_at_def numeral_2_eq_2)
qed

text \<open>Two memories that agree outside an area.\<close>

definition same_outside :: "nat set \<Rightarrow> bytes \<Rightarrow> bytes \<Rightarrow> bool" where
  "same_outside A p q \<longleftrightarrow> length q = length p \<and> (\<forall>j<length p. j \<notin> A \<longrightarrow> q ! j = p ! j)"

lemma same_outside_refl: "same_outside A p p"
  by (simp add: same_outside_def)

lemma same_outside_trans: "same_outside A p q \<Longrightarrow> same_outside B q r \<Longrightarrow> same_outside (A \<union> B) p r"
  by (simp add: same_outside_def)

lemma same_outside_mono: "same_outside A p q \<Longrightarrow> A \<subseteq> B \<Longrightarrow> same_outside B p q"
  by (auto simp: same_outside_def)

lemma same_outside_write_at: "k + length bs \<le> length p \<Longrightarrow> same_outside {k..<k + length bs} p (write_at p k bs)"
  by (simp add: same_outside_def write_at_nth)

lemma same_outside_write32: "k + 4 \<le> length p \<Longrightarrow> same_outside {k..<k + 4} p (write32 p k w)"
  using same_outside_write_at [of k "bytes_of32 w" p] by (simp add: write32_def)

lemma same_outside_update: "same_outside {k} p (p[k := b])"
  by (simp add: same_outside_def)

lemma same_outside_le32:
  assumes "same_outside A p q" and "k + 4 \<le> length p" and "{k..<k + 4} \<inter> A = {}"
  shows "le32_at q k = le32_at p k"
proof (rule le32_at_cong)
  fix j assume "k \<le> j" "j < k + 4"
  then have "j \<notin> A" "j < length p" using assms(2,3) by auto
  then show "q ! j = p ! j" using assms(1) by (simp add: same_outside_def)
qed

end
