(* ===== verification/FwVersion.thy ===== *)
theory FwVersion
  imports CStrings Bytes
begin

unbundle bit_operations_syntax

text \<open>
  \<^verbatim>\<open>recovery/fw_version_check.cpp\<close>: the firmware versions of an IFWI image, read from its FIP
  headers, and those of the running firmware, read from a sysfs node. Memory is a list of
  bytes, integers have the width they have in the source, and the machine is little-endian.
\<close>

section \<open>Layout\<close>

record fw_version =
  major :: "16 word"
  minor :: "16 word"

record firmware_versions =
  scubootstrap :: fw_version
  scu :: fw_version
  ia32 :: fw_version
  valhooks :: fw_version
  ifwi :: fw_version
  chaabi :: fw_version
  mia :: fw_version

definition zero_version :: fw_version where "zero_version = \<lparr>major = 0, minor = 0\<rparr>"

definition zero_versions :: firmware_versions where
  "zero_versions = \<lparr>scubootstrap = zero_version, scu = zero_version, ia32 = zero_version,
     valhooks = zero_version, ifwi = zero_version, chaabi = zero_version, mia = zero_version\<rparr>"

definition FIP_PATTERN :: "32 word" where "FIP_PATTERN = 0x50494624"
definition SCU_IPC_VERSION_LEN_LONG :: nat where "SCU_IPC_VERSION_LEN_LONG = 32"
definition READ_SZ :: nat where "READ_SZ = 256"

text \<open>
  The header's layout: a signature of 4 bytes, 17 version blocks of 8 bytes, 15 longer ones of
  12 bytes and 4 of 8 bytes; only the blocks that are read have a field here. In a block the
  minor number comes before the major.
\<close>

definition fip_version_block :: nat where "fip_version_block = 8"
definition fip_version_block_chxx :: nat where "fip_version_block_chxx = 12"

definition sizeof_FIP_header :: nat where
  "sizeof_FIP_header = 4 + 17 * fip_version_block + 15 * fip_version_block_chxx + 4 * fip_version_block"

record FIP_header =
  ch00_rev :: fw_version
  scuc_rev :: fw_version
  mia_rev :: fw_version
  ia32_rev :: fw_version
  oem_rev :: fw_version
  ifwi_rev :: fw_version

definition version_block_at :: "bytes \<Rightarrow> nat \<Rightarrow> fw_version" where
  "version_block_at p k = \<lparr>major = le16_at p (k + 2), minor = le16_at p k\<rparr>"

definition FIP_header_at :: "bytes \<Rightarrow> FIP_header" where
  "FIP_header_at p =
     \<lparr>ch00_rev = version_block_at p (4 + 4 * fip_version_block),
      scuc_rev = version_block_at p (4 + 7 * fip_version_block),
      mia_rev = version_block_at p (4 + 9 * fip_version_block),
      ia32_rev = version_block_at p (4 + 10 * fip_version_block),
      oem_rev = version_block_at p (4 + 11 * fip_version_block),
      ifwi_rev = version_block_at p
        (4 + 17 * fip_version_block + 15 * fip_version_block_chxx + 3 * fip_version_block)\<rparr>"

section \<open>The versions of an image\<close>

text \<open>The arguments \<open>data\<close> and \<open>sz\<close> are the \<open>sz\<close> bytes at \<open>data\<close>; advancing by four drops four.\<close>

function find_magic :: "bytes \<Rightarrow> bool \<times> bytes" where
  "find_magic data =
     (if length data \<ge> sizeof_FIP_header then
        if le32_at data 0 = FIP_PATTERN then (True, data) else find_magic (drop 4 data)
      else (False, data))"
  by pat_completeness auto
termination by (relation "measure length") (auto simp: sizeof_FIP_header_def)

declare find_magic.simps [simp del]

definition update_version :: "fw_version \<Rightarrow> fw_version \<Rightarrow> fw_version" where
  "update_version block v =
     \<lparr>major = (if major block \<noteq> 0 then major block else major v),
      minor = (if minor block \<noteq> 0 then minor block else minor v)\<rparr>"

definition update_versions :: "FIP_header \<Rightarrow> firmware_versions \<Rightarrow> firmware_versions" where
  "update_versions fip v =
     v\<lparr>scubootstrap := zero_version,
       scu := update_version (scuc_rev fip) (scu v),
       ia32 := update_version (ia32_rev fip) (ia32 v),
       valhooks := update_version (oem_rev fip) (valhooks v),
       ifwi := update_version (ifwi_rev fip) (ifwi v),
       chaabi := update_version (ch00_rev fip) (chaabi v),
       mia := update_version (mia_rev fip) (mia v)\<rparr>"

lemma find_magic_shorter: "length (snd (find_magic data)) \<le> length data"
proof (induction data rule: find_magic.induct)
  case (1 data)
  then show ?case by (auto simp: find_magic.simps [of data])
qed

function image_loop :: "bool \<Rightarrow> firmware_versions \<Rightarrow> bytes \<Rightarrow> int \<times> firmware_versions" where
  "image_loop magic_found v data =
     (if length data \<ge> sizeof_FIP_header then
        (let found = fst (find_magic data); rest = snd (find_magic data) in
         if \<not> (magic_found \<or> found) then (-1, v)
         else if length rest < sizeof_FIP_header then (0, v)
         else image_loop True (update_versions (FIP_header_at rest) v) (drop 4 rest))
      else (0, v))"
  by pat_completeness auto
termination
proof (relation "measure (\<lambda>(f, v, data). length data)")
  fix magic_found v and data :: bytes and found rest
  assume "length data \<ge> sizeof_FIP_header" "rest = snd (find_magic data)"
  with find_magic_shorter [of data]
  show "((True, update_versions (FIP_header_at rest) v, drop 4 rest), magic_found, v, data)
      \<in> measure (\<lambda>(f, v, data). length data)"
    by (simp add: sizeof_FIP_header_def)
qed simp

declare image_loop.simps [simp del]

text \<open>The second argument is \<open>None\<close> for a null pointer; the result says what is stored through it.\<close>

definition get_image_fw_rev :: "bytes \<Rightarrow> firmware_versions option \<Rightarrow> int \<times> firmware_versions option" where
  "get_image_fw_rev data v =
     (case v of
        None \<Rightarrow> (-1, None)
      | Some _ \<Rightarrow> (case image_loop False zero_versions data of (r, v') \<Rightarrow> (r, Some v')))"

section \<open>The running firmware's versions\<close>

definition is_hex :: "char \<Rightarrow> bool" where
  "is_hex c \<longleftrightarrow> is_digit c \<or> (97 \<le> (of_char c :: nat) \<and> (of_char c :: nat) \<le> 102)
     \<or> (65 \<le> (of_char c :: nat) \<and> (of_char c :: nat) \<le> 70)"

definition hex_val :: "char \<Rightarrow> int" where
  "hex_val c = (if is_digit c then digit_val c
     else if 97 \<le> (of_char c :: nat) then int (of_char c) - 87 else int (of_char c) - 55)"

text \<open>
  \<open>sscanf(p, "%x", ..)\<close>: the number of conversions, 0 when the text is not a number, -1 when
  there is nothing but white space.
\<close>

definition scan_hex :: "string \<Rightarrow> int \<times> 32 word" where
  "scan_hex s =
     (case dropWhile is_space s of
        [] \<Rightarrow> (-1, 0)
      | c # cs \<Rightarrow>
          let neg = (c = CHR ''-'');
              s2 = (if c = CHR ''-'' \<or> c = CHR ''+'' then cs else c # cs);
              s3 = (case s2 of
                      a # x # d # ds \<Rightarrow>
                        if a = CHR ''0'' \<and> (x = CHR ''x'' \<or> x = CHR ''X'') \<and> is_hex d then d # ds else s2
                    | _ \<Rightarrow> s2);
              digits = takeWhile is_hex s3;
              v = foldl (\<lambda>v d. v * 16 + hex_val d) 0 digits
          in if digits = [] then (0, 0) else (1, word_of_int (if neg then - v else v)))"

fun revision_loop :: "string list \<Rightarrow> nat \<Rightarrow> nat \<Rightarrow> 32 word list \<Rightarrow> int \<times> 32 word list" where
  "revision_loop [] i len fw = (0, fw)"
| "revision_loop (p # ps) i len fw =
     (if \<not> i < len then (0, fw)
      else (case scan_hex p of (ret, v) \<Rightarrow>
        if ret \<noteq> 1 then (ret, fw) else revision_loop ps (i + 1) len (fw[i := v])))"

definition is_blank :: "char \<Rightarrow> bool" where "is_blank c \<longleftrightarrow> c = CHR '' ''"

definition read_fw_revision :: "node_read \<Rightarrow> 32 word list \<Rightarrow> nat \<Rightarrow> int \<times> 32 word list" where
  "read_fw_revision node fw_revision len =
     (case node of
        OpenFails \<Rightarrow> (-1, fw_revision)
      | ReadFails \<Rightarrow> (-1, fw_revision)
      | Content s \<Rightarrow>
          revision_loop (tokens is_blank (c_string (take (READ_SZ - 1) s @ [CHR 0x00]))) 0 len fw_revision)"

definition revision_number :: "32 word list \<Rightarrow> nat \<Rightarrow> 16 word" where
  "revision_number fw k = ucast (push_bit 8 (fw ! (k + 1)) OR fw ! k)"

definition revision_at :: "32 word list \<Rightarrow> nat \<Rightarrow> fw_version" where
  "revision_at fw k = \<lparr>major = revision_number fw (k + 2), minor = revision_number fw k\<rparr>"

definition get_current_fw_rev :: "node_read \<Rightarrow> firmware_versions \<Rightarrow> int \<times> firmware_versions" where
  "get_current_fw_rev node v =
     (case read_fw_revision node (replicate SCU_IPC_VERSION_LEN_LONG 0) SCU_IPC_VERSION_LEN_LONG of
        (ret, fw) \<Rightarrow>
          if ret \<noteq> 0 then (ret, v)
          else (ret, v\<lparr>scubootstrap := revision_at fw 0, scu := revision_at fw 4, ia32 := revision_at fw 8,
                       valhooks := revision_at fw 12, ifwi := revision_at fw 16,
                       chaabi := revision_at fw 20, mia := revision_at fw 24\<rparr>))"

section \<open>Lemmas: the header scan\<close>

text \<open>The reference: every position, in steps of four, that has room for a header and the magic.\<close>

definition fip_offsets :: "bytes \<Rightarrow> nat list" where
  "fip_offsets data = filter (\<lambda>k. k + sizeof_FIP_header \<le> length data \<and> le32_at data k = FIP_PATTERN)
     (map (\<lambda>i. 4 * i) [0..<length data div 4])"

function fip_headers :: "bytes \<Rightarrow> bytes list" where
  "fip_headers data =
     (if length data \<ge> sizeof_FIP_header
      then (if le32_at data 0 = FIP_PATTERN then [data] else []) @ fip_headers (drop 4 data)
      else [])"
  by pat_completeness auto
termination by (relation "measure length") (auto simp: sizeof_FIP_header_def)

declare fip_headers.simps [simp del]

lemma sizeof_FIP_header: "sizeof_FIP_header = 352"
  by (simp add: sizeof_FIP_header_def fip_version_block_def fip_version_block_chxx_def)

lemma le32_at_drop: "j + k + 4 \<le> length p \<Longrightarrow> le32_at (drop j p) k = le32_at p (j + k)"
  by (simp add: le32_at_def add.assoc)

lemma find_magic_headers:
  "(case find_magic data of (found, d) \<Rightarrow>
      if found then length d \<ge> sizeof_FIP_header \<and> fip_headers data = d # fip_headers (drop 4 d)
      else length d < sizeof_FIP_header \<and> fip_headers data = [])"
proof (induction data rule: find_magic.induct)
  case (1 data)
  then show ?case
    by (auto simp: find_magic.simps [of data] fip_headers.simps [of data] split: prod.splits)
qed

lemma image_loop_headers:
  "image_loop found v data =
     (if length data \<ge> sizeof_FIP_header \<and> \<not> found \<and> fip_headers data = [] then (-1, v)
      else (0, fold (\<lambda>d. update_versions (FIP_header_at d)) (fip_headers data) v))"
proof (induction found v data rule: image_loop.induct)
  case (1 found v data)
  show ?case
  proof (cases "length data \<ge> sizeof_FIP_header")
    case False
    then show ?thesis by (simp add: image_loop.simps [of _ _ data] fip_headers.simps [of data])
  next
    case True
    obtain f d where fd: "find_magic data = (f, d)" by fastforce
    note h = find_magic_headers [of data, unfolded fd prod.case]
    show ?thesis
    proof (cases f)
      case False
      with h True fd show ?thesis by (simp add: image_loop.simps [of _ _ data] Let_def)
    next
      case f: True
      from h f have d: "length d \<ge> sizeof_FIP_header" "fip_headers data = d # fip_headers (drop 4 d)" by auto
      have "image_loop found v data = image_loop True (update_versions (FIP_header_at d) v) (drop 4 d)"
        using True f fd d(1) by (simp add: image_loop.simps [of _ _ data] Let_def)
      also have "\<dots> = (0, fold (\<lambda>d. update_versions (FIP_header_at d)) (fip_headers (drop 4 d))
          (update_versions (FIP_header_at d) v))"
        using 1 [OF True refl refl] f fd d(1) by simp
      finally show ?thesis using d(2) by simp
    qed
  qed
qed

lemma fip_headers_offsets: "fip_headers data = map (\<lambda>k. drop k data) (fip_offsets data)"
proof (induction data rule: fip_headers.induct)
  case (1 data)
  show ?case
  proof (cases "length data \<ge> sizeof_FIP_header")
    case False
    then show ?thesis by (simp add: fip_headers.simps [of data] fip_offsets_def filter_empty_conv)
  next
    case True
    then have len: "352 \<le> length data" by (simp add: sizeof_FIP_header)
    let ?P = "\<lambda>k. k + sizeof_FIP_header \<le> length data \<and> le32_at data k = FIP_PATTERN"
    have len4: "length data div 4 = Suc (length (drop 4 data) div 4)" using len by simp
    have upt: "map (\<lambda>i. 4 * i) [0..<length data div 4]
        = 0 # map (\<lambda>k. 4 + k) (map (\<lambda>i. 4 * i) [0..<length (drop 4 data) div 4])"
      unfolding len4 by (simp add: upt_conv_Cons map_Suc_upt [symmetric] del: upt_Suc length_drop)
    have step: "filter ?P (map (\<lambda>k. 4 + k) ks)
        = map (\<lambda>k. 4 + k) (filter (\<lambda>k. k + sizeof_FIP_header \<le> length (drop 4 data)
            \<and> le32_at (drop 4 data) k = FIP_PATTERN) ks)" for ks
    proof (induction ks)
      case (Cons k ks)
      have "?P (4 + k) \<longleftrightarrow> k + sizeof_FIP_header \<le> length (drop 4 data) \<and> le32_at (drop 4 data) k = FIP_PATTERN"
        using len le32_at_drop [of 4 k data] by (auto simp: sizeof_FIP_header)
      with Cons show ?case by simp
    qed simp
    have "fip_offsets data = (if le32_at data 0 = FIP_PATTERN then [0] else [])
        @ map (\<lambda>k. 4 + k) (fip_offsets (drop 4 data))"
      unfolding fip_offsets_def upt step [symmetric] using True by (simp del: map_map)
    moreover have "fip_headers (drop 4 data) = map (\<lambda>k. drop (4 + k) data) (fip_offsets (drop 4 data))"
      using 1 [OF True] by (simp add: add.commute)
    ultimately show ?thesis using True by (simp add: fip_headers.simps [of data] comp_def)
  qed
qed

lemma image_fw_rev_offsets:
  "get_image_fw_rev data (Some v0) =
     (if length data \<ge> sizeof_FIP_header \<and> fip_offsets data = [] then (-1, Some zero_versions)
      else (0, Some (fold (\<lambda>k. update_versions (FIP_header_at (drop k data))) (fip_offsets data) zero_versions)))"
  by (simp add: get_image_fw_rev_def image_loop_headers fip_headers_offsets fold_map comp_def)

text \<open>A version number is the last one that is not zero.\<close>

definition last_nonzero :: "'a::zero list \<Rightarrow> 'a" where
  "last_nonzero xs = (let ys = filter (\<lambda>x. x \<noteq> 0) xs in if ys = [] then 0 else last ys)"

lemma last_nonzero_snoc: "last_nonzero (xs @ [x]) = (if x \<noteq> 0 then x else last_nonzero xs)"
  by (simp add: last_nonzero_def Let_def)

lemma fold_update_ifwi:
  "major (ifwi (fold (\<lambda>k. update_versions (FIP_header_at (drop k data))) ks zero_versions))
     = last_nonzero (map (\<lambda>k. major (ifwi_rev (FIP_header_at (drop k data)))) ks)
   \<and> minor (ifwi (fold (\<lambda>k. update_versions (FIP_header_at (drop k data))) ks zero_versions))
     = last_nonzero (map (\<lambda>k. minor (ifwi_rev (FIP_header_at (drop k data)))) ks)"
proof (induction ks rule: rev_induct)
  case Nil
  show ?case by (simp add: last_nonzero_def zero_versions_def zero_version_def)
next
  case (snoc k ks)
  then show ?case by (simp add: last_nonzero_snoc update_versions_def update_version_def)
qed

section \<open>Lemmas: the revision node\<close>

definition hex_digit :: "nat \<Rightarrow> char" where
  "hex_digit n = (if n < 10 then char_of (48 + n) else char_of (87 + n))"

definition show_byte :: "nat \<Rightarrow> string" where
  "show_byte b = [hex_digit (b div 16), hex_digit (b mod 16)]"

lemma hex_digit_facts:
  assumes "n < 16"
  shows "is_hex (hex_digit n)" and "hex_val (hex_digit n) = int n" and "\<not> is_space (hex_digit n)"
    and "hex_digit n \<noteq> CHR ''x''" and "hex_digit n \<noteq> CHR ''X''" and "\<not> is_blank (hex_digit n)"
    and "hex_digit n \<noteq> CHR ''-''" and "hex_digit n \<noteq> CHR ''+''" and "hex_digit n \<noteq> CHR 0x00"
proof -
  have v: "of_char (hex_digit n) = (if n < 10 then 48 + n else 87 + n)"
    using assms by (simp add: hex_digit_def)
  have ne: "hex_digit n \<noteq> c" if "of_char c < (48::nat) \<or> 102 < (of_char c :: nat)" for c
    using that v assms by (auto split: if_splits)
  show "is_hex (hex_digit n)" and "hex_val (hex_digit n) = int n" and "\<not> is_space (hex_digit n)"
    using assms by (simp_all add: is_hex_def hex_val_def is_digit_def digit_val_def is_space_def v)
  show "hex_digit n \<noteq> CHR ''x''" and "hex_digit n \<noteq> CHR ''-''" and "hex_digit n \<noteq> CHR ''+''"
    and "hex_digit n \<noteq> CHR 0x00" and "\<not> is_blank (hex_digit n)"
    by (simp_all add: ne is_blank_def)
  show "hex_digit n \<noteq> CHR ''X''"
    using v assms by (auto dest: arg_cong [where f = "of_char :: char \<Rightarrow> nat"] split: if_splits)
qed

lemma scan_show_byte:
  assumes "b < 256"
  shows "scan_hex (show_byte b) = (1, word_of_nat b)"
proof -
  have d: "b div 16 < 16" "b mod 16 < 16" using assms by auto
  note f = hex_digit_facts [OF d(1)] hex_digit_facts [OF d(2)]
  have "int (b div 16) * 16 + int (b mod 16) = int b"
    by (metis div_mult_mod_eq of_nat_add of_nat_mult of_nat_numeral)
  with f show ?thesis by (simp add: scan_hex_def show_byte_def Let_def)
qed

definition revision_node :: "nat list \<Rightarrow> string" where
  "revision_node bs = concat (map (\<lambda>b. show_byte b @ '' '') bs)"

lemma revision_node_no_zero: "\<forall>b\<in>set bs. b < 256 \<Longrightarrow> CHR 0x00 \<notin> set (revision_node bs)"
proof -
  assume "\<forall>b\<in>set bs. b < 256"
  then have "CHR 0x00 \<notin> set (show_byte b)" if "b \<in> set bs" for b
  proof -
    have "b div 16 < 16" "b mod 16 < 16" using that \<open>\<forall>b\<in>set bs. b < 256\<close> by auto
    then have "hex_digit (b div 16) \<noteq> CHR 0x00" "hex_digit (b mod 16) \<noteq> CHR 0x00"
      by (simp_all add: hex_digit_facts(9))
    then show ?thesis by (simp add: show_byte_def eq_commute)
  qed
  then show ?thesis by (auto simp: revision_node_def)
qed

lemma tokens_revision_node:
  assumes "\<forall>b\<in>set bs. b < 256"
  shows "tokens is_blank (revision_node bs) = map show_byte bs"
proof -
  have "\<forall>t\<in>set (map show_byte bs). t \<noteq> [] \<and> (\<forall>c\<in>set t. \<not> is_blank c)"
  proof (clarsimp simp: show_byte_def)
    fix b assume "b \<in> set bs"
    then have "b div 16 < 16" "b mod 16 < 16" using assms by auto
    then show "\<not> is_blank (hex_digit (b div 16)) \<and> \<not> is_blank (hex_digit (b mod 16))"
      by (simp add: hex_digit_facts(6))
  qed
  moreover have "is_blank (CHR '' '')" "\<forall>c\<in>set []. is_blank c" by (simp_all add: is_blank_def)
  ultimately have "tokens is_blank (concat (map (\<lambda>t. t @ '' '') (map show_byte bs)) @ []) = map show_byte bs"
    by (rule tokens_terminated)
  then show ?thesis by (simp add: revision_node_def comp_def)
qed

lemma revision_node_length: "length (revision_node bs) = 3 * length bs"
  by (induction bs) (simp_all add: revision_node_def show_byte_def)

lemma revision_loop_bytes:
  assumes "\<forall>b\<in>set bs. b < 256" and "i + length bs \<le> len" and "length fw = len"
  shows "revision_loop (map show_byte bs) i len fw
    = (0, take i fw @ map word_of_nat bs @ drop (i + length bs) fw)"
  using assms
proof (induction bs arbitrary: i fw)
  case (Cons b bs)
  then have i: "i < length fw" and b: "b < 256" by auto
  have "fw[i := word_of_nat b] = take i fw @ word_of_nat b # drop (Suc i) fw"
    using i by (simp add: upd_conv_take_nth_drop)
  with Cons i b show ?case by (simp add: scan_show_byte take_Suc_conv_app_nth)
qed simp

lemma ucast_word_of_nat: "ucast (word_of_nat m :: 32 word) = (word_of_nat m :: 16 word)"
  by (rule bit_word_eqI) (simp add: bit_simps)

lemma revision_number_bytes:
  assumes "fw ! k = word_of_nat a" and "fw ! (k + 1) = word_of_nat b" and "a < 256" "b < 256"
  shows "revision_number fw k = word_of_nat (256 * b + a)"
proof -
  have low: "n < 8" if bit: "bit (word_of_nat a :: 32 word) n" for n
  proof (rule ccontr)
    assume n: "\<not> n < 8" 
    have "a < 2 ^ n" using assms(3) n power_increasing [of 8 n "2::nat"] by simp
    then have "\<not> bit a n" by (simp add: bit_iff_odd)
    with bit show False by (simp add: bit_of_nat_iff)
  qed
  then have "push_bit 8 (word_of_nat b) OR word_of_nat a = push_bit 8 (word_of_nat b) + (word_of_nat a :: 32 word)"
    using low by (intro disjunctive_add [symmetric]) (force simp: bit_push_bit_iff)
  also have "\<dots> = word_of_nat (256 * b + a)" by (simp add: push_bit_eq_mult)
  finally have "revision_number fw k = ucast (word_of_nat (256 * b + a) :: 32 word)"
    using assms(1,2) by (simp add: revision_number_def)
  also have "\<dots> = word_of_nat (256 * b + a)"
    by (rule ucast_word_of_nat)
  finally show ?thesis .
qed

section \<open>Properties\<close>

text \<open>
  C39. \<open>get_image_fw_rev\<close> finds exactly the FIP headers of the image: it fails only for an image
  that has room for a header but no magic at any of the positions 0, 4, 8, .. that leave room
  for one, and otherwise its result is that of applying the headers at those positions in
  order; in particular the IFWI version is, number by number, the last one that is not zero.
\<close>

theorem image_versions_correct:
  "get_image_fw_rev data (Some v0) =
     (if length data \<ge> 352 \<and> fip_offsets data = [] then (-1, Some zero_versions)
      else (0, Some (fold (\<lambda>k. update_versions (FIP_header_at (drop k data))) (fip_offsets data) zero_versions)))
   \<and> major (ifwi (fold (\<lambda>k. update_versions (FIP_header_at (drop k data))) (fip_offsets data) zero_versions))
     = last_nonzero (map (\<lambda>k. le16_at (drop k data) 346) (fip_offsets data))"
  using image_fw_rev_offsets [of data v0] fold_update_ifwi [of data "fip_offsets data"]
  by (simp add: sizeof_FIP_header FIP_header_at_def version_block_at_def fip_version_block_def
      fip_version_block_chxx_def)

text \<open>
  An image shorter than a FIP header is reported as a success with all versions zero.
\<close>

theorem short_image_reported_as_success:
  assumes "length data < 352"
  shows "get_image_fw_rev data (Some v0) = (0, Some zero_versions)"
  using assms by (simp add: get_image_fw_rev_def image_loop.simps sizeof_FIP_header)

theorem short_image_reported_as_success_witness:
  "get_image_fw_rev [1, 2, 3] (Some zero_versions) = (0, Some zero_versions)"
  by (rule short_image_reported_as_success) simp

text \<open>The version of a component that starts at byte \<open>k\<close>.\<close>

definition version_of_bytes :: "nat list \<Rightarrow> nat \<Rightarrow> fw_version" where
  "version_of_bytes bs k = \<lparr>major = word_of_nat (256 * bs ! (k + 3) + bs ! (k + 2)),
     minor = word_of_nat (256 * bs ! (k + 1) + bs ! k)\<rparr>"

text \<open>
  C40. Reading the running firmware's versions inverts the printing of the revision node: from 32
  bytes printed as two hexadecimal digits and a space each, every major and minor number is
  put together from its two bytes, low byte first, the minor number of a component before the
  major one.
\<close>

theorem current_versions_of_node:
  assumes "length bs = 32" and "\<forall>b\<in>set bs. b < 256"
  shows "get_current_fw_rev (Content (revision_node bs)) v =
    (0, \<lparr>scubootstrap = version_of_bytes bs 0, scu = version_of_bytes bs 4, ia32 = version_of_bytes bs 8,
      valhooks = version_of_bytes bs 12, ifwi = version_of_bytes bs 16, chaabi = version_of_bytes bs 20,
      mia = version_of_bytes bs 24\<rparr>)"
proof -
  have c: "c_string (revision_node bs @ [CHR 0x00]) = revision_node bs"
    by (rule c_string_id [OF revision_node_no_zero [OF assms(2)]])
  have fw: "read_fw_revision (Content (revision_node bs)) (replicate 32 0) 32 = (0, map word_of_nat bs)"
    using assms c tokens_revision_node [OF assms(2)] revision_loop_bytes [OF assms(2), of 0 32 "replicate 32 0"]
    by (simp add: read_fw_revision_def READ_SZ_def revision_node_length)
  have "revision_at (map word_of_nat bs) k = version_of_bytes bs k" if "k + 3 < 32" for k
    using assms that revision_number_bytes [of "map word_of_nat bs" k "bs ! k" "bs ! (k + 1)"]
      revision_number_bytes [of "map word_of_nat bs" "k + 2" "bs ! (k + 2)" "bs ! (k + 2 + 1)"]
    by (simp add: revision_at_def version_of_bytes_def eval_nat_numeral)
  with fw show ?thesis by (simp add: get_current_fw_rev_def SCU_IPC_VERSION_LEN_LONG_def)
qed

theorem current_versions_of_node_witness:
  "get_current_fw_rev (Content (revision_node (map (\<lambda>i. 7 * i) [0..<32]))) zero_versions =
    (0, \<lparr>scubootstrap = version_of_bytes (map (\<lambda>i. 7 * i) [0..<32]) 0,
      scu = version_of_bytes (map (\<lambda>i. 7 * i) [0..<32]) 4, ia32 = version_of_bytes (map (\<lambda>i. 7 * i) [0..<32]) 8,
      valhooks = version_of_bytes (map (\<lambda>i. 7 * i) [0..<32]) 12, ifwi = \<lparr>major = 34174, minor = 30576\<rparr>,
      chaabi = version_of_bytes (map (\<lambda>i. 7 * i) [0..<32]) 20, mia = version_of_bytes (map (\<lambda>i. 7 * i) [0..<32]) 24\<rparr>)"
proof -
  have "version_of_bytes (map (\<lambda>i. 7 * i) [0..<32]) 16 = \<lparr>major = 34174, minor = 30576\<rparr>"
    by (simp add: version_of_bytes_def)
  then show ?thesis
    using current_versions_of_node [of "map (\<lambda>i. 7 * i) [0..<32]" zero_versions] by simp
qed

text \<open>
  A revision node that does not parse is reported as a success: when the first word is not a
  number, the result is 0 and every version is zero.
\<close>

theorem unparsable_node_reported_as_success:
  assumes "tokens is_blank (c_string (take 255 s @ [CHR 0x00])) = p # ps" and "fst (scan_hex p) = 0"
  shows "get_current_fw_rev (Content s) v = (0, zero_versions)"
proof -
  obtain w where "scan_hex p = (0, w)" using assms(2) by (cases "scan_hex p") simp
  then have "read_fw_revision (Content s) (replicate 32 0) 32 = (0, replicate 32 0)"
    using assms(1) by (simp add: read_fw_revision_def READ_SZ_def)
  moreover have "revision_at (replicate 32 0) k = zero_version" if "k + 3 < 32" for k
    using that by (simp add: revision_at_def revision_number_def zero_version_def)
  ultimately show ?thesis
    by (simp add: get_current_fw_rev_def SCU_IPC_VERSION_LEN_LONG_def zero_versions_def)
qed

theorem unparsable_node_reported_as_success_witness:
  "get_current_fw_rev (Content ''unknown'') zero_versions = (0, zero_versions)"
proof (rule unparsable_node_reported_as_success [where ps = "[]"])
  show "tokens is_blank (c_string (take 255 ''unknown'' @ [CHR 0x00])) = [''unknown'']"
    by (simp add: c_string_def tokens.simps strtok_r_def is_blank_def)
  show "fst (scan_hex ''unknown'') = 0"
    by (simp add: scan_hex_def is_space_def is_hex_def is_digit_def Let_def)
qed
end
