(* ===== verification/UmipFlash.thy ===== *)
theory UmipFlash
  imports FwVersion
begin

text \<open>
  \<^verbatim>\<open>recovery/recovery_updater.cpp\<close>: the updater function that writes an IFWI firmware image to
  the two eMMC boot partitions, keeps the token area of each and recomputes the checksums.

  A boot partition is the list of the \<open>BOOT_IFWI_SIZE\<close> bytes that \<open>mmap\<close> shows; the outcomes of
  the system calls are parameters. On the device \<open>size_t\<close> has 32 bits.
\<close>

section \<open>Constants\<close>

definition BOOT_IFWI_SIZE :: nat where "BOOT_IFWI_SIZE = 0x400000"
definition BOOT_UMIP_SIZE :: nat where "BOOT_UMIP_SIZE = 0x10000"
definition BOOT_UMIP_SECTOR_SIZE :: nat where "BOOT_UMIP_SECTOR_SIZE = 0x200"
definition BOOT_UMIP_XOR_OFFSET :: nat where "BOOT_UMIP_XOR_OFFSET = 0x7"
definition BOOT_IFWI_XOR_OFFSET :: nat where "BOOT_IFWI_XOR_OFFSET = 0x0112d8"
definition IFWI_OFFSET :: nat where "IFWI_OFFSET = 0"
definition TOKEN_UMIP_AREA_OFFSET :: nat where "TOKEN_UMIP_AREA_OFFSET = 0x4000"
definition TOKEN_UMIP_AREA_SIZE :: nat where "TOKEN_UMIP_AREA_SIZE = 0x2C00"

lemmas umip_consts = BOOT_IFWI_SIZE_def BOOT_UMIP_SIZE_def BOOT_UMIP_SECTOR_SIZE_def
  BOOT_UMIP_XOR_OFFSET_def BOOT_IFWI_XOR_OFFSET_def IFWI_OFFSET_def TOKEN_UMIP_AREA_OFFSET_def
  TOKEN_UMIP_AREA_SIZE_def

section \<open>Checksums\<close>

text \<open>The loop \<open>for (i = 0; i < size; i += 4)\<close> runs for \<open>size / 4\<close> values of \<open>i\<close>, rounded up.\<close>

definition xor_compute :: "bytes \<Rightarrow> nat \<Rightarrow> nat \<Rightarrow> 32 word" where
  "xor_compute p ptr sz =
     foldl (\<lambda>val i. val XOR le32_at p (ptr + 4 * i)) 0 [0..<(sz + 3) div 4]"

definition xor_factorize :: "32 word \<Rightarrow> 8 word" where
  "xor_factorize val = ucast ((val AND 0xff) XOR (drop_bit 8 val AND 0xff)
     XOR (drop_bit 16 val AND 0xff) XOR (drop_bit 24 val AND 0xff))"

definition update_sector_xor :: "bytes \<Rightarrow> nat \<Rightarrow> bytes" where
  "update_sector_xor p i =
     write32 p (4 * i) (xor_compute p (i * BOOT_UMIP_SECTOR_SIZE) BOOT_UMIP_SECTOR_SIZE)"

definition xor_update :: "bytes \<Rightarrow> bytes" where
  "xor_update p =
     (let p = foldl update_sector_xor p [2..<128];
          p = p[BOOT_UMIP_XOR_OFFSET := 0];
          p = p[BOOT_UMIP_XOR_OFFSET := xor_factorize (xor_compute p 0 BOOT_UMIP_SIZE)];
          p = write32 p BOOT_IFWI_XOR_OFFSET 0
      in write32 p BOOT_IFWI_XOR_OFFSET (xor_compute p 0 BOOT_IFWI_SIZE))"

section \<open>The partitions and the system calls\<close>

text \<open>
  \<open>read_only\<close> is the content of a partition's \<open>force_ro\<close> node. The calls of \<open>set_force_ro\<close> are
  numbered in their order: whether the \<open>open\<close> of call \<open>n\<close> works and what its \<open>write\<close> returns.
\<close>

record emmc =
  boot_bytes :: "nat \<Rightarrow> bytes"
  read_only :: "nat \<Rightarrow> bool"
  ro_calls :: nat

record emmc_env =
  malloc_ok :: bool
  ro_open :: "nat \<Rightarrow> bool"
  ro_write :: "nat \<Rightarrow> int"
  dev_open :: "nat \<Rightarrow> bool"
  dev_map :: "nat \<Rightarrow> bool"

definition set_force_ro :: "emmc_env \<Rightarrow> nat \<Rightarrow> bool \<Rightarrow> emmc \<Rightarrow> int \<times> emmc" where
  "set_force_ro env boot_index read_only_value st =
     (let n = ro_calls st; st = st\<lparr>ro_calls := n + 1\<rparr> in
      if \<not> ro_open env n then (-1, st)
      else
        let ret = ro_write env n in
        if ret \<le> 0 then (ret, st)
        else (0, st\<lparr>read_only := (read_only st)(boot_index := read_only_value)\<rparr>))"

text \<open>The code at the label \<open>err_boot1\<close>, after \<open>munmap\<close> and \<open>close\<close>.\<close>

definition err_boot :: "emmc_env \<Rightarrow> nat \<Rightarrow> bool \<Rightarrow> emmc \<Rightarrow> int \<times> emmc" where
  "err_boot env boot_index boot_partition_writable st =
     (-1, if boot_partition_writable then snd (set_force_ro env boot_index True st) else st)"

text \<open>
  What is stored into one mapped partition: the data (zeros for a null pointer) at the offset,
  the token area put back when a whole IFWI is written, and the checksums. \<open>size\<close> (here \<open>sz\<close>) bytes are
  read from \<open>data\<close>. A store outside the window is \<open>None\<close>.
\<close>

definition new_content :: "nat \<Rightarrow> bytes option \<Rightarrow> nat \<Rightarrow> bytes \<Rightarrow> bytes option" where
  "new_content addr_offset data sz ptr =
     (let token_data = take TOKEN_UMIP_AREA_SIZE (drop TOKEN_UMIP_AREA_OFFSET ptr);
          src = (case data of None \<Rightarrow> replicate sz 0 | Some d \<Rightarrow> take sz d)
      in if addr_offset + sz > BOOT_IFWI_SIZE then None
         else
           let ptr = write_at ptr addr_offset src;
               ptr = (if addr_offset = IFWI_OFFSET then write_at ptr TOKEN_UMIP_AREA_OFFSET token_data else ptr)
           in Some (xor_update ptr))"

text \<open>
  One pass of the loop over the two partitions: \<open>Inl\<close> when it jumps to an error label. The
  bound check is done in the 32 bits of the operands.
\<close>

definition write_boot :: "emmc_env \<Rightarrow> nat \<Rightarrow> bytes option \<Rightarrow> nat \<Rightarrow> nat \<Rightarrow> emmc
    \<Rightarrow> fault + ((int \<times> emmc) + emmc)" where
  "write_boot env addr_offset data sz boot_index st =
     (case set_force_ro env boot_index False st of (r, st) \<Rightarrow>
        if r \<noteq> 0 then Inr (Inl (err_boot env boot_index False st))
        else if \<not> dev_open env boot_index then Inr (Inl (err_boot env boot_index True st))
        else if \<not> dev_map env boot_index then Inr (Inl (err_boot env boot_index True st))
        else if (addr_offset + sz) mod 2 ^ 32 > BOOT_IFWI_SIZE
        then Inr (Inl (err_boot env boot_index True st))
        else (case new_content addr_offset data sz (boot_bytes st boot_index) of
                None \<Rightarrow> Inl OutOfBounds
              | Some content \<Rightarrow>
                  let st = st\<lparr>boot_bytes := (boot_bytes st)(boot_index := content)\<rparr>
                  in (case set_force_ro env boot_index True st of (r, st) \<Rightarrow>
                        if r \<noteq> 0 then Inr (Inl (err_boot env boot_index True st)) else Inr (Inr st))))"

fun write_boots :: "emmc_env \<Rightarrow> nat \<Rightarrow> bytes option \<Rightarrow> nat \<Rightarrow> nat list \<Rightarrow> emmc \<Rightarrow> fault + int \<times> emmc" where
  "write_boots env addr_offset data sz [] st = Inr (0, st)"
| "write_boots env addr_offset data sz (i # is) st =
     (case write_boot env addr_offset data sz i st of
        Inl f \<Rightarrow> Inl f
      | Inr (Inl (r, st')) \<Rightarrow> Inr (r, st')
      | Inr (Inr st') \<Rightarrow> write_boots env addr_offset data sz is st')"

definition write_umip_emmc :: "emmc_env \<Rightarrow> nat \<Rightarrow> bytes option \<Rightarrow> nat \<Rightarrow> emmc \<Rightarrow> fault + int \<times> emmc" where
  "write_umip_emmc env addr_offset data sz st =
     (if addr_offset = IFWI_OFFSET \<and> \<not> malloc_ok env then Inr (-1, st)
      else
        let sz = (if addr_offset = IFWI_OFFSET \<and> sz > BOOT_IFWI_SIZE then BOOT_IFWI_SIZE else sz)
        in write_boots env addr_offset data sz [0, 1] st)"

text \<open>\<open>char\<close> is signed on the device.\<close>

definition readbyte_umip_emmc :: "emmc_env \<Rightarrow> emmc \<Rightarrow> nat \<Rightarrow> int" where
  "readbyte_umip_emmc env st addr_offset =
     (if \<not> dev_open env 0 then -1
      else if \<not> dev_map env 0 then -1
      else if addr_offset < BOOT_UMIP_SIZE then sint (boot_bytes st 0 ! addr_offset)
      else -1)"

section \<open>The updater function\<close>

definition check_ifwi_file_scu_emmc :: "node_read \<Rightarrow> bytes \<Rightarrow> int" where
  "check_ifwi_file_scu_emmc node data =
     (case get_image_fw_rev data (Some zero_versions) of
        (r, img) \<Rightarrow>
          if r \<noteq> 0 then -1
          else (case get_current_fw_rev node zero_versions of
                  (r', dev_fw_rev) \<Rightarrow>
                    if r' \<noteq> 0 then -1
                    else if major (ifwi (the img)) \<noteq> major (ifwi dev_fw_rev) then -1
                    else 1))"

definition update_ifwi_file_scu_emmc :: "emmc_env \<Rightarrow> bytes \<Rightarrow> emmc \<Rightarrow> fault + int \<times> emmc" where
  "update_ifwi_file_scu_emmc env data st = write_umip_emmc env IFWI_OFFSET (Some data) (length data) st"

definition flash_ifwi_scu_emmc :: "emmc_env \<Rightarrow> node_read \<Rightarrow> bytes \<Rightarrow> emmc \<Rightarrow> fault + int \<times> emmc" where
  "flash_ifwi_scu_emmc env node data st =
     (let ret = check_ifwi_file_scu_emmc node data
      in if ret > 0 then update_ifwi_file_scu_emmc env data st else Inr (ret, st))"

text \<open>
  \<open>mofd.flash_ifwi\<close>: the arguments as evaluated (\<open>None\<close> when \<open>ReadArgs\<close> fails), the file by its
  name (\<open>None\<close> when it does not open), its length as \<open>ftell\<close> gives it, and whether the buffer is
  allocated. What \<open>fread\<close> leaves in the buffer is what the file gives and \<open>junk\<close> after it; its
  result is not looked at. The value is \<open>None\<close> when the updater script is aborted.
\<close>

record update_file =
  file_content :: bytes
  file_tell :: int

definition FlashIfwiMofdFn :: "emmc_env \<Rightarrow> node_read \<Rightarrow> (string \<Rightarrow> update_file option) \<Rightarrow> (nat \<Rightarrow> 8 word) \<Rightarrow> bool
    \<Rightarrow> nat \<Rightarrow> string list option \<Rightarrow> emmc \<Rightarrow> fault + string option \<times> emmc" where
  "FlashIfwiMofdFn env node files junk buffer_ok argc args st =
     (if argc \<noteq> 1 then Inr (None, st)
      else (case args of
        None \<Rightarrow> Inr (None, st)
      | Some a \<Rightarrow>
          let filename = a ! 0 in
          if filename = [] then Inr (None, st)
          else (case files filename of
            None \<Rightarrow> Inr (None, st)
          | Some f \<Rightarrow>
              let ifwi_size = file_tell f in
              if ifwi_size < 0 then Inr (None, st)
              else if \<not> buffer_ok then Inr (None, st)
              else
                let buffer = take (nat ifwi_size) (file_content f
                      @ map junk [length (file_content f)..<nat ifwi_size])
                in (case flash_ifwi_scu_emmc env node buffer st of
                      Inl e \<Rightarrow> Inl e
                    | Inr (r, st') \<Rightarrow> if r \<noteq> 0 then Inr (None, st') else Inr (Some [], st')))))"

section \<open>Lemmas: checksums\<close>

definition xor_words :: "(nat \<Rightarrow> 32 word) \<Rightarrow> nat \<Rightarrow> 32 word" where
  "xor_words f n = foldl (\<lambda>val i. val XOR f i) 0 [0..<n]"

lemma xor_words_simps [simp]: "xor_words f 0 = 0" "xor_words f (Suc n) = xor_words f n XOR f n"
  by (simp_all add: xor_words_def)

lemma xor_words_cong: "(\<And>i. i < n \<Longrightarrow> f i = g i) \<Longrightarrow> xor_words f n = xor_words g n"
  by (induction n) simp_all

lemma xor_cancel_left: "x XOR (x XOR y) = (y :: 32 word)"
  by (simp add: xor.assoc [symmetric])

lemma xor_words_change:
  "(\<And>i. i < n \<Longrightarrow> i \<noteq> j \<Longrightarrow> f i = g i) \<Longrightarrow> j < n \<Longrightarrow> xor_words g n = xor_words f n XOR (f j XOR g j)"
proof (induction n)
  case (Suc n)
  show ?case
  proof (cases "j = n")
    case True
    with Suc.prems have "xor_words g n = xor_words f n" by (intro xor_words_cong) simp
    with True show ?thesis by (simp add: xor.assoc xor_cancel_left)
  next
    case False
    with Suc show ?thesis by (simp add: ac_simps)
  qed
qed simp

lemma xor_compute_words:
  "xor_compute p ptr (4 * n) = xor_words (\<lambda>i. le32_at p (ptr + 4 * i)) n"
proof -
  have "(4 * n + 3) div 4 = n" by simp
  then show ?thesis by (simp add: xor_compute_def xor_words_def)
qed

lemma xor_compute_same_outside:
  assumes "same_outside A p q" and "ptr + 4 * n \<le> length p" and "{ptr..<ptr + 4 * n} \<inter> A = {}"
  shows "xor_compute q ptr (4 * n) = xor_compute p ptr (4 * n)"
  unfolding xor_compute_words
proof (rule xor_words_cong)
  fix i assume "i < n"
  then have "{ptr + 4 * i..<ptr + 4 * i + 4} \<subseteq> {ptr..<ptr + 4 * n}" "ptr + 4 * i + 4 \<le> length p"
    using assms(2) by auto
  with assms(3) show "le32_at q (ptr + 4 * i) = le32_at p (ptr + 4 * i)"
    by (intro same_outside_le32 [OF assms(1)]) blast+
qed

text \<open>A word that holds the XOR of all the others makes the XOR of all of them zero.\<close>

lemma xor_compute_complete:
  assumes "4 * n \<le> length p" and "j < n" and "le32_at p (4 * j) = 0"
  shows "xor_compute (write32 p (4 * j) (xor_compute p 0 (4 * n))) 0 (4 * n) = 0"
proof -
  let ?v = "xor_compute p 0 (4 * n)"
  let ?q = "write32 p (4 * j) ?v"
  have len: "4 * j + 4 \<le> length p" using assms(1,2) by simp
  have "le32_at p (4 * i) = le32_at ?q (4 * i)" if "i < n" "i \<noteq> j" for i
    using that assms(1) by (intro same_outside_le32 [OF same_outside_write32 [OF len], symmetric]) auto
  then have "xor_words (\<lambda>i. le32_at ?q (4 * i)) n
      = xor_words (\<lambda>i. le32_at p (4 * i)) n XOR (le32_at p (4 * j) XOR le32_at ?q (4 * j))"
    using assms(2) by (intro xor_words_change) auto
  also have "\<dots> = 0"
    using le32_at_write32_same [OF len] assms(3) by (simp add: xor_compute_words)
  finally show ?thesis by (simp add: xor_compute_words [of ?q])
qed

lemma byte_mask: "ucast (w AND 0xff) = (ucast w :: 8 word)" for w :: "32 word"
proof -
  have "w AND 0xff = take_bit 8 w" by (simp add: take_bit_eq_mask mask_eq_exp_minus_1)
  moreover have "ucast (take_bit 8 w) = (ucast w :: 8 word)"
    by (rule bit_word_eqI) (simp add: bit_simps)
  ultimately show ?thesis by simp
qed

lemma xor_factorize_bytes:
  "xor_factorize w = ucast w XOR ucast (drop_bit 8 w) XOR ucast (drop_bit 16 w) XOR ucast (drop_bit 24 w)"
proof -
  have "ucast (a XOR b) = (ucast a XOR ucast b :: 8 word)" for a b :: "32 word"
    by (rule bit_word_eqI) (simp add: bit_simps)
  then show ?thesis unfolding xor_factorize_def by (simp only: byte_mask)
qed

lemma xor_factorize_xor: "xor_factorize (a XOR b) = xor_factorize a XOR xor_factorize b"
  by (rule bit_word_eqI) (auto simp: xor_factorize_bytes bit_simps)

lemma xor_factorize_top: "xor_factorize (push_bit 24 (ucast b)) = b"
  by (rule bit_word_eqI) (auto simp: xor_factorize_bytes bit_simps)

lemma le32_at_top_byte:
  assumes "k + 3 < length p" and "p ! (k + 3) = 0"
  shows "le32_at (p[k + 3 := b]) k = le32_at p k XOR push_bit 24 (ucast b)"
proof (rule bit_word_eqI)
  fix n assume "n < LENGTH(32)"
  then show "bit (le32_at (p[k + 3 := b]) k) n = bit (le32_at p k XOR push_bit 24 (ucast b)) n"
    using assms by (auto simp: le32_at_bit bit_xor_iff bit_push_bit_iff bit_ucast_iff byte_high_bit)
qed

lemma xor_compute_factor_complete:
  assumes "4 * n \<le> length p" and "1 < n" and "p ! 7 = 0"
  shows "xor_factorize (xor_compute (p[7 := xor_factorize (xor_compute p 0 (4 * n))]) 0 (4 * n)) = 0"
proof -
  let ?b = "xor_factorize (xor_compute p 0 (4 * n))"
  let ?q = "p[7 := ?b]"
  have "le32_at p (4 * i) = le32_at ?q (4 * i)" if "i < n" "i \<noteq> 1" for i
    using that assms(1) by (intro same_outside_le32 [OF same_outside_update, symmetric]) auto
  then have "xor_words (\<lambda>i. le32_at ?q (4 * i)) n
      = xor_words (\<lambda>i. le32_at p (4 * i)) n XOR (le32_at p (4 * 1) XOR le32_at ?q (4 * 1))"
    using assms(2) by (intro xor_words_change) auto
  moreover have "le32_at ?q 4 = le32_at p 4 XOR push_bit 24 (ucast ?b)"
    using le32_at_top_byte [of 4 p ?b] assms by simp
  ultimately have "xor_compute ?q 0 (4 * n) = xor_compute p 0 (4 * n) XOR push_bit 24 (ucast ?b)"
    by (simp add: xor_compute_words xor_cancel_left)
  then show ?thesis by (simp add: xor_factorize_xor xor_factorize_top)
qed

lemma update_sector_outside:
  assumes "65536 \<le> length p" and "i < 128"
  shows "same_outside {4 * i..<4 * i + 4} p (update_sector_xor p i)"
  using assms by (simp add: update_sector_xor_def same_outside_write32)

lemma sector_xor_eq: "xor_compute p (i * BOOT_UMIP_SECTOR_SIZE) BOOT_UMIP_SECTOR_SIZE = xor_compute p (512 * i) (4 * 128)"
  by (simp add: BOOT_UMIP_SECTOR_SIZE_def mult.commute)

lemma sector_entries:
  assumes "65536 \<le> length p" and "2 \<le> m" and "m \<le> 128"
  shows "same_outside {8..<4 * m} p (foldl update_sector_xor p [2..<m])
    \<and> (\<forall>i\<in>{2..<m}. le32_at (foldl update_sector_xor p [2..<m]) (4 * i) = xor_compute p (512 * i) (4 * 128))"
  using assms(2,3)
proof (induction m rule: dec_induct)
  case base
  show ?case by (simp add: same_outside_refl)
next
  case (step m)
  let ?q = "foldl update_sector_xor p [2..<m]" and ?q' = "foldl update_sector_xor p [2..<Suc m]"
  have q: "same_outside {8..<4 * m} p ?q"
    "\<forall>i\<in>{2..<m}. le32_at ?q (4 * i) = xor_compute p (512 * i) (4 * 128)"
    using step by auto
  have q': "?q' = update_sector_xor ?q m" using step.hyps by simp
  have len: "65536 \<le> length ?q" using q(1) assms(1) by (simp add: same_outside_def)
  have out: "same_outside {4 * m..<4 * m + 4} ?q ?q'"
    using update_sector_outside [OF len] step.prems unfolding q' by simp
  have "same_outside {8..<4 * Suc m} p ?q'"
    using same_outside_mono [OF same_outside_trans [OF q(1) out], of "{8..<4 * Suc m}"] step.hyps by auto
  moreover have "le32_at ?q' (4 * i) = xor_compute p (512 * i) (4 * 128)" if "i \<in> {2..<Suc m}" for i
  proof (cases "i = m")
    case True
    have "le32_at ?q' (4 * m) = xor_compute ?q (512 * m) (4 * 128)"
      using len step.prems unfolding q' update_sector_xor_def sector_xor_eq
      by (intro le32_at_write32_same) simp
    also have "\<dots> = xor_compute p (512 * m) (4 * 128)"
      using step assms(1) by (intro xor_compute_same_outside [OF q(1)]) auto
    finally show ?thesis using True by simp
  next
    case False
    then have "le32_at ?q' (4 * i) = le32_at ?q (4 * i)"
      using that step.prems len by (intro same_outside_le32 [OF out]) auto
    then show ?thesis using q(2) that False by simp
  qed
  ultimately show ?case by blast
qed

text \<open>What the checksums promise, and what \<open>xor_update\<close> leaves alone.\<close>

definition checksums_valid :: "bytes \<Rightarrow> bool" where
  "checksums_valid p \<longleftrightarrow>
     (\<forall>i\<in>{2..<128}. le32_at p (4 * i) = xor_compute p (i * BOOT_UMIP_SECTOR_SIZE) BOOT_UMIP_SECTOR_SIZE)
     \<and> xor_factorize (xor_compute p 0 BOOT_UMIP_SIZE) = 0
     \<and> xor_compute p 0 BOOT_IFWI_SIZE = 0"

definition checksum_area :: "nat set" where
  "checksum_area = {BOOT_UMIP_XOR_OFFSET..<4 * 128} \<union> {BOOT_IFWI_XOR_OFFSET..<BOOT_IFWI_XOR_OFFSET + 4}"

lemma umip_words: "BOOT_UMIP_SIZE = 4 * 16384" "BOOT_IFWI_SIZE = 4 * 1048576" "BOOT_IFWI_XOR_OFFSET = 4 * 17590"
  by (simp_all add: umip_consts)

text \<open>
  Its stages: \<open>q1\<close> has the sector entries, \<open>q3\<close> the byte that completes the first area; then the word
  that completes the whole image is stored.
\<close>

lemma xor_update_stages:
  assumes "length p = BOOT_IFWI_SIZE"
  obtains q1 q3 where "length q1 = 4194304" "length q3 = 4194304" "same_outside {8..<512} p q1"
    "\<forall>i\<in>{2..<128}. le32_at q1 (4 * i) = xor_compute p (512 * i) (4 * 128)"
    "xor_factorize (xor_compute q3 0 (4 * 16384)) = 0"
    "same_outside ({7} \<union> {70360..<70364}) q1 (xor_update p)"
    "same_outside {70360..<70364} q3 (xor_update p)"
    "xor_compute (xor_update p) 0 (4 * 1048576) = 0"
proof -
  define q1 where "q1 = foldl update_sector_xor p [2..<128]"
  define q2 where "q2 = q1[7 := 0]"
  define q3 where "q3 = q2[7 := xor_factorize (xor_compute q2 0 (4 * 16384))]"
  define q4 where "q4 = write32 q3 (4 * 17590) 0"
  define q5 where "q5 = write32 q4 (4 * 17590) (xor_compute q4 0 (4 * 1048576))"
  have eq: "xor_update p = q5"
    by (simp only: xor_update_def Let_def q5_def q4_def q3_def q2_def q1_def umip_words
        BOOT_UMIP_XOR_OFFSET_def)
  have len: "length p = 4194304" using assms by (simp add: BOOT_IFWI_SIZE_def)
  then have "65536 \<le> length p" by simp
  from sector_entries [OF this, of 128]
  have s1: "same_outside {8..<512} p q1" "\<forall>i\<in>{2..<128}. le32_at q1 (4 * i) = xor_compute p (512 * i) (4 * 128)"
    by (simp_all add: q1_def)
  have l1: "length q1 = 4194304" using s1(1) len by (simp add: same_outside_def)
  have s2: "same_outside {7} q1 q2" unfolding q2_def by (rule same_outside_update)
  have s3: "same_outside {7} q2 q3" unfolding q3_def by (rule same_outside_update)
  have l3: "length q2 = 4194304" "length q3 = 4194304" using l1 by (simp_all add: q3_def q2_def)
  have s4: "same_outside {70360..<70364} q3 q4"
    using same_outside_write32 [of "4 * 17590" q3] l3 by (simp add: q4_def)
  have l4: "length q4 = 4194304" using s4 l3 by (simp add: same_outside_def)
  have s5: "same_outside {70360..<70364} q4 q5"
    using same_outside_write32 [of "4 * 17590" q4] l4 by (simp add: q5_def)
  show thesis
  proof (rule that [OF l1 l3(2) s1, unfolded eq])
    show "xor_factorize (xor_compute q3 0 (4 * 16384)) = 0"
      unfolding q3_def using l1 by (intro xor_compute_factor_complete) (simp_all add: q2_def)
    show "same_outside ({7} \<union> {70360..<70364}) q1 q5"
      using same_outside_mono [OF same_outside_trans [OF same_outside_trans [OF s2 s3]
          same_outside_trans [OF s4 s5]]] by blast
    show "same_outside {70360..<70364} q3 q5"
      using same_outside_mono [OF same_outside_trans [OF s4 s5]] by blast
    show "xor_compute q5 0 (4 * 1048576) = 0"
      unfolding q5_def using l3 l4
      by (intro xor_compute_complete) (simp_all add: q4_def le32_at_write32_same)
  qed
qed

lemma xor_update_correct:
  assumes "length p = BOOT_IFWI_SIZE"
  shows "checksums_valid (xor_update p)" and "same_outside checksum_area p (xor_update p)"
proof -
  have len: "length p = 4194304" using assms by (simp add: BOOT_IFWI_SIZE_def)
  obtain q1 q3 where l: "length q1 = 4194304" "length q3 = 4194304"
    and s1: "same_outside {8..<512} p q1"
    and e1: "\<forall>i\<in>{2..<128}. le32_at q1 (4 * i) = xor_compute p (512 * i) (4 * 128)"
    and f3: "xor_factorize (xor_compute q3 0 (4 * 16384)) = 0"
    and s15: "same_outside ({7} \<union> {70360..<70364}) q1 (xor_update p)"
    and s35: "same_outside {70360..<70364} q3 (xor_update p)"
    and ifwi: "xor_compute (xor_update p) 0 (4 * 1048576) = 0"
    by (rule xor_update_stages [OF assms])
  have all: "same_outside ({8..<512} \<union> ({7} \<union> {70360..<70364})) p (xor_update p)"
    by (rule same_outside_trans [OF s1 s15])
  have entry: "le32_at (xor_update p) (4 * i)
      = xor_compute (xor_update p) (i * BOOT_UMIP_SECTOR_SIZE) BOOT_UMIP_SECTOR_SIZE"
    if "i \<in> {2..<128}" for i
  proof -
    have "le32_at (xor_update p) (4 * i) = le32_at q1 (4 * i)"
      using that l by (intro same_outside_le32 [OF s15]) auto
    moreover have "xor_compute (xor_update p) (512 * i) (4 * 128) = xor_compute p (512 * i) (4 * 128)"
      using that len by (intro xor_compute_same_outside [OF all]) auto
    ultimately show ?thesis using e1 that by (simp add: sector_xor_eq)
  qed
  have "xor_compute (xor_update p) 0 (4 * 16384) = xor_compute q3 0 (4 * 16384)"
    using l by (intro xor_compute_same_outside [OF s35]) auto
  with entry f3 ifwi show "checksums_valid (xor_update p)"
    unfolding checksums_valid_def umip_words by auto
  show "same_outside checksum_area p (xor_update p)"
    by (rule same_outside_mono [OF all]) (auto simp: checksum_area_def umip_consts)
qed

section \<open>Lemmas: writing an image\<close>

definition flashed :: "bytes \<Rightarrow> bytes \<Rightarrow> bytes" where
  "flashed data ptr =
     the (new_content IFWI_OFFSET (Some data) (min (length data) BOOT_IFWI_SIZE) ptr)"

text \<open>
  What a flashed partition must be: the checksums hold, the token area is the old one, and
  outside these the bytes are the image's and, behind a short image, the old ones.
\<close>

definition token_area :: "nat set" where
  "token_area = {TOKEN_UMIP_AREA_OFFSET..<TOKEN_UMIP_AREA_OFFSET + TOKEN_UMIP_AREA_SIZE}"

definition flashed_spec :: "bytes \<Rightarrow> bytes \<Rightarrow> bytes \<Rightarrow> bool" where
  "flashed_spec data old new \<longleftrightarrow> length new = BOOT_IFWI_SIZE \<and> checksums_valid new
     \<and> (\<forall>j<BOOT_IFWI_SIZE. j \<in> token_area \<longrightarrow> new ! j = old ! j)
     \<and> (\<forall>j<BOOT_IFWI_SIZE. j \<notin> token_area \<and> j \<notin> checksum_area \<longrightarrow>
          new ! j = (if j < length data then data ! j else old ! j))"

lemma area_disjoint: "token_area \<inter> checksum_area = {}"
  by (auto simp: token_area_def checksum_area_def umip_consts)

lemma new_content_ifwi:
  assumes "length ptr = BOOT_IFWI_SIZE"
  shows "new_content IFWI_OFFSET (Some data) (min (length data) BOOT_IFWI_SIZE) ptr = Some (flashed data ptr)"
    and "flashed_spec data ptr (flashed data ptr)"
proof -
  define src where "src = take (min (length data) BOOT_IFWI_SIZE) data"
  define token where "token = take TOKEN_UMIP_AREA_SIZE (drop TOKEN_UMIP_AREA_OFFSET ptr)"
  define q where "q = write_at (write_at ptr 0 src) TOKEN_UMIP_AREA_OFFSET token"
  have some: "new_content IFWI_OFFSET (Some data) (min (length data) BOOT_IFWI_SIZE) ptr = Some (xor_update q)"
    by (simp add: new_content_def Let_def IFWI_OFFSET_def q_def src_def token_def)
  then show "new_content IFWI_OFFSET (Some data) (min (length data) BOOT_IFWI_SIZE) ptr = Some (flashed data ptr)"
    by (simp add: flashed_def)
  have fl: "flashed data ptr = xor_update q" using some by (simp add: flashed_def)
  have lens: "length src \<le> BOOT_IFWI_SIZE" "length src = min (length data) BOOT_IFWI_SIZE"
    "length token = TOKEN_UMIP_AREA_SIZE" "TOKEN_UMIP_AREA_OFFSET + TOKEN_UMIP_AREA_SIZE \<le> BOOT_IFWI_SIZE"
    using assms by (simp_all add: src_def token_def umip_consts)
  have l1: "length (write_at ptr 0 src) = BOOT_IFWI_SIZE" using assms lens by simp
  then have lq: "length q = BOOT_IFWI_SIZE" using lens by (simp add: q_def)
  have nth: "q ! j = (if j \<in> token_area then ptr ! j else if j < length data then data ! j else ptr ! j)"
    if "j < BOOT_IFWI_SIZE" for j
    using that assms lens l1
    by (auto simp: q_def write_at_nth token_area_def token_def src_def)
  note x = xor_update_correct [OF lq]
  have keep: "xor_update q ! j = q ! j" if "j < BOOT_IFWI_SIZE" "j \<notin> checksum_area" for j
    using x(2) that lq by (simp add: same_outside_def)
  have "length (xor_update q) = BOOT_IFWI_SIZE" using x(2) lq by (simp add: same_outside_def)
  moreover have "xor_update q ! j = ptr ! j" if "j < BOOT_IFWI_SIZE" "j \<in> token_area" for j
  proof -
    have "j \<notin> checksum_area" using that(2) area_disjoint by blast
    with keep nth that show ?thesis by simp
  qed
  ultimately show "flashed_spec data ptr (flashed data ptr)"
    unfolding fl flashed_spec_def using x(1) keep nth by simp
qed

lemma set_force_ro_partition [simp]: "boot_bytes (snd (set_force_ro env i v st)) = boot_bytes st"
  by (simp add: set_force_ro_def Let_def)

lemma err_boot_result [simp]:
  "fst (err_boot env i w st) = -1" "boot_bytes (snd (err_boot env i w st)) = boot_bytes st"
  by (simp_all add: err_boot_def)

text \<open>One pass ends in an error with the partition old or new, or goes on with it new.\<close>

lemma write_boot_ifwi:
  assumes "length (boot_bytes st i) = BOOT_IFWI_SIZE"
  shows "(\<exists>st'. write_boot env IFWI_OFFSET (Some data) (min (length data) BOOT_IFWI_SIZE) i st = Inr (Inl (-1, st'))
      \<and> boot_bytes st' \<in> {boot_bytes st, (boot_bytes st)(i := flashed data (boot_bytes st i))})
    \<or> (\<exists>st'. write_boot env IFWI_OFFSET (Some data) (min (length data) BOOT_IFWI_SIZE) i st = Inr (Inr st')
      \<and> boot_bytes st' = (boot_bytes st)(i := flashed data (boot_bytes st i)))"
proof -
  let ?sz = "min (length data) BOOT_IFWI_SIZE"
  have bound: "\<not> (IFWI_OFFSET + ?sz) mod 2 ^ 32 > BOOT_IFWI_SIZE"
    by (simp add: umip_consts)
  obtain r st1 where s1: "set_force_ro env i False st = (r, st1)" by fastforce
  then have p1: "boot_bytes st1 = boot_bytes st" by (metis set_force_ro_partition snd_conv)
  let ?st2 = "st1\<lparr>boot_bytes := (boot_bytes st)(i := flashed data (boot_bytes st i))\<rparr>"
  obtain r' st3 where s3: "set_force_ro env i True ?st2 = (r', st3)" by fastforce
  then have p3: "boot_bytes st3 = (boot_bytes st)(i := flashed data (boot_bytes st i))"
    using set_force_ro_partition [of env i True ?st2] p1 by simp
  have err: "err_boot env i w s = (-1, snd (err_boot env i w s))" for w s
    by (metis err_boot_result(1) prod.collapse)
  show ?thesis
  proof (cases "r \<noteq> 0 \<or> \<not> dev_open env i \<or> \<not> dev_map env i")
    case True
    then have "\<exists>w. write_boot env IFWI_OFFSET (Some data) ?sz i st = Inr (Inl (err_boot env i w st1))"
      by (auto simp: write_boot_def s1)
    then show ?thesis using p1 err by (metis err_boot_result(2) insertI1)
  next
    case False
    then have "write_boot env IFWI_OFFSET (Some data) ?sz i st
        = (if r' \<noteq> 0 then Inr (Inl (err_boot env i True st3)) else Inr (Inr st3))"
      using bound new_content_ifwi(1) [OF assms] by (simp add: write_boot_def s1 s3 p1 Let_def)
    then show ?thesis using p3 err by (metis err_boot_result(2) insertI1 insertI2)
  qed
qed

lemma write_umip_ifwi:
  assumes "length (boot_bytes st 0) = BOOT_IFWI_SIZE" and "length (boot_bytes st 1) = BOOT_IFWI_SIZE"
  shows "\<exists>r st'. write_umip_emmc env IFWI_OFFSET (Some data) (length data) st = Inr (r, st')
    \<and> r \<in> {0, -1}
    \<and> (\<forall>b. boot_bytes st' b = boot_bytes st b
         \<or> b \<in> {0, 1} \<and> boot_bytes st' b = flashed data (boot_bytes st b))
    \<and> (r = 0 \<longrightarrow> boot_bytes st' 0 = flashed data (boot_bytes st 0)
         \<and> boot_bytes st' 1 = flashed data (boot_bytes st 1))"
proof (cases "malloc_ok env")
  case False
  then show ?thesis by (simp add: write_umip_emmc_def)
next
  case True
  let ?sz = "min (length data) BOOT_IFWI_SIZE"
  have w: "write_umip_emmc env IFWI_OFFSET (Some data) (length data) st
      = write_boots env IFWI_OFFSET (Some data) ?sz [0, 1] st"
    using True by (simp add: write_umip_emmc_def min_def Let_def)
  from write_boot_ifwi [OF assms(1), of env data] show ?thesis
  proof (elim disjE exE conjE)
    fix st1
    assume "write_boot env IFWI_OFFSET (Some data) ?sz 0 st = Inr (Inl (-1, st1))"
      "boot_bytes st1 \<in> {boot_bytes st, (boot_bytes st)(0 := flashed data (boot_bytes st 0))}"
    with w show ?thesis by (auto split: if_splits)
  next
    fix st1
    assume c: "write_boot env IFWI_OFFSET (Some data) ?sz 0 st = Inr (Inr st1)"
      "boot_bytes st1 = (boot_bytes st)(0 := flashed data (boot_bytes st 0))"
    then have l1: "length (boot_bytes st1 1) = BOOT_IFWI_SIZE" using assms(2) by simp
    from write_boot_ifwi [OF l1, of env data] c w show ?thesis by (auto split: if_splits)
  qed
qed

lemma flash_cases:
  "flash_ifwi_scu_emmc env node data st =
     (if check_ifwi_file_scu_emmc node data = 1
      then write_umip_emmc env IFWI_OFFSET (Some data) (length data) st else Inr (-1, st))"
  "check_ifwi_file_scu_emmc node data \<in> {1, -1}"
proof -
  show c: "check_ifwi_file_scu_emmc node data \<in> {1, -1}"
    by (simp add: check_ifwi_file_scu_emmc_def split: prod.split)
  then show "flash_ifwi_scu_emmc env node data st =
     (if check_ifwi_file_scu_emmc node data = 1
      then write_umip_emmc env IFWI_OFFSET (Some data) (length data) st else Inr (-1, st))"
    by (auto simp: flash_ifwi_scu_emmc_def update_ifwi_file_scu_emmc_def)
qed

text \<open>When the \<open>force_ro\<close> nodes can be written, every exit leaves them as they were.\<close>

definition ro_calls_work :: "emmc_env \<Rightarrow> bool" where
  "ro_calls_work env \<longleftrightarrow> (\<forall>n. ro_open env n \<and> 0 < ro_write env n)"

lemma set_force_ro_works:
  assumes "ro_calls_work env"
  shows "set_force_ro env i v st
     = (0, st\<lparr>ro_calls := ro_calls st + 1, read_only := (read_only st)(i := v)\<rparr>)"
proof -
  have "ro_open env n" "\<not> ro_write env n \<le> 0" for n
    using assms by (simp_all add: ro_calls_work_def not_le)
  then show ?thesis by (simp add: set_force_ro_def Let_def)
qed

definition calls_work :: "emmc_env \<Rightarrow> bool" where
  "calls_work env \<longleftrightarrow> ro_calls_work env \<and> malloc_ok env \<and> (\<forall>b. dev_open env b \<and> dev_map env b)"

lemma write_boot_works:
  assumes "calls_work env" and "length (boot_bytes st i) = BOOT_IFWI_SIZE"
  shows "\<exists>st'. write_boot env IFWI_OFFSET (Some data) (min (length data) BOOT_IFWI_SIZE) i st = Inr (Inr st')
    \<and> boot_bytes st' = (boot_bytes st)(i := flashed data (boot_bytes st i))"
proof -
  have ro: "ro_calls_work env" and env: "\<forall>b. dev_open env b \<and> dev_map env b"
    using assms(1) by (auto simp: calls_work_def)
  have bound: "\<not> (IFWI_OFFSET + min (length data) BOOT_IFWI_SIZE) mod 2 ^ 32 > BOOT_IFWI_SIZE"
    by (simp add: umip_consts)
  show ?thesis using bound env new_content_ifwi(1) [OF assms(2), of data]
    by (simp add: write_boot_def set_force_ro_works [OF ro] Let_def)
qed

lemma flash_works:
  assumes "calls_work env" and "length (boot_bytes st 0) = BOOT_IFWI_SIZE"
    and "length (boot_bytes st 1) = BOOT_IFWI_SIZE" and "check_ifwi_file_scu_emmc node data = 1"
  shows "\<exists>st'. flash_ifwi_scu_emmc env node data st = Inr (0, st')"
proof -
  obtain st1 where s1: "write_boot env IFWI_OFFSET (Some data) (min (length data) BOOT_IFWI_SIZE) 0 st = Inr (Inr st1)"
    "boot_bytes st1 = (boot_bytes st)(0 := flashed data (boot_bytes st 0))"
    using write_boot_works [OF assms(1,2), of data] by blast
  then have "length (boot_bytes st1 1) = BOOT_IFWI_SIZE" using assms(3) by simp
  from write_boot_works [OF assms(1) this, of data] s1 assms(1,4) show ?thesis
    by (auto simp: flash_cases(1) write_umip_emmc_def Let_def min_def calls_work_def split: if_splits)
qed

lemma write_boot_read_only:
  assumes "ro_calls_work env" and "read_only st = (\<lambda>b. True)"
  shows "case write_boot env off data sz i st of Inl f \<Rightarrow> True
    | Inr (Inl (r, st')) \<Rightarrow> read_only st' = (\<lambda>b. True) | Inr (Inr st') \<Rightarrow> read_only st' = (\<lambda>b. True)"
  using assms(2) by (auto simp: write_boot_def err_boot_def set_force_ro_works [OF assms(1)] Let_def
      split: option.split)

lemma write_boots_read_only:
  assumes "ro_calls_work env" and "read_only st = (\<lambda>b. True)"
    and "write_boots env off data sz is st = Inr (r, st')"
  shows "read_only st' = (\<lambda>b. True)"
  using assms(2,3)
proof (induction "is" arbitrary: st)
  case (Cons i "is")
  from write_boot_read_only [OF assms(1) Cons.prems(1), of off data sz i] Cons show ?case
    by (auto split: sum.splits)
qed simp

section \<open>Properties\<close>

text \<open>
  C7. The checksums are right after \<open>xor_update\<close>: every entry of the sector table is the XOR of
  its sector, the bytes of the UMIP area XOR to zero and so do the words of the whole
  partition; and only the checksum bytes themselves are changed.
\<close>

theorem xor_update_makes_checksums_valid:
  assumes "length p = BOOT_IFWI_SIZE"
  shows "checksums_valid (xor_update p) \<and> length (xor_update p) = BOOT_IFWI_SIZE
    \<and> (\<forall>j<BOOT_IFWI_SIZE. j \<notin> {7..<512} \<union> {0x112d8..<0x112dc} \<longrightarrow> xor_update p ! j = p ! j)"
  using xor_update_correct [OF assms] assms
  by (simp add: same_outside_def checksum_area_def BOOT_UMIP_XOR_OFFSET_def BOOT_IFWI_XOR_OFFSET_def)

theorem xor_update_makes_checksums_valid_witness:
  "checksums_valid (xor_update (replicate BOOT_IFWI_SIZE 0x5a))"
  using xor_update_makes_checksums_valid [of "replicate BOOT_IFWI_SIZE 0x5a"] by simp

text \<open>
  A concrete device and image: the image is one FIP header with IFWI version 5.0; the running
  firmware reports major number 5.
\<close>

definition demo_image :: bytes where
  "demo_image = [0x24, 0x46, 0x49, 0x50] @ replicate 342 0 @ [5, 0] @ replicate 4 0"

definition demo_node :: node_read where
  "demo_node = Content (revision_node (replicate 18 0 @ [5] @ replicate 13 0))"

definition demo_emmc :: emmc where
  "demo_emmc = \<lparr>boot_bytes = (\<lambda>b. replicate BOOT_IFWI_SIZE 0x11), read_only = (\<lambda>b. True), ro_calls = 0\<rparr>"

definition demo_emmc_env :: "(nat \<Rightarrow> int) \<Rightarrow> emmc_env" where
  "demo_emmc_env wr = \<lparr>malloc_ok = True, ro_open = (\<lambda>n. True), ro_write = wr, dev_open = (\<lambda>b. True), dev_map = (\<lambda>b. True)\<rparr>"

lemma demo_emmc_length: "length (boot_bytes demo_emmc b) = BOOT_IFWI_SIZE"
  by (simp add: demo_emmc_def)

lemma demo_image_versions:
  "\<exists>img. get_image_fw_rev demo_image (Some zero_versions) = (0, Some img) \<and> major (ifwi img) = 5"
proof -
  have len: "length demo_image = 352" by (simp add: demo_image_def)
  have magic: "le32_at demo_image 0 = FIP_PATTERN"
    by (simp add: demo_image_def le32_at_def FIP_PATTERN_def)
  have major: "le16_at demo_image 346 = 5" by (simp add: demo_image_def le16_at_def nth_append)
  have "fip_headers demo_image = [demo_image]"
    using len magic by (simp add: fip_headers.simps [of demo_image] fip_headers.simps [of "drop 4 demo_image"] sizeof_FIP_header)
  then have "get_image_fw_rev demo_image (Some zero_versions)
      = (0, Some (update_versions (FIP_header_at demo_image) zero_versions))"
    by (simp add: get_image_fw_rev_def image_loop_headers)
  moreover have "major (ifwi (update_versions (FIP_header_at demo_image) zero_versions)) = 5"
    using major by (simp add: update_versions_def update_version_def FIP_header_at_def version_block_at_def
        fip_version_block_def fip_version_block_chxx_def)
  ultimately show ?thesis by blast
qed

lemma demo_node_versions:
  "\<exists>dev. get_current_fw_rev demo_node zero_versions = (0, dev) \<and> major (ifwi dev) = 5"
proof -
  let ?bs = "replicate 18 0 @ [5] @ replicate 13 0 :: nat list"
  have b: "length ?bs = 32" "\<forall>b\<in>set ?bs. b < 256" by simp_all
  have c: "c_string (revision_node ?bs @ [CHR 0x00]) = revision_node ?bs"
    by (rule c_string_id [OF revision_node_no_zero [OF b(2)]])
  have "read_fw_revision demo_node (replicate 32 0) 32 = (0, map word_of_nat ?bs)"
    using b c tokens_revision_node [OF b(2)] revision_loop_bytes [OF b(2), of 0 32 "replicate 32 0"]
    by (simp add: demo_node_def read_fw_revision_def READ_SZ_def revision_node_length)
  moreover have "major (revision_at (map word_of_nat ?bs) 16) = 5"
    by (simp add: revision_at_def revision_number_def nth_append)
  ultimately show ?thesis by (simp add: get_current_fw_rev_def SCU_IPC_VERSION_LEN_LONG_def)
qed

lemma demo_check: "check_ifwi_file_scu_emmc demo_node demo_image = 1"
  using demo_image_versions demo_node_versions by (auto simp: check_ifwi_file_scu_emmc_def)

lemma demo_flash: "\<exists>st'. flash_ifwi_scu_emmc (demo_emmc_env (\<lambda>n. 1)) demo_node demo_image demo_emmc = Inr (0, st')"
  by (rule flash_works [OF _ demo_emmc_length demo_emmc_length demo_check])
    (simp add: calls_work_def ro_calls_work_def demo_emmc_env_def)

text \<open>
  C8. A flash that reports success has written both boot partitions: each holds the image outside
  the token area and the checksum bytes, its own old token area, valid checksums, and behind an
  image shorter than the partition its old bytes.
\<close>

theorem successful_flash_writes_both:
  assumes "length (boot_bytes st 0) = BOOT_IFWI_SIZE" and "length (boot_bytes st 1) = BOOT_IFWI_SIZE"
    and "flash_ifwi_scu_emmc env node data st = Inr (0, st')"
  shows "flashed_spec data (boot_bytes st 0) (boot_bytes st' 0)
    \<and> flashed_spec data (boot_bytes st 1) (boot_bytes st' 1)"
proof -
  have "write_umip_emmc env IFWI_OFFSET (Some data) (length data) st = Inr (0, st')"
    using assms(3) flash_cases(1) [of env node data st] by (simp split: if_splits)
  with write_umip_ifwi [OF assms(1,2), of env data]
  have "boot_bytes st' 0 = flashed data (boot_bytes st 0)" "boot_bytes st' 1 = flashed data (boot_bytes st 1)"
    by auto
  with new_content_ifwi(2) [OF assms(1)] new_content_ifwi(2) [OF assms(2)] show ?thesis by simp
qed

theorem successful_flash_writes_both_witness:
  "\<exists>st'. flash_ifwi_scu_emmc (demo_emmc_env (\<lambda>n. 1)) demo_node demo_image demo_emmc = Inr (0, st')
    \<and> flashed_spec demo_image (boot_bytes demo_emmc 1) (boot_bytes st' 1)"
  using demo_flash successful_flash_writes_both [OF demo_emmc_length demo_emmc_length] by blast

text \<open>
  C9. Whatever system call fails, a flash returns 0 or -1 and never stores outside a partition, and
  each partition is then either untouched or completely written, never in between.
\<close>

theorem flash_is_atomic_per_partition:
  assumes "length (boot_bytes st 0) = BOOT_IFWI_SIZE" and "length (boot_bytes st 1) = BOOT_IFWI_SIZE"
  shows "\<exists>r st'. flash_ifwi_scu_emmc env node data st = Inr (r, st') \<and> r \<in> {0, -1}
    \<and> (\<forall>b. boot_bytes st' b = boot_bytes st b
         \<or> b \<in> {0, 1} \<and> flashed_spec data (boot_bytes st b) (boot_bytes st' b))"
proof (cases "check_ifwi_file_scu_emmc node data = 1")
  case False
  then show ?thesis by (simp add: flash_cases(1))
next
  case True
  obtain r st' where w: "write_umip_emmc env IFWI_OFFSET (Some data) (length data) st = Inr (r, st')" "r \<in> {0, -1}"
    "\<forall>b. boot_bytes st' b = boot_bytes st b \<or> b \<in> {0, 1} \<and> boot_bytes st' b = flashed data (boot_bytes st b)"
    using write_umip_ifwi [OF assms, of env data] by blast
  have "boot_bytes st' b = boot_bytes st b
      \<or> b \<in> {0, 1} \<and> flashed_spec data (boot_bytes st b) (boot_bytes st' b)" for b
    using w(3) new_content_ifwi(2) [OF assms(1), of data] new_content_ifwi(2) [OF assms(2), of data]
    by (metis insertE empty_iff)
  with True w(1,2) show ?thesis by (simp add: flash_cases(1))
qed

theorem flash_is_atomic_per_partition_witness:
  "\<exists>r st'. flash_ifwi_scu_emmc (demo_emmc_env (\<lambda>n. 1 - int n)) demo_node demo_image demo_emmc = Inr (r, st')
    \<and> r \<in> {0, -1}"
  using flash_is_atomic_per_partition [OF demo_emmc_length demo_emmc_length] by blast

text \<open>
  C11. What the version check lets through. A flash goes on to write the partitions exactly if the image is
  too short for a FIP header or has one, the reader of the running firmware's versions returns 0, and
  the last IFWI major number in the image that is not 0 (0 if there is none, as in a short image) is the major number that
  reader gives; in all other cases nothing is changed and the result is -1. Since both readers also return 0 with
  all numbers 0 when there was nothing to read, a short image passes the check of a device
  whose node does not parse.
\<close>

theorem flash_guard_compares_reported_majors:
  "flash_ifwi_scu_emmc env node data st =
    (if (length data < 352 \<or> fip_offsets data \<noteq> []) \<and> fst (get_current_fw_rev node zero_versions) = 0
        \<and> last_nonzero (map (\<lambda>k. le16_at (drop k data) 346) (fip_offsets data))
          = major (ifwi (snd (get_current_fw_rev node zero_versions)))
     then write_umip_emmc env IFWI_OFFSET (Some data) (length data) st else Inr (-1, st))
   \<and> (length data < 352 \<longrightarrow> last_nonzero (map (\<lambda>k. le16_at (drop k data) 346) (fip_offsets data)) = 0)"
proof -
  obtain r dev where dev: "get_current_fw_rev node zero_versions = (r, dev)" by fastforce
  have "major (ifwi (fold (\<lambda>k. update_versions (FIP_header_at (drop k data))) (fip_offsets data) zero_versions))
      = last_nonzero (map (\<lambda>k. le16_at (drop k data) 346) (fip_offsets data))"
    using fold_update_ifwi [of data "fip_offsets data"]
    by (simp add: FIP_header_at_def version_block_at_def fip_version_block_def fip_version_block_chxx_def)
  then have "check_ifwi_file_scu_emmc node data = 1 \<longleftrightarrow>
      (length data < 352 \<or> fip_offsets data \<noteq> []) \<and> r = 0
        \<and> last_nonzero (map (\<lambda>k. le16_at (drop k data) 346) (fip_offsets data)) = major (ifwi dev)"
    by (simp add: check_ifwi_file_scu_emmc_def image_fw_rev_offsets dev sizeof_FIP_header not_le)
  moreover have "fip_offsets data = []" if "length data < 352"
    using that by (simp add: fip_offsets_def sizeof_FIP_header)
  ultimately show ?thesis by (simp add: flash_cases(1) dev last_nonzero_def)
qed

text \<open>The image of three bytes is written over a device whose node says \<open>unknown\<close>.\<close>

theorem flash_guard_compares_reported_majors_witness:
  "\<exists>st'. flash_ifwi_scu_emmc (demo_emmc_env (\<lambda>n. 1)) (Content ''unknown'') [1, 2, 3] demo_emmc = Inr (0, st')
    \<and> write_umip_emmc (demo_emmc_env (\<lambda>n. 1)) IFWI_OFFSET (Some [1, 2, 3]) 3 demo_emmc = Inr (0, st')"
proof -
  have z: "get_current_fw_rev (Content ''unknown'') zero_versions = (0, zero_versions)"
    by (rule unparsable_node_reported_as_success_witness)
  have "check_ifwi_file_scu_emmc (Content ''unknown'') [1, 2, 3] = 1"
    by (simp add: check_ifwi_file_scu_emmc_def z short_image_reported_as_success)
  then obtain st' where "flash_ifwi_scu_emmc (demo_emmc_env (\<lambda>n. 1)) (Content ''unknown'') [1, 2, 3] demo_emmc = Inr (0, st')"
    using flash_works [OF _ demo_emmc_length demo_emmc_length, of "demo_emmc_env (\<lambda>n. 1)"]
    by (auto simp: calls_work_def ro_calls_work_def demo_emmc_env_def)
  with flash_guard_compares_reported_majors [of "demo_emmc_env (\<lambda>n. 1)" "Content ''unknown''" "[1, 2, 3]" demo_emmc] z
  show ?thesis by (intro exI [of _ st']) (auto simp: zero_versions_def zero_version_def numeral_3_eq_3 split: if_splits)
qed

text \<open>
  C12. As long as the \<open>force_ro\<close> nodes themselves can be opened and written, both partitions are
  read-only again after a flash, on every success and error path.
\<close>

theorem flash_restores_read_only:
  assumes "ro_calls_work env" and "read_only st = (\<lambda>b. True)"
    and "flash_ifwi_scu_emmc env node data st = Inr (r, st')"
  shows "read_only st' = (\<lambda>b. True)"
  using assms write_boots_read_only [OF assms(1,2)]
  by (auto simp: flash_cases(1) write_umip_emmc_def Let_def simp del: write_boots.simps split: if_splits)

theorem flash_restores_read_only_witness:
  "\<exists>st'. flash_ifwi_scu_emmc (demo_emmc_env (\<lambda>n. 1)) demo_node demo_image demo_emmc = Inr (0, st')
    \<and> read_only st' = (\<lambda>b. True)"
proof -
  have "ro_calls_work (demo_emmc_env (\<lambda>n. 1))" "read_only demo_emmc = (\<lambda>b. True)"
    by (simp_all add: ro_calls_work_def demo_emmc_env_def demo_emmc_def)
  from flash_restores_read_only [OF this] demo_flash show ?thesis by blast
qed

text \<open>
  A write to \<open>force_ro\<close> that returns 0 is taken for a success: if that happens whenever a
  partition is to be made read-only again, the flash reports success and leaves it writable.
\<close>

theorem empty_write_leaves_writable:
  assumes "\<forall>n. ro_open env n \<and> ro_write env n = (if even n then 1 else 0)"
    and "malloc_ok env" and "\<forall>b. dev_open env b \<and> dev_map env b" and "ro_calls st = 0"
    and "length (boot_bytes st 0) = BOOT_IFWI_SIZE" and "length (boot_bytes st 1) = BOOT_IFWI_SIZE"
  shows "\<exists>st'. update_ifwi_file_scu_emmc env data st = Inr (0, st') \<and> \<not> read_only st' 0 \<and> \<not> read_only st' 1"
proof -
  let ?sz = "min (length data) BOOT_IFWI_SIZE"
  have ro: "set_force_ro env i v s = (0, if even (ro_calls s)
      then s\<lparr>ro_calls := ro_calls s + 1, read_only := (read_only s)(i := v)\<rparr> else s\<lparr>ro_calls := ro_calls s + 1\<rparr>)"
    for i v s using assms(1) by (simp add: set_force_ro_def Let_def)
  have bound: "\<not> (IFWI_OFFSET + ?sz) mod 2 ^ 32 > BOOT_IFWI_SIZE" by (simp add: umip_consts)
  have one: "write_boot env IFWI_OFFSET (Some data) ?sz i s = Inr (Inr
      (s\<lparr>ro_calls := ro_calls s + 2, read_only := (read_only s)(i := False),
         boot_bytes := (boot_bytes s)(i := flashed data (boot_bytes s i))\<rparr>))"
    if "even (ro_calls s)" "length (boot_bytes s i) = BOOT_IFWI_SIZE" for i s
    using that bound assms(3) new_content_ifwi(1) [OF that(2)] by (simp add: write_boot_def ro Let_def)
  have "update_ifwi_file_scu_emmc env data st = write_boots env IFWI_OFFSET (Some data) ?sz [0, 1] st"
    using assms(2) by (simp add: update_ifwi_file_scu_emmc_def write_umip_emmc_def min_def Let_def)
  with one [of st 0] one [of _ 1] assms(4,5,6) show ?thesis by simp
qed

theorem empty_write_leaves_writable_witness:
  "\<exists>st'. update_ifwi_file_scu_emmc (demo_emmc_env (\<lambda>n. if even n then 1 else 0)) demo_image demo_emmc = Inr (0, st')
    \<and> \<not> read_only st' 0 \<and> \<not> read_only st' 1"
  by (rule empty_write_leaves_writable) (simp_all add: demo_emmc_env_def demo_emmc_def)
end
