(* ===== verification/UmipPower.thy ===== *)
theory UmipPower
  imports UmipFlash
begin

text \<open>
  The moments of a flash of \<^verbatim>\<open>recovery/recovery_updater.cpp\<close>, for a device that loses its power in the middle. A
  partition is mapped shared, so what its bytes are while \<open>write_umip_emmc\<close> stores into it (the data, the
  token area, the checksums, in pages that the kernel writes back when it likes) is left open. The
  mapping and the device are closed before the next partition is opened; that the kernel writes
  everything back at that close is assumed.
\<close>

section \<open>The moments\<close>

inductive write_moment :: "emmc_env \<Rightarrow> nat \<Rightarrow> bytes option \<Rightarrow> nat \<Rightarrow> nat list \<Rightarrow> emmc \<Rightarrow> emmc \<Rightarrow> bool"
  for env :: emmc_env and addr_offset :: nat and data :: "bytes option" and sz :: nat where
  at_loop_head: "write_moment env addr_offset data sz is st st"
| unlocked: "set_force_ro env i False st = (0, st1) \<Longrightarrow> write_moment env addr_offset data sz (i # is) st st1"
| storing: "set_force_ro env i False st = (0, st1) \<Longrightarrow> dev_open env i \<Longrightarrow> dev_map env i \<Longrightarrow>
    (addr_offset + sz) mod 2 ^ 32 \<le> BOOT_IFWI_SIZE \<Longrightarrow>
    write_moment env addr_offset data sz (i # is) st (st1\<lparr>boot_bytes := (boot_bytes st1)(i := anything)\<rparr>)"
| stored: "set_force_ro env i False st = (0, st1) \<Longrightarrow> dev_open env i \<Longrightarrow> dev_map env i \<Longrightarrow>
    (addr_offset + sz) mod 2 ^ 32 \<le> BOOT_IFWI_SIZE \<Longrightarrow>
    new_content addr_offset data sz (boot_bytes st1 i) = Some content \<Longrightarrow>
    write_moment env addr_offset data sz (i # is) st (st1\<lparr>boot_bytes := (boot_bytes st1)(i := content)\<rparr>)"
| given_up: "write_boot env addr_offset data sz i st = Inr (Inl (r, s)) \<Longrightarrow>
    write_moment env addr_offset data sz (i # is) st s"
| later: "write_boot env addr_offset data sz i st = Inr (Inr st1) \<Longrightarrow>
    write_moment env addr_offset data sz is st1 s \<Longrightarrow> write_moment env addr_offset data sz (i # is) st s"

definition flash_moment :: "emmc_env \<Rightarrow> node_read \<Rightarrow> bytes \<Rightarrow> emmc \<Rightarrow> emmc \<Rightarrow> bool" where
  "flash_moment env node data st s \<longleftrightarrow> s = st
     \<or> check_ifwi_file_scu_emmc node data > 0 \<and> malloc_ok env
         \<and> write_moment env IFWI_OFFSET (Some data) (min (length data) BOOT_IFWI_SIZE) [0, 1] st s"

section \<open>Lemmas\<close>

text \<open>The end of a flash is one of its moments.\<close>

lemma write_boots_moment:
  "write_boots env off data sz is st = Inr (r, s) \<Longrightarrow> write_moment env off data sz is st s"
proof (induction "is" arbitrary: st)
  case (Cons i "is")
  then show ?case
    by (auto split: sum.splits intro: write_moment.given_up write_moment.later)
qed (auto intro: write_moment.at_loop_head)

lemma flash_end_is_moment:
  "flash_ifwi_scu_emmc env node data st = Inr (r, s) \<Longrightarrow> flash_moment env node data st s"
  using write_boots_moment
  by (auto simp: flash_cases(1) flash_moment_def write_umip_emmc_def Let_def min_def simp del: write_boots.simps
      split: if_splits)

text \<open>What the moments of the passes over \<open>is\<close> have done: at most one partition is in between.\<close>

definition whole :: "bytes \<Rightarrow> emmc \<Rightarrow> emmc \<Rightarrow> nat \<Rightarrow> bool" where
  "whole data st s b \<longleftrightarrow> boot_bytes s b = boot_bytes st b \<or> boot_bytes s b = flashed data (boot_bytes st b)"

lemma set_force_ro_bytes: "set_force_ro env i v st = (r, st1) \<Longrightarrow> boot_bytes st1 = boot_bytes st"
  by (metis set_force_ro_partition snd_conv)

lemma write_moment_whole:
  assumes "write_moment env IFWI_OFFSET (Some data) (min (length data) BOOT_IFWI_SIZE) is st s"
    and "distinct is" and "\<forall>i\<in>set is. length (boot_bytes st i) = BOOT_IFWI_SIZE"
  shows "\<exists>j. \<forall>b. b \<noteq> j \<longrightarrow> (if b \<in> set is then whole data st s b else boot_bytes s b = boot_bytes st b)"
  using assms
proof (induction rule: write_moment.induct)
  case (at_loop_head "is" st)
  then show ?case by (simp add: whole_def)
next
  case (unlocked i st st1 "is")
  then show ?case by (simp add: whole_def set_force_ro_bytes)
next
  case (storing i st st1 anything "is")
  then show ?case by (intro exI [of _ i]) (simp add: whole_def set_force_ro_bytes)
next
  case (stored i st st1 content "is")
  then show ?case by (intro exI [of _ i]) (simp add: whole_def set_force_ro_bytes)
next
  case (given_up i st r s "is")
  then have "length (boot_bytes st i) = BOOT_IFWI_SIZE" by simp
  from write_boot_ifwi [OF this, of env data] given_up(1) show ?case by (auto simp: whole_def)
next
  case (later i st st1 "is" s)
  then have "length (boot_bytes st i) = BOOT_IFWI_SIZE" by simp
  from write_boot_ifwi [OF this, of env data] later(1)
  have st1: "boot_bytes st1 = (boot_bytes st)(i := flashed data (boot_bytes st i))" by auto
  have "distinct is" "\<forall>i\<in>set is. length (boot_bytes st1 i) = BOOT_IFWI_SIZE" "i \<notin> set is"
    using later.prems st1 by auto
  with later.IH obtain j where j:
    "\<forall>b. b \<noteq> j \<longrightarrow> (if b \<in> set is then whole data st1 s b else boot_bytes s b = boot_bytes st1 b)" by blast
  have "if b \<in> set (i # is) then whole data st s b else boot_bytes s b = boot_bytes st b" if "b \<noteq> j" for b
  proof -
    have b: "if b \<in> set is then whole data st1 s b else boot_bytes s b = boot_bytes st1 b" using j that by simp
    show ?thesis
    proof (cases "b = i")
      case True
      with b \<open>i \<notin> set is\<close> st1 show ?thesis by (simp add: whole_def)
    next
      case False
      with b st1 show ?thesis by (cases "b \<in> set is") (simp_all add: whole_def)
    qed
  qed
  then show ?case by blast
qed

text \<open>
  Which partitions can be written: when no write to a \<open>force_ro\<close> node returns 0, which the code
  takes for a success, a partition is opened for writing only after the one before is read-only again.
\<close>

definition no_empty_write :: "emmc_env \<Rightarrow> bool" where
  "no_empty_write env \<longleftrightarrow> (\<forall>n. ro_write env n \<noteq> 0)"

lemma set_force_ro_done:
  "no_empty_write env \<Longrightarrow> set_force_ro env i v st = (r, st1) \<Longrightarrow>
     read_only st1 = (if r = 0 then (read_only st)(i := v) else read_only st)"
  by (auto simp: set_force_ro_def no_empty_write_def Let_def split: if_splits)

lemma set_force_ro_locks:
  "read_only st b \<Longrightarrow> read_only (snd (set_force_ro env i True st)) b"
  by (simp add: set_force_ro_def Let_def)

lemma write_boot_unlocks_one:
  assumes "no_empty_write env" and "read_only st = (\<lambda>b. True)"
    and "write_boot env off data sz i st = Inr res"
  shows "case res of Inl (r, s) \<Rightarrow> \<forall>b. b \<noteq> i \<longrightarrow> read_only s b | Inr s \<Rightarrow> read_only s = (\<lambda>b. True)"
proof -
  obtain r st1 where s1: "set_force_ro env i False st = (r, st1)" by fastforce
  with set_force_ro_done [OF assms(1) s1] assms(2) have ro: "\<forall>b. b \<noteq> i \<longrightarrow> read_only st1 b" by simp
  have err: "\<exists>s'. err_boot env i w s = (-1, s') \<and> (\<forall>b. b \<noteq> i \<longrightarrow> read_only s' b)" if "\<forall>b. b \<noteq> i \<longrightarrow> read_only s b" for w s
    using that set_force_ro_locks by (simp add: err_boot_def)
  have err_unchanged: "snd (err_boot env i False s) = s" for s by (simp add: err_boot_def)
  have all: "read_only s = (\<lambda>b. True)" if "\<forall>b. b \<noteq> i \<longrightarrow> read_only s1 b" "read_only s = (read_only s1)(i := True)" for s s1
    using that by auto
  show ?thesis
  proof (cases "r = 0 \<and> dev_open env i \<and> dev_map env i \<and> \<not> (off + sz) mod 2 ^ 32 > BOOT_IFWI_SIZE")
    case False
    then have "\<exists>w. res = Inl (err_boot env i w st1)"
      using assms(3) by (auto simp: write_boot_def s1 split: if_splits)
    then obtain w where "res = Inl (err_boot env i w st1)" by blast
    with err [OF ro, of w] show ?thesis by auto
  next
    case True
    with assms(3) obtain content where "new_content off data sz (boot_bytes st1 i) = Some content"
      by (cases "new_content off data sz (boot_bytes st1 i)") (auto simp: write_boot_def s1)
    moreover define s where "s = st1\<lparr>boot_bytes := (boot_bytes st1)(i := content)\<rparr>"
    moreover obtain r' s' where s': "set_force_ro env i True s = (r', s')" by fastforce
    ultimately have res: "res = (if r' \<noteq> 0 then Inl (err_boot env i True s') else Inr s')"
      using True assms(3) by (auto simp: write_boot_def s1 Let_def split: if_splits)
    have s'': "read_only s' = (if r' = 0 then (read_only st1)(i := True) else read_only st1)"
      using set_force_ro_done [OF assms(1) s'] by (simp add: s_def)
    show ?thesis
    proof (cases "r' = 0")
      case True
      with res s'' ro show ?thesis by (auto simp: fun_eq_iff)
    next
      case False
      with s'' ro have "\<forall>b. b \<noteq> i \<longrightarrow> read_only s' b" by simp
      from err [OF this, of True] res False show ?thesis by auto
    qed
  qed
qed

lemma write_moment_unlocks_one:
  assumes "write_moment env off data sz is st s" and "no_empty_write env" and "read_only st = (\<lambda>b. True)"
  shows "\<exists>j. \<forall>b. b \<noteq> j \<longrightarrow> read_only s b"
  using assms(1,3)
proof (induction rule: write_moment.induct)
  case (given_up i st r s "is")
  from write_boot_unlocks_one [OF assms(2) given_up(2,1)] show ?case by auto
next
  case (later i st st1 "is" s)
  from write_boot_unlocks_one [OF assms(2) later(4,1)] later.IH show ?case by simp
qed (use set_force_ro_done [OF assms(2)] in auto)

section \<open>Properties\<close>

text \<open>
  C10. A flash survives a loss of power, provided that closing a boot partition's device writes everything back, for the
  code itself does not ask for it. At every moment of it, its end included, at most one of the two
  boot partitions is in between: the other is as it was before or completely written, with valid checksums
  and its token area. While no write to a \<open>force_ro\<close> node returns 0, at most one partition
  can be written at all.
\<close>

theorem flash_survives_power_loss:
  assumes "length (boot_bytes st 0) = BOOT_IFWI_SIZE" and "length (boot_bytes st 1) = BOOT_IFWI_SIZE"
    and "read_only st = (\<lambda>b. True)" and "flash_moment env node data st s"
  shows "(\<exists>b\<in>{0, 1}. boot_bytes s b = boot_bytes st b \<or> flashed_spec data (boot_bytes st b) (boot_bytes s b))
    \<and> (no_empty_write env \<longrightarrow> read_only s 0 \<or> read_only s 1)"
proof (cases "s = st")
  case False
  with assms(4) have m: "write_moment env IFWI_OFFSET (Some data) (min (length data) BOOT_IFWI_SIZE) [0, 1] st s"
    by (simp add: flash_moment_def)
  from write_moment_whole [OF m] assms(1,2) obtain j where j: "\<forall>b. b \<noteq> j \<longrightarrow> b \<in> {0, 1} \<longrightarrow> whole data st s b"
    by (auto split: if_splits)
  have spec: "flashed_spec data (boot_bytes st b) (flashed data (boot_bytes st b))" if "b \<in> {0, 1}" for b
    using that assms(1,2) new_content_ifwi(2) by auto
  from j have "whole data st s 0 \<or> whole data st s 1" by (cases "j = 0") auto
  with spec have "\<exists>b\<in>{0, 1}. boot_bytes s b = boot_bytes st b \<or> flashed_spec data (boot_bytes st b) (boot_bytes s b)"
    by (auto simp: whole_def)
  moreover have "read_only s 0 \<or> read_only s 1" if "no_empty_write env"
    using write_moment_unlocks_one [OF m that assms(3)] by (metis zero_neq_one)
  ultimately show ?thesis by blast
qed (use assms(3) in auto)

text \<open>The power goes while the first partition is being overwritten, here with zeros in it.\<close>

definition demo_torn :: "emmc \<Rightarrow> emmc" where
  "demo_torn st = st\<lparr>read_only := (read_only st)(0 := False), ro_calls := 1,
     boot_bytes := (boot_bytes st)(0 := replicate BOOT_IFWI_SIZE 0)\<rparr>"

lemma demo_torn_moment: "flash_moment (demo_emmc_env (\<lambda>n. 1)) demo_node demo_image demo_emmc (demo_torn demo_emmc)"
proof -
  let ?env = "demo_emmc_env (\<lambda>n. 1)" and ?sz = "min (length demo_image) BOOT_IFWI_SIZE"
  have "set_force_ro ?env 0 False demo_emmc = (0, demo_emmc\<lparr>read_only := (read_only demo_emmc)(0 := False), ro_calls := 1\<rparr>)"
    by (simp add: set_force_ro_def demo_emmc_env_def demo_emmc_def)
  moreover have "dev_open ?env 0" "dev_map ?env 0" "malloc_ok ?env" by (simp_all add: demo_emmc_env_def)
  moreover have "(IFWI_OFFSET + ?sz) mod 2 ^ 32 \<le> BOOT_IFWI_SIZE" by (simp add: umip_consts)
  ultimately have "write_moment ?env IFWI_OFFSET (Some demo_image) ?sz [0, 1] demo_emmc (demo_torn demo_emmc)"
    using write_moment.storing [of ?env 0 demo_emmc _ IFWI_OFFSET ?sz "Some demo_image" "[1]" "replicate BOOT_IFWI_SIZE 0"]
    by (simp add: demo_torn_def)
  then show ?thesis using demo_check by (simp add: flash_moment_def demo_emmc_env_def)
qed

theorem flash_survives_power_loss_witness:
  "boot_bytes (demo_torn demo_emmc) 0 \<noteq> boot_bytes demo_emmc 0
    \<and> (\<exists>b\<in>{0, 1}. boot_bytes (demo_torn demo_emmc) b = boot_bytes demo_emmc b
         \<or> flashed_spec demo_image (boot_bytes demo_emmc b) (boot_bytes (demo_torn demo_emmc) b))
    \<and> read_only (demo_torn demo_emmc) 1"
proof -
  have "read_only demo_emmc = (\<lambda>b. True)" by (simp add: demo_emmc_def)
  moreover have "boot_bytes (demo_torn demo_emmc) 0 \<noteq> boot_bytes demo_emmc 0"
  proof -
    have "replicate BOOT_IFWI_SIZE (0 :: 8 word) \<noteq> replicate BOOT_IFWI_SIZE 0x11"
      by (simp add: replicate_eq_replicate umip_consts)
    then show ?thesis by (simp add: demo_torn_def demo_emmc_def)
  qed
  ultimately show ?thesis
    using flash_survives_power_loss [OF demo_emmc_length demo_emmc_length _ demo_torn_moment]
    by (simp add: demo_torn_def demo_emmc_def no_empty_write_def demo_emmc_env_def)
qed

end
