(* ===== verification/Lights.thy ===== *)
theory Lights
  imports CStrings "HOL-Library.Word"
begin

unbundle bit_operations_syntax

text \<open>
  \<^verbatim>\<open>liblights/lights.c\<close>: the lights HAL. The screen backlight is one brightness node; attention,
  notification and battery share a two-colour LED, which shows the most important of them that
  is lit. The nodes are a write log, as in the power HAL; whether they can be opened and written
  and the constants of \<^verbatim>\<open>hardware/lights.h\<close> are parameters.
\<close>

section \<open>The code\<close>

definition LED_LIGHT_OFF :: int where "LED_LIGHT_OFF = 0"

datatype light_slot = ATTENTION | NOTIFICATION | BATTERY

record lights_h =
  LIGHT_FLASH_NONE :: int
  LIGHT_FLASH_TIMED :: int
  LIGHT_FLASH_HARDWARE :: int
  LIGHT_ID_BACKLIGHT :: string
  LIGHT_ID_NOTIFICATIONS :: string
  LIGHT_ID_ATTENTION :: string
  LIGHT_ID_BATTERY :: string
  LIGHT_ID_BUTTONS :: string

record light_state =
  color :: "32 word"
  flashMode :: int
  flashOnMS :: int
  flashOffMS :: int

text \<open>\<open>None\<close>: the call works; \<open>Some e\<close>: it fails with \<open>errno = e\<close>.\<close>

record lights_env =
  open_errno :: "string \<Rightarrow> int option"
  write_errno :: "string \<Rightarrow> int option"

record lights =
  g_lights :: "light_slot \<Rightarrow> light_state"
  node_log :: node_writes

definition blank_light :: light_state where
  "blank_light = \<lparr>color = 0, flashMode = 0, flashOnMS = 0, flashOffMS = 0\<rparr>"

definition initial_lights :: lights where
  "initial_lights = \<lparr>g_lights = (\<lambda>s. blank_light), node_log = []\<rparr>"

definition LCD_FILE :: string where "LCD_FILE = ''/sys/class/backlight/psb-bl/brightness''"
definition GREEN_LED_FILE :: string where "GREEN_LED_FILE = ''/sys/class/leds/green/brightness''"
definition RED_LED_FILE :: string where "RED_LED_FILE = ''/sys/class/leds/red/brightness''"
definition GREEN_BLINK_FILE :: string where "GREEN_BLINK_FILE = ''/sys/class/leds/green/blink''"
definition RED_BLINK_FILE :: string where "RED_BLINK_FILE = ''/sys/class/leds/red/blink''"

lemmas led_files = LCD_FILE_def GREEN_LED_FILE_def RED_LED_FILE_def GREEN_BLINK_FILE_def RED_BLINK_FILE_def

definition write_str :: "lights_env \<Rightarrow> string \<Rightarrow> string \<Rightarrow> node_writes \<Rightarrow> int \<times> node_writes" where
  "write_str env path str w =
     (case open_errno env path of
        Some e \<Rightarrow> (- e, w)
      | None \<Rightarrow>
          (case write_errno env path of
             Some e \<Rightarrow> (- e, w)
           | None \<Rightarrow> (0, w @ [(path, str)])))"

definition write_int :: "lights_env \<Rightarrow> string \<Rightarrow> int \<Rightarrow> node_writes \<Rightarrow> int \<times> node_writes" where
  "write_int env path value w = write_str env path (show_int value @ [CHR 0x0A]) w"

definition write_blink :: "lights_env \<Rightarrow> string \<Rightarrow> int \<Rightarrow> int \<Rightarrow> int \<Rightarrow> node_writes \<Rightarrow> int \<times> node_writes" where
  "write_blink env path value on_ms off_ms w =
     write_str env path (show_int value @ '' '' @ show_int on_ms @ '' '' @ show_int off_ms @ [CHR 0x0A]) w"

definition is_lit :: "light_state \<Rightarrow> bool" where
  "is_lit state \<longleftrightarrow> color state AND 0x00ffffff \<noteq> 0"

text \<open>\<open>dev\<close> tells whether the device pointer is not null.\<close>

definition set_light_backlight :: "lights_env \<Rightarrow> bool \<Rightarrow> light_state \<Rightarrow> lights \<Rightarrow> int \<times> lights" where
  "set_light_backlight env dev state st =
     (let brightness = uint (color state AND 0xff) in
      if \<not> dev then (-1, st)
      else (case write_int env LCD_FILE brightness (node_log st) of (err, w) \<Rightarrow> (err, st\<lparr>node_log := w\<rparr>)))"

definition light_colors :: "light_state \<Rightarrow> int \<times> int" where
  "light_colors state =
     (let colorRGB = color state;
          red = uint (drop_bit 16 colorRGB AND 0xFF);
          green = uint (drop_bit 8 colorRGB AND 0xFF);
          blue = uint (colorRGB AND 0xFF)
      in if blue \<noteq> 0 then (blue, blue) else (red, green))"

definition light_blinks :: "lights_h \<Rightarrow> light_state \<Rightarrow> bool" where
  "light_blinks h state \<longleftrightarrow>
     flashMode state = LIGHT_FLASH_TIMED h \<or> flashMode state = LIGHT_FLASH_HARDWARE h"

definition set_light_locked :: "lights_h \<Rightarrow> lights_env \<Rightarrow> light_state \<Rightarrow> lights \<Rightarrow> int \<times> lights" where
  "set_light_locked h env state st =
     (let (red, green) = light_colors state; w = node_log st in
      if light_blinks h state then
        let w = snd (write_int env RED_LED_FILE LED_LIGHT_OFF w);
            w = snd (write_int env GREEN_LED_FILE LED_LIGHT_OFF w);
            w = snd (write_blink env RED_BLINK_FILE (if red \<noteq> 0 then 1 else 0) (flashOnMS state) (flashOffMS state) w);
            w = snd (write_blink env GREEN_BLINK_FILE (if green \<noteq> 0 then 1 else 0) (flashOnMS state) (flashOffMS state) w)
        in (0, st\<lparr>node_log := w\<rparr>)
      else
        let w = snd (write_int env RED_BLINK_FILE 0 w);
            w = snd (write_int env GREEN_BLINK_FILE 0 w);
            w = snd (write_int env RED_LED_FILE LED_LIGHT_OFF w);
            w = snd (write_int env GREEN_LED_FILE LED_LIGHT_OFF w);
            w = snd (write_int env RED_LED_FILE red w);
            w = snd (write_int env GREEN_LED_FILE green w)
        in (0, st\<lparr>node_log := w\<rparr>))"

definition handle_led_prioritized_locked ::
    "lights_h \<Rightarrow> lights_env \<Rightarrow> light_state \<Rightarrow> lights \<Rightarrow> int \<times> lights" where
  "handle_led_prioritized_locked h env state st =
     (if is_lit (g_lights st ATTENTION) then set_light_locked h env (g_lights st ATTENTION) st
      else if is_lit (g_lights st NOTIFICATION) then set_light_locked h env (g_lights st NOTIFICATION) st
      else if is_lit (g_lights st BATTERY) then set_light_locked h env (g_lights st BATTERY) st
      else set_light_locked h env state st)"

text \<open>The three functions differ in the slot only.\<close>

definition set_light_slot :: "lights_h \<Rightarrow> lights_env \<Rightarrow> light_slot \<Rightarrow> light_state \<Rightarrow> lights \<Rightarrow> int \<times> lights" where
  "set_light_slot h env slot state st =
     handle_led_prioritized_locked h env state (st\<lparr>g_lights := (g_lights st)(slot := state)\<rparr>)"

definition set_light_notifications :: "lights_h \<Rightarrow> lights_env \<Rightarrow> light_state \<Rightarrow> lights \<Rightarrow> int \<times> lights" where
  "set_light_notifications h env state st = set_light_slot h env NOTIFICATION state st"
definition set_light_attention :: "lights_h \<Rightarrow> lights_env \<Rightarrow> light_state \<Rightarrow> lights \<Rightarrow> int \<times> lights" where
  "set_light_attention h env state st = set_light_slot h env ATTENTION state st"
definition set_light_battery :: "lights_h \<Rightarrow> lights_env \<Rightarrow> light_state \<Rightarrow> lights \<Rightarrow> int \<times> lights" where
  "set_light_battery h env state st = set_light_slot h env BATTERY state st"
definition set_light_noop :: "light_state \<Rightarrow> lights \<Rightarrow> int \<times> lights" where
  "set_light_noop state st = (0, st)"

text \<open>\<open>open_lights\<close> stores one of the functions in the device it makes, chosen by the name.\<close>

datatype set_light_function = SetBacklight | SetSlot light_slot | SetNoop

definition open_lights :: "lights_h \<Rightarrow> string \<Rightarrow> int \<times> set_light_function option" where
  "open_lights h name =
     (if name = LIGHT_ID_BACKLIGHT h then (0, Some SetBacklight)
      else if name = LIGHT_ID_NOTIFICATIONS h then (0, Some (SetSlot NOTIFICATION))
      else if name = LIGHT_ID_ATTENTION h then (0, Some (SetSlot ATTENTION))
      else if name = LIGHT_ID_BATTERY h then (0, Some (SetSlot BATTERY))
      else if name = LIGHT_ID_BUTTONS h then (0, Some SetNoop)
      else (- EINVAL, None))"

fun set_light :: "lights_h \<Rightarrow> lights_env \<Rightarrow> set_light_function \<Rightarrow> light_state \<Rightarrow> lights \<Rightarrow> int \<times> lights" where
  "set_light h env SetBacklight state st = set_light_backlight env True state st"
| "set_light h env (SetSlot NOTIFICATION) state st = set_light_notifications h env state st"
| "set_light h env (SetSlot ATTENTION) state st = set_light_attention h env state st"
| "set_light h env (SetSlot BATTERY) state st = set_light_battery h env state st"
| "set_light h env SetNoop state st = set_light_noop state st"

text \<open>
  The process: the devices it has open, each a block of \<open>malloc\<close> with the function that
  \<open>open_lights\<close> chose, and the mutex, which \<open>pthread_once\<close> sets up before the first of them. The
  result of \<open>malloc\<close> (\<open>block\<close>) is not looked at.
\<close>

record lights_process =
  lp_lights :: lights
  lp_once :: bool
  lp_mutex :: bool
  lp_devices :: "nat \<Rightarrow> set_light_function option"

definition init_globals :: "lights_process \<Rightarrow> lights_process" where
  "init_globals p = p\<lparr>lp_mutex := True\<rparr>"

definition pthread_once_init :: "lights_process \<Rightarrow> lights_process" where
  "pthread_once_init p = (if lp_once p then p else (init_globals p)\<lparr>lp_once := True\<rparr>)"

definition open_lights_device ::
    "lights_h \<Rightarrow> string \<Rightarrow> nat option \<Rightarrow> lights_process \<Rightarrow> fault + int \<times> nat option \<times> lights_process" where
  "open_lights_device h name block p =
     (case open_lights h name of
        (err, None) \<Rightarrow> Inr (err, None, p)
      | (err, Some f) \<Rightarrow>
          let p = pthread_once_init p in
          (case block of
             None \<Rightarrow> Inl NullDeref
           | Some d \<Rightarrow> Inr (err, Some d, p\<lparr>lp_devices := (lp_devices p)(d \<mapsto> f)\<rparr>)))"

definition close_lights :: "nat option \<Rightarrow> lights_process \<Rightarrow> fault + int \<times> lights_process" where
  "close_lights dev p =
     (case dev of
        None \<Rightarrow> Inr (0, p)
      | Some d \<Rightarrow> if lp_devices p d = None then Inl BadFree
                  else Inr (0, p\<lparr>lp_devices := (lp_devices p)(d := None)\<rparr>))"

definition device_set_light ::
    "lights_h \<Rightarrow> lights_env \<Rightarrow> nat \<Rightarrow> light_state \<Rightarrow> lights_process \<Rightarrow> fault + int \<times> lights_process" where
  "device_set_light h env d state p =
     (case lp_devices p d of
        None \<Rightarrow> Inl OutOfBounds
      | Some f \<Rightarrow> (case set_light h env f state (lp_lights p) of (r, l) \<Rightarrow> Inr (r, p\<lparr>lp_lights := l\<rparr>)))"

text \<open>A device that was opened has the mutex set up, and can be used, and closed once.\<close>

lemma open_close_lights:
  assumes "open_lights_device h name (Some d) p = Inr (err, Some d', p')" and "lp_devices p d = None"
    and "lp_once p \<Longrightarrow> lp_mutex p"
  shows "d' = d \<and> err = 0 \<and> lp_mutex p' \<and> (\<exists>q. device_set_light h env d s p' = Inr q)
    \<and> close_lights (Some d) p' = Inr (0, p'\<lparr>lp_devices := lp_devices p\<rparr>)
    \<and> close_lights (Some d) (p'\<lparr>lp_devices := lp_devices p\<rparr>) = Inl BadFree"
  using assms
  by (auto simp: open_lights_device_def close_lights_def device_set_light_def pthread_once_init_def
      init_globals_def open_lights_def Let_def fun_upd_idem split: option.splits if_splits prod.splits)

section \<open>What the LED shows\<close>

text \<open>The text that each of the four LED nodes should hold for a light.\<close>

definition led_texts :: "lights_h \<Rightarrow> light_state \<Rightarrow> (string \<times> string) list" where
  "led_texts h s =
     (let line = (\<lambda>v. show_int v @ [CHR 0x0A]);
          blink = (\<lambda>v. show_int v @ '' '' @ show_int (flashOnMS s) @ '' '' @ show_int (flashOffMS s) @ [CHR 0x0A]);
          red = fst (light_colors s); green = snd (light_colors s)
      in if light_blinks h s
         then [(RED_LED_FILE, line 0), (GREEN_LED_FILE, line 0),
               (RED_BLINK_FILE, blink (if red \<noteq> 0 then 1 else 0)),
               (GREEN_BLINK_FILE, blink (if green \<noteq> 0 then 1 else 0))]
         else [(RED_BLINK_FILE, line 0), (GREEN_BLINK_FILE, line 0),
               (RED_LED_FILE, line red), (GREEN_LED_FILE, line green)])"

definition led_shows :: "lights_h \<Rightarrow> light_state \<Rightarrow> lights \<Rightarrow> bool" where
  "led_shows h s st \<longleftrightarrow> (\<forall>(p, t)\<in>set (led_texts h s). node_text (node_log st) p = Some t)"

definition nodes_work :: "lights_env \<Rightarrow> bool" where
  "nodes_work env \<longleftrightarrow> (\<forall>p. open_errno env p = None \<and> write_errno env p = None)"

lemma led_files_distinct:
  "distinct [LCD_FILE, GREEN_LED_FILE, RED_LED_FILE, GREEN_BLINK_FILE, RED_BLINK_FILE]"
  by (simp add: led_files)

lemma set_light_locked_shows:
  assumes "nodes_work env" and "set_light_locked h env s st = (r, st')"
  shows "led_shows h s st' \<and> g_lights st' = g_lights st"
  using assms led_files_distinct
  by (auto simp: set_light_locked_def led_shows_def led_texts_def write_int_def write_blink_def
      write_str_def nodes_work_def node_text_def LED_LIGHT_OFF_def Let_def split: prod.splits if_splits)

definition top_light :: "lights \<Rightarrow> light_state option" where
  "top_light st =
     (if is_lit (g_lights st ATTENTION) then Some (g_lights st ATTENTION)
      else if is_lit (g_lights st NOTIFICATION) then Some (g_lights st NOTIFICATION)
      else if is_lit (g_lights st BATTERY) then Some (g_lights st BATTERY) else None)"

lemma set_light_slot_shows:
  assumes "nodes_work env" and "set_light_slot h env slot state st = (r, st')"
  shows "g_lights st' = (g_lights st)(slot := state)"
    and "led_shows h (case top_light st' of Some l \<Rightarrow> l | None \<Rightarrow> state) st'"
proof -
  let ?st = "st\<lparr>g_lights := (g_lights st)(slot := state)\<rparr>"
  have "set_light_locked h env (case top_light ?st of Some l \<Rightarrow> l | None \<Rightarrow> state) ?st = (r, st')"
    using assms(2) by (auto simp: set_light_slot_def handle_led_prioritized_locked_def top_light_def
        split: if_splits)
  from set_light_locked_shows [OF assms(1) this]
  have l: "led_shows h (case top_light ?st of Some l \<Rightarrow> l | None \<Rightarrow> state) st'"
    and g: "g_lights st' = g_lights ?st" by auto
  have "top_light st' = top_light ?st" using g by (simp only: top_light_def)
  with l show "led_shows h (case top_light st' of Some l \<Rightarrow> l | None \<Rightarrow> state) st'" by (simp only:)
  show "g_lights st' = (g_lights st)(slot := state)" using g by simp
qed

lemma top_light_None: "top_light st = None \<Longrightarrow> \<not> is_lit (g_lights st slot)"
  by (cases slot) (auto simp: top_light_def split: if_splits)

lemma led_shows_frame:
  "led_shows h s (st\<lparr>node_log := node_log st @ [(LCD_FILE, t)]\<rparr>) \<longleftrightarrow> led_shows h s st"
proof -
  have "node_text (node_log st @ [(LCD_FILE, t)]) p = node_text (node_log st) p"
    if "p \<in> fst ` set (led_texts h s)" for p
    using that led_files_distinct by (auto simp: node_text_def led_texts_def Let_def split: if_splits)
  then have "(node_text (node_log st @ [(LCD_FILE, t)]) p = Some x) = (node_text (node_log st) p = Some x)"
    if "(p, x) \<in> set (led_texts h s)" for p x
    using that by force
  then show ?thesis by (auto simp: led_shows_def)
qed

lemma unlit_colors:
  assumes "\<not> is_lit s"
  shows "light_colors s = (0, 0)"
proof -
  have 0: "take_bit 24 (color s) = 0"
    using assms by (simp add: is_lit_def take_bit_eq_mask mask_eq_exp_minus_1)
  have b: "x AND 0xFF = take_bit 8 x" for x :: "32 word"
    by (simp add: take_bit_eq_mask mask_eq_exp_minus_1)
  have "take_bit 8 (drop_bit k (color s)) = take_bit 8 (drop_bit k (take_bit 24 (color s)))" if "k + 8 \<le> 24" for k
    by (rule bit_word_eqI) (use that in \<open>auto simp: bit_simps\<close>)
  from this [of 16] this [of 8] this [of 0] 0 show ?thesis
    by (simp add: light_colors_def b Let_def)
qed

text \<open>A sequence of calls through devices that \<open>open_lights\<close> made.\<close>

type_synonym light_calls = "(set_light_function \<times> light_state) list"

definition run_lights :: "lights_h \<Rightarrow> lights_env \<Rightarrow> light_calls \<Rightarrow> lights" where
  "run_lights h env calls = fold (\<lambda>(f, s) st. snd (set_light h env f s st)) calls initial_lights"

definition last_set :: "light_calls \<Rightarrow> light_slot \<Rightarrow> light_state" where
  "last_set calls slot = (case map_of (rev calls) (SetSlot slot) of Some s \<Rightarrow> s | None \<Rightarrow> blank_light)"

lemma run_lights_snoc:
  "run_lights h env (calls @ [(f, s)]) = snd (set_light h env f s (run_lights h env calls))"
  by (simp add: run_lights_def)

lemma set_light_slot_eq: "set_light h env (SetSlot slot) s st = set_light_slot h env slot s st"
  by (cases slot) (simp_all add: set_light_notifications_def set_light_attention_def set_light_battery_def)

lemma run_lights_inv:
  assumes "nodes_work env"
  shows "g_lights (run_lights h env calls) = last_set calls
    \<and> ((\<exists>slot s. (SetSlot slot, s) \<in> set calls) \<longrightarrow>
        (\<exists>s. led_shows h s (run_lights h env calls)
          \<and> (case top_light (run_lights h env calls) of Some l \<Rightarrow> s = l | None \<Rightarrow> \<not> is_lit s)))"
proof (induction calls rule: rev_induct)
  case Nil
  show ?case by (auto simp: run_lights_def initial_lights_def last_set_def)
next
  case (snoc c calls)
  obtain f s where c: "c = (f, s)" by fastforce
  let ?st = "run_lights h env calls"
  show ?case
  proof (cases f)
    case SetBacklight
    obtain t where "snd (set_light h env f s ?st) = ?st\<lparr>node_log := node_log ?st @ [(LCD_FILE, t)]\<rparr>"
      using SetBacklight assms
      by (auto simp: set_light_backlight_def write_int_def write_str_def nodes_work_def Let_def)
    with snoc c SetBacklight show ?thesis
      by (auto simp: run_lights_snoc led_shows_frame last_set_def top_light_def fun_eq_iff)
  next
    case (SetSlot slot)
    obtain r st' where r: "set_light_slot h env slot s ?st = (r, st')" by fastforce
    note sh = set_light_slot_shows [OF assms r]
    have eq: "run_lights h env (calls @ [c]) = st'"
      using SetSlot r c by (simp add: run_lights_snoc set_light_slot_eq)
    have "\<not> is_lit s" if "top_light st' = None"
      using top_light_None [OF that, of slot] sh(1) by simp
    with sh snoc SetSlot c show ?thesis unfolding eq
      by (auto simp: last_set_def fun_eq_iff split: option.splits)
  next
    case SetNoop
    with snoc c show ?thesis by (simp add: run_lights_snoc set_light_noop_def last_set_def fun_eq_iff)
  qed
qed

section \<open>Properties\<close>

text \<open>
  C38. The notification LED always shows the most important lit light: after any calls through the
  devices of the module, with at least one for the LED, the four LED nodes hold the colours and
  the blinking of the last attention light if that is lit, else of the last notification, else
  of the last battery light, and are off when none is lit; backlight calls do not disturb it.
\<close>

theorem led_shows_most_important:
  assumes "nodes_work env" and "(SetSlot slot, s) \<in> set calls"
  shows "let lit = filter is_lit [last_set calls ATTENTION, last_set calls NOTIFICATION, last_set calls BATTERY]
    in \<exists>shown. led_shows h shown (run_lights h env calls)
      \<and> (if lit = [] then light_colors shown = (0, 0) else shown = hd lit)"
proof -
  from run_lights_inv [OF assms(1), of h calls] assms(2)
  obtain shown where "g_lights (run_lights h env calls) = last_set calls"
    and "led_shows h shown (run_lights h env calls)"
    and "case top_light (run_lights h env calls) of Some l \<Rightarrow> shown = l | None \<Rightarrow> \<not> is_lit shown"
    by blast
  then show ?thesis
    unfolding Let_def
    by (intro exI [of _ shown]) (auto simp: top_light_def unlit_colors split: if_splits)
qed

definition demo_lights_h :: lights_h where
  "demo_lights_h = \<lparr>LIGHT_FLASH_NONE = 0, LIGHT_FLASH_TIMED = 1, LIGHT_FLASH_HARDWARE = 2,
     LIGHT_ID_BACKLIGHT = ''backlight'', LIGHT_ID_NOTIFICATIONS = ''notifications'',
     LIGHT_ID_ATTENTION = ''attention'', LIGHT_ID_BATTERY = ''battery'', LIGHT_ID_BUTTONS = ''buttons''\<rparr>"

theorem led_shows_most_important_witness:
  "led_shows demo_lights_h (blank_light\<lparr>color := 0x00ff00\<rparr>)
     (run_lights demo_lights_h \<lparr>open_errno = (\<lambda>p. None), write_errno = (\<lambda>p. None)\<rparr>
       [(SetSlot NOTIFICATION, blank_light\<lparr>color := 0x00ff00\<rparr>), (SetSlot BATTERY, blank_light\<lparr>color := 0xff0000\<rparr>),
        (SetBacklight, blank_light)])"
proof -
  let ?env = "\<lparr>open_errno = (\<lambda>p. None), write_errno = (\<lambda>p. None)\<rparr>"
  let ?calls = "[(SetSlot NOTIFICATION, blank_light\<lparr>color := 0x00ff00\<rparr>),
      (SetSlot BATTERY, blank_light\<lparr>color := 0xff0000\<rparr>), (SetBacklight, blank_light)]"
  have "nodes_work ?env" "(SetSlot BATTERY, blank_light\<lparr>color := 0xff0000\<rparr>) \<in> set ?calls"
    by (simp_all add: nodes_work_def)
  from led_shows_most_important [OF this, of demo_lights_h] show ?thesis
    by (simp add: last_set_def is_lit_def blank_light_def Let_def)
qed
end
