(* ===== verification/Gralloc.thy ===== *)
theory Gralloc
  imports Prelude
begin

unbundle bit_operations_syntax

text \<open>
  \<^verbatim>\<open>libshims/ui/GraphicBufferAllocator.cpp\<close> and \<^verbatim>\<open>GraphicBufferMapper.cpp\<close>: the wrappers of the
  gralloc module. The module itself is a parameter (\<open>gralloc\<close>); the calls made to it, and to the
  kernel for a fence, are recorded in order, and its answers are functions of the calls so far.
\<close>

section \<open>The module and the calls to it\<close>

text \<open>A handle is the address of a \<open>native_handle\<close>, whose data holds the descriptors and then the ints.\<close>

type_synonym buffer_handle = nat

record native_handle =
  numFds :: int
  numInts :: int
  handle_data :: "32 word list"

datatype gcall =
    GAlloc "32 word" "32 word" "32 word" "32 word"
  | GFree buffer_handle
  | GRegister buffer_handle
  | GUnregister buffer_handle
  | GLock "buffer_handle option" "32 word" int int int int
  | GLockYCbCr "buffer_handle option" "32 word" int int int int
  | GLockAsync "buffer_handle option" "32 word" int int int int int
  | GLockAsyncYCbCr "buffer_handle option" "32 word" int int int int int
  | GUnlock "buffer_handle option"
  | GUnlockAsync "buffer_handle option"
  | SyncWait int
  | CloseFd int
  | HandleCreate nat nat
  | HandleClose buffer_handle
  | HandleDelete buffer_handle

type_synonym gtrace = "gcall list"

text \<open>
  \<open>alloc_out\<close> is the handle that an \<open>alloc\<close> call stores, if it stores one, with what it points to,
  and its stride; \<open>create_out\<close> what \<open>native_handle_create\<close> returns.
\<close>

record gralloc =
  module_api_version :: int
  GRALLOC_MODULE_API_VERSION_0_3 :: int
  GRALLOC_USAGE_ALLOC_MASK :: "32 word"
  has_lock_ycbcr :: bool
  has_lockAsync_ycbcr :: bool
  answer :: "gtrace \<Rightarrow> gcall \<Rightarrow> int"
  alloc_out :: "gtrace \<Rightarrow> gcall \<Rightarrow> (buffer_handle \<times> native_handle) option \<times> 32 word"
  create_out :: "gtrace \<Rightarrow> buffer_handle option"
  bytesPerPixel :: "32 word \<Rightarrow> 32 word"
  fence_out :: "gtrace \<Rightarrow> int"

text \<open>
  The state shared by the buffers of the process: the list of allocations, the memory behind the
  handles, the counter of \<open>getUniqueId\<close>, and the calls made so far.
\<close>

record alloc_rec =
  rec_w :: "32 word"
  rec_h :: "32 word"
  rec_s :: "32 word"
  rec_format :: "32 word"
  rec_usage :: "32 word"
  rec_size :: "32 word"

record gstate =
  sAllocList :: "buffer_handle option \<Rightarrow> alloc_rec option"
  handles :: "buffer_handle \<Rightarrow> native_handle option"
  nextId :: "32 word"
  gtr :: gtrace

definition gcall_do :: "gralloc \<Rightarrow> gcall \<Rightarrow> gstate \<Rightarrow> int \<times> gstate" where
  "gcall_do g c st = (answer g (gtr st) c, st\<lparr>gtr := gtr st @ [c]\<rparr>)"

text \<open>The module's \<open>alloc\<close>: its result, the handle it stores if any, and the stride.\<close>

definition module_alloc :: "gralloc \<Rightarrow> gcall \<Rightarrow> gstate \<Rightarrow> int \<times> buffer_handle option \<times> 32 word \<times> gstate" where
  "module_alloc g c st =
     (let (out, stride) = alloc_out g (gtr st) c;
          (err, st) = gcall_do g c st
      in case out of
           None \<Rightarrow> (err, None, stride, st)
         | Some (h, nh) \<Rightarrow> (err, Some h, stride, st\<lparr>handles := (handles st)(h \<mapsto> nh)\<rparr>))"

section \<open>GraphicBufferAllocator\<close>

text \<open>
  The result, the content of \<open>*handle\<close> (\<open>old\<close> before the call) and the stride. The list is keyed
  by that content, null included.
\<close>

definition allocator_alloc :: "gralloc \<Rightarrow> 32 word \<Rightarrow> 32 word \<Rightarrow> 32 word \<Rightarrow> 32 word \<Rightarrow> buffer_handle option
    \<Rightarrow> gstate \<Rightarrow> int \<times> buffer_handle option \<times> 32 word \<times> gstate" where
  "allocator_alloc g width height format usage old st =
     (let (width, height) = (if width = 0 \<or> height = 0 then (1, 1) else (width, height));
          usage = usage AND GRALLOC_USAGE_ALLOC_MASK g;
          (err, out, stride, st) = module_alloc g (GAlloc width height format usage) st;
          handle = (case out of None \<Rightarrow> old | Some h \<Rightarrow> Some h)
      in if err = 0
         then let rec = \<lparr>rec_w = width, rec_h = height, rec_s = stride, rec_format = format,
                  rec_usage = usage, rec_size = height * stride * bytesPerPixel g format\<rparr>
              in (err, handle, stride, st\<lparr>sAllocList := (sAllocList st)(handle \<mapsto> rec)\<rparr>)
         else (err, handle, stride, st))"

definition allocator_free :: "gralloc \<Rightarrow> buffer_handle \<Rightarrow> gstate \<Rightarrow> int \<times> gstate" where
  "allocator_free g handle st =
     (let (err, st) = gcall_do g (GFree handle) st
      in if err = 0 then (err, st\<lparr>sAllocList := (sAllocList st)(Some handle := None)\<rparr>) else (err, st))"

text \<open>The total that \<open>dump\<close> prints, over the keys of the list.\<close>

definition dump_total :: "buffer_handle option list \<Rightarrow> gstate \<Rightarrow> 32 word" where
  "dump_total keys st = foldl (\<lambda>total k. total + rec_size (the (sAllocList st k))) 0 keys"

section \<open>GraphicBufferMapper\<close>

record rect =
  left :: int
  top :: int
  right :: int
  bottom :: int

text \<open>\<open>Rect::width\<close> and \<open>Rect::height\<close> subtract in \<open>int\<close>, which wraps around on the device.\<close>

definition rect_width :: "rect \<Rightarrow> int" where
  "rect_width b = sint (word_of_int (right b - left b) :: 32 word)"

definition rect_height :: "rect \<Rightarrow> int" where
  "rect_height b = sint (word_of_int (bottom b - top b) :: 32 word)"

definition registerBuffer :: "gralloc \<Rightarrow> buffer_handle \<Rightarrow> gstate \<Rightarrow> int \<times> gstate" where
  "registerBuffer g handle st = gcall_do g (GRegister handle) st"

definition unregisterBuffer :: "gralloc \<Rightarrow> buffer_handle \<Rightarrow> gstate \<Rightarrow> int \<times> gstate" where
  "unregisterBuffer g handle st = gcall_do g (GUnregister handle) st"

definition mapper_lock :: "gralloc \<Rightarrow> buffer_handle option \<Rightarrow> 32 word \<Rightarrow> rect \<Rightarrow> gstate \<Rightarrow> int \<times> gstate" where
  "mapper_lock g handle usage b st =
     gcall_do g (GLock handle usage (left b) (top b) (rect_width b) (rect_height b)) st"

definition mapper_lockYCbCr :: "gralloc \<Rightarrow> buffer_handle option \<Rightarrow> 32 word \<Rightarrow> rect \<Rightarrow> gstate \<Rightarrow> int \<times> gstate" where
  "mapper_lockYCbCr g handle usage b st =
     (if \<not> has_lock_ycbcr g then (- EINVAL, st)
      else gcall_do g (GLockYCbCr handle usage (left b) (top b) (rect_width b) (rect_height b)) st)"

definition mapper_unlock :: "gralloc \<Rightarrow> buffer_handle option \<Rightarrow> gstate \<Rightarrow> int \<times> gstate" where
  "mapper_unlock g handle st = gcall_do g (GUnlock handle) st"

text \<open>The results of \<open>sync_wait\<close> and \<open>close\<close> are not looked at.\<close>

definition wait_and_close :: "gralloc \<Rightarrow> int \<Rightarrow> gstate \<Rightarrow> gstate" where
  "wait_and_close g fenceFd st =
     (if fenceFd \<ge> 0 then snd (gcall_do g (CloseFd fenceFd) (snd (gcall_do g (SyncWait fenceFd) st))) else st)"

definition mapper_lockAsync ::
    "gralloc \<Rightarrow> buffer_handle option \<Rightarrow> 32 word \<Rightarrow> rect \<Rightarrow> int \<Rightarrow> gstate \<Rightarrow> int \<times> gstate" where
  "mapper_lockAsync g handle usage b fenceFd st =
     (if module_api_version g \<ge> GRALLOC_MODULE_API_VERSION_0_3 g
      then gcall_do g (GLockAsync handle usage (left b) (top b) (rect_width b) (rect_height b) fenceFd) st
      else gcall_do g (GLock handle usage (left b) (top b) (rect_width b) (rect_height b))
             (wait_and_close g fenceFd st))"

definition mapper_lockAsyncYCbCr ::
    "gralloc \<Rightarrow> buffer_handle option \<Rightarrow> 32 word \<Rightarrow> rect \<Rightarrow> int \<Rightarrow> gstate \<Rightarrow> int \<times> gstate" where
  "mapper_lockAsyncYCbCr g handle usage b fenceFd st =
     (if module_api_version g \<ge> GRALLOC_MODULE_API_VERSION_0_3 g \<and> has_lockAsync_ycbcr g
      then gcall_do g (GLockAsyncYCbCr handle usage (left b) (top b) (rect_width b) (rect_height b) fenceFd) st
      else if has_lock_ycbcr g
      then gcall_do g (GLockYCbCr handle usage (left b) (top b) (rect_width b) (rect_height b))
             (wait_and_close g fenceFd st)
      else (- EINVAL, if fenceFd \<ge> 0 then snd (gcall_do g (CloseFd fenceFd) st) else st))"

text \<open>The result, and what is stored through \<open>fenceFd\<close>.\<close>

definition mapper_unlockAsync :: "gralloc \<Rightarrow> buffer_handle option \<Rightarrow> gstate \<Rightarrow> int \<times> int \<times> gstate" where
  "mapper_unlockAsync g handle st =
     (if module_api_version g \<ge> GRALLOC_MODULE_API_VERSION_0_3 g
      then let (err, st') = gcall_do g (GUnlockAsync handle) st in (err, fence_out g (gtr st), st')
      else let (err, st') = gcall_do g (GUnlock handle) st in (err, -1, st'))"

section \<open>The singletons\<close>

text \<open>
  The allocator keeps a device and the mapper a module, both looked up in the constructors. A
  failed lookup is only logged, and the result of \<open>gralloc_open\<close> is not looked at, so the pointer
  may stay null; every operation goes through it.
\<close>

record gralloc_singletons =
  mAllocDev :: "nat option"
  mAllocMod :: "nat option"

definition GraphicBufferAllocator_new :: "int \<Rightarrow> nat option \<Rightarrow> nat option" where
  "GraphicBufferAllocator_new err opened = (if err = 0 then opened else None)"

definition GraphicBufferMapper_new :: "int \<Rightarrow> nat \<Rightarrow> nat option" where
  "GraphicBufferMapper_new err hw_module = (if err = 0 then Some hw_module else None)"

datatype shim_op =
    OpAlloc "32 word" "32 word" "32 word" "32 word" "buffer_handle option"
  | OpFree buffer_handle
  | OpRegister buffer_handle
  | OpUnregister buffer_handle
  | OpLock "buffer_handle option" "32 word" rect
  | OpLockYCbCr "buffer_handle option" "32 word" rect
  | OpUnlock "buffer_handle option"
  | OpLockAsync "buffer_handle option" "32 word" rect int
  | OpLockAsyncYCbCr "buffer_handle option" "32 word" rect int
  | OpUnlockAsync "buffer_handle option"

fun allocator_op :: "shim_op \<Rightarrow> bool" where
  "allocator_op (OpAlloc w h f u old) \<longleftrightarrow> True"
| "allocator_op (OpFree h) \<longleftrightarrow> True"
| "allocator_op op \<longleftrightarrow> False"

fun shim_call :: "gralloc \<Rightarrow> shim_op \<Rightarrow> gstate \<Rightarrow> int \<times> gstate" where
  "shim_call g (OpAlloc w h f u old) st =
     (case allocator_alloc g w h f u old st of (err, out, stride, st) \<Rightarrow> (err, st))"
| "shim_call g (OpFree h) st = allocator_free g h st"
| "shim_call g (OpRegister h) st = registerBuffer g h st"
| "shim_call g (OpUnregister h) st = unregisterBuffer g h st"
| "shim_call g (OpLock h u b) st = mapper_lock g h u b st"
| "shim_call g (OpLockYCbCr h u b) st = mapper_lockYCbCr g h u b st"
| "shim_call g (OpUnlock h) st = mapper_unlock g h st"
| "shim_call g (OpLockAsync h u b fd) st = mapper_lockAsync g h u b fd st"
| "shim_call g (OpLockAsyncYCbCr h u b fd) st = mapper_lockAsyncYCbCr g h u b fd st"
| "shim_call g (OpUnlockAsync h) st = (case mapper_unlockAsync g h st of (err, fd, st) \<Rightarrow> (err, st))"

definition shim_run :: "gralloc \<Rightarrow> gralloc_singletons \<Rightarrow> shim_op \<Rightarrow> gstate \<Rightarrow> fault + int \<times> gstate" where
  "shim_run g s op st =
     (if (if allocator_op op then mAllocDev s = None else mAllocMod s = None) then Inl NullDeref
      else Inr (shim_call g op st))"

lemma shim_null:
  "shim_run g \<lparr>mAllocDev = GraphicBufferAllocator_new err opened, mAllocMod = GraphicBufferMapper_new err' hw_module\<rparr>
      op st = Inl NullDeref
    \<longleftrightarrow> (if allocator_op op then err \<noteq> 0 \<or> opened = None else err' \<noteq> 0)"
  by (auto simp: shim_run_def GraphicBufferAllocator_new_def GraphicBufferMapper_new_def)

section \<open>Lemmas\<close>

text \<open>The calls that take a fence over: the module's asynchronous locks, and \<open>close\<close>.\<close>

fun takes_fence :: "int \<Rightarrow> gcall \<Rightarrow> bool" where
  "takes_fence fd (GLockAsync h u l t w ht fd') \<longleftrightarrow> fd' = fd"
| "takes_fence fd (GLockAsyncYCbCr h u l t w ht fd') \<longleftrightarrow> fd' = fd"
| "takes_fence fd (CloseFd fd') \<longleftrightarrow> fd' = fd"
| "takes_fence fd c \<longleftrightarrow> False"

lemma gcall_do_simps [simp]:
  "fst (gcall_do g c st) = answer g (gtr st) c" "gtr (snd (gcall_do g c st)) = gtr st @ [c]"
  "sAllocList (snd (gcall_do g c st)) = sAllocList st" "handles (snd (gcall_do g c st)) = handles st"
  "nextId (snd (gcall_do g c st)) = nextId st"
  by (simp_all add: gcall_do_def)

lemma allocator_free_simps:
  "fst (allocator_free g h st) = answer g (gtr st) (GFree h)"
  "sAllocList (snd (allocator_free g h st)) =
     (if answer g (gtr st) (GFree h) = 0 then (sAllocList st)(Some h := None) else sAllocList st)"
  "handles (snd (allocator_free g h st)) = handles st" "gtr (snd (allocator_free g h st)) = gtr st @ [GFree h]"
  by (auto simp: allocator_free_def gcall_do_def)

lemma allocator_alloc_list:
  assumes "allocator_alloc g w h f u old st = (err, handle, stride, st')"
  shows "err = 0 \<Longrightarrow> (sAllocList st')(handle := None) = (sAllocList st)(handle := None) \<and> sAllocList st' handle \<noteq> None"
    and "err \<noteq> 0 \<Longrightarrow> sAllocList st' = sAllocList st"
  using assms
  by (auto simp: allocator_alloc_def module_alloc_def gcall_do_def Let_def split: prod.splits option.splits if_splits)

lemma wait_and_close_takes:
  "length (filter (takes_fence fd) (gtr (wait_and_close g fd st))) =
     length (filter (takes_fence fd) (gtr st)) + (if fd \<ge> 0 then 1 else 0)"
  by (simp add: wait_and_close_def)

lemma mapper_lockAsync_takes:
  "fd \<ge> 0 \<Longrightarrow> length (filter (takes_fence fd) (gtr (snd (mapper_lockAsync g h u b fd st)))) =
     length (filter (takes_fence fd) (gtr st)) + 1"
  by (simp add: mapper_lockAsync_def wait_and_close_takes)

lemma mapper_lockAsyncYCbCr_takes:
  "fd \<ge> 0 \<Longrightarrow> length (filter (takes_fence fd) (gtr (snd (mapper_lockAsyncYCbCr g h u b fd st)))) =
     length (filter (takes_fence fd) (gtr st)) + 1"
  by (simp add: mapper_lockAsyncYCbCr_def wait_and_close_takes)

section \<open>The interface of the allocator\<close>

text \<open>
  What a buffer relies on: a successful allocation enters its handle in the list, a successful
  release takes it out, and a failure leaves the list alone. \<open>'q\<close> is a request, and \<open>key\<close> the
  entry of a handle that is released.
\<close>

locale buffer_allocator =
  fixes allocs :: "'s \<Rightarrow> 'h \<Rightarrow> 'r option"
    and alloc :: "'q \<Rightarrow> 'h \<Rightarrow> 's \<Rightarrow> int \<times> 'h \<times> 's"
    and key :: "'k \<Rightarrow> 'h"
    and free :: "'k \<Rightarrow> 's \<Rightarrow> int \<times> 's"
  assumes alloc_enters: "alloc q old s = (0, h, s') \<Longrightarrow>
      (allocs s')(h := None) = (allocs s)(h := None) \<and> allocs s' h \<noteq> None"
    and alloc_fails: "alloc q old s = (err, h, s') \<Longrightarrow> err \<noteq> 0 \<Longrightarrow> allocs s' = allocs s"
    and free_removes: "free k s = (0, s') \<Longrightarrow> allocs s' = (allocs s)(key k := None)"
    and free_fails: "free k s = (err, s') \<Longrightarrow> err \<noteq> 0 \<Longrightarrow> allocs s' = allocs s"
begin

text \<open>The handle of one buffer over the allocations \<open>L\<close> of the others.\<close>

definition holds :: "('h \<Rightarrow> 'r option) \<Rightarrow> 'h option \<Rightarrow> 's \<Rightarrow> bool" where
  "holds L h s \<longleftrightarrow> (case h of None \<Rightarrow> allocs s = L | Some h \<Rightarrow> L h = None \<and> (allocs s)(h := None) = L)"

lemma alloc_holds: "holds L None s \<Longrightarrow> alloc q old s = (0, h, s') \<Longrightarrow> L h = None \<Longrightarrow> holds L (Some h) s'"
  using alloc_enters [of q old s h s'] by (simp add: holds_def fun_upd_idem)

lemma alloc_failed_holds: "holds L None s \<Longrightarrow> alloc q old s = (err, h, s') \<Longrightarrow> err \<noteq> 0 \<Longrightarrow> holds L None s'"
  using alloc_fails [of q old s err h s'] by (simp add: holds_def)

lemma free_holds: "holds L (Some (key k)) s \<Longrightarrow> free k s = (0, s') \<Longrightarrow> holds L None s'"
  using free_removes [of k s s'] by (simp add: holds_def)

end

text \<open>The allocator has these laws, whatever the module answers.\<close>

definition allocator_request :: "gralloc \<Rightarrow> 32 word \<times> 32 word \<times> 32 word \<times> 32 word \<Rightarrow> buffer_handle option \<Rightarrow> gstate
    \<Rightarrow> int \<times> buffer_handle option \<times> gstate" where
  "allocator_request g = (\<lambda>(w, h, f, u) old st.
     case allocator_alloc g w h f u old st of (err, x, str, st) \<Rightarrow> (err, x, st))"

interpretation allocations: buffer_allocator sAllocList "allocator_request g" Some "allocator_free g" for g
proof unfold_locales
  fix q :: "32 word \<times> 32 word \<times> 32 word \<times> 32 word" and old h s s' and err :: int
  obtain w ht f u where q: "q = (w, ht, f, u)" by (metis prod_cases4)
  have *: "\<exists>str. allocator_alloc g w ht f u old s = (err, h, str, s')" if "allocator_request g q old s = (err, h, s')"
    for err h s'
    using that by (auto simp: allocator_request_def q split: prod.splits)
  show "allocator_request g q old s = (0, h, s') \<Longrightarrow>
      (sAllocList s')(h := None) = (sAllocList s)(h := None) \<and> sAllocList s' h \<noteq> None"
    using * allocator_alloc_list(1) by blast
  show "allocator_request g q old s = (err, h, s') \<Longrightarrow> err \<noteq> 0 \<Longrightarrow> sAllocList s' = sAllocList s"
    using * allocator_alloc_list(2) by blast
next
  fix k s s' and err :: int
  show "allocator_free g k s = (0, s') \<Longrightarrow> sAllocList s' = (sAllocList s)(Some k := None)"
    using allocator_free_simps(1,2) [of g k s] by (auto split: if_splits)
  show "allocator_free g k s = (err, s') \<Longrightarrow> err \<noteq> 0 \<Longrightarrow> sAllocList s' = sAllocList s"
    using allocator_free_simps(1,2) [of g k s] by (auto split: if_splits)
qed

end
