(* ===== verification/GraphicBuffer.thy ===== *)
theory GraphicBuffer
  imports Gralloc
begin

unbundle bit_operations_syntax

text \<open>
  \<^verbatim>\<open>libshims/ui/GraphicBuffer.cpp\<close>: a buffer, who owns its handle, and how it is written into and read
  from a parcel. \<open>native_handle_create\<close>, \<open>native_handle_close\<close> and \<open>native_handle_delete\<close> of libcutils
  are calls of the trace; the target is 32-bit, so \<open>size_t\<close> arithmetic wraps at \<open>2 ^ 32\<close>.
\<close>

section \<open>Data\<close>

definition INVALID_OPERATION :: int where "INVALID_OPERATION = - 38"
definition BAD_TYPE :: int where "BAD_TYPE = - 2147483647"
definition GBFR :: "32 word" where "GBFR = 0x47424652"
definition maxNumber :: nat where "maxNumber = 4096"

datatype owner = ownNone | ownHandle | ownData

record graphic_buffer =
  width :: "32 word"
  height :: "32 word"
  stride :: "32 word"
  format :: "32 word"
  usage :: "32 word"
  handle :: "buffer_handle option"
  mOwner :: owner
  mInitCheck :: int
  mWrappedBuffer :: bool
  mId :: "64 word"

definition zero_dims :: "graphic_buffer \<Rightarrow> graphic_buffer" where
  "zero_dims gb = gb\<lparr>width := 0, height := 0, stride := 0, format := 0, usage := 0\<rparr>"

definition getUniqueId :: "32 word \<Rightarrow> gstate \<Rightarrow> 64 word \<times> gstate" where
  "getUniqueId pid st =
     (push_bit 32 (scast pid) OR ucast (nextId st), st\<lparr>nextId := nextId st + 1\<rparr>)"

section \<open>Creation, reallocation and destruction\<close>

definition initSize :: "gralloc \<Rightarrow> 32 word \<Rightarrow> 32 word \<Rightarrow> 32 word \<Rightarrow> 32 word \<Rightarrow> graphic_buffer \<times> gstate
    \<Rightarrow> int \<times> graphic_buffer \<times> gstate" where
  "initSize g w h fmt reqUsage = (\<lambda>(gb, st).
     let (err, h2, str, st) = allocator_alloc g w h fmt reqUsage (handle gb) st;
         gb = gb\<lparr>handle := h2, stride := str\<rparr>
     in if err = 0
        then (err, gb\<lparr>width := w, height := h, format := fmt, usage := reqUsage\<rparr>, st)
        else (err, gb, st))"

definition empty_buffer :: "owner \<Rightarrow> 64 word \<Rightarrow> graphic_buffer" where
  "empty_buffer own i = \<lparr>width = 0, height = 0, stride = 0, format = 0, usage = 0, handle = None,
     mOwner = own, mInitCheck = 0, mWrappedBuffer = False, mId = i\<rparr>"

definition GraphicBuffer_empty :: "32 word \<Rightarrow> gstate \<Rightarrow> graphic_buffer \<times> gstate" where
  "GraphicBuffer_empty pid st = (let (i, st) = getUniqueId pid st in (empty_buffer ownData i, st))"

definition GraphicBuffer_sized :: "gralloc \<Rightarrow> 32 word \<Rightarrow> 32 word \<Rightarrow> 32 word \<Rightarrow> 32 word \<Rightarrow> 32 word \<Rightarrow> gstate
    \<Rightarrow> graphic_buffer \<times> gstate" where
  "GraphicBuffer_sized g pid w h reqFormat reqUsage st =
     (let (i, st) = getUniqueId pid st;
          (err, gb, st) = initSize g w h reqFormat reqUsage (empty_buffer ownData i, st)
      in (gb\<lparr>mInitCheck := err\<rparr>, st))"

definition GraphicBuffer_handle :: "32 word \<Rightarrow> 32 word \<Rightarrow> 32 word \<Rightarrow> 32 word \<Rightarrow> 32 word \<Rightarrow> 32 word
    \<Rightarrow> buffer_handle option \<Rightarrow> bool \<Rightarrow> gstate \<Rightarrow> graphic_buffer \<times> gstate" where
  "GraphicBuffer_handle pid w h inFormat inUsage inStride inHandle keepOwnership st =
     (let (i, st) = getUniqueId pid st
      in ((empty_buffer (if keepOwnership then ownHandle else ownNone) i)
            \<lparr>width := w, height := h, stride := inStride, format := inFormat, usage := inUsage,
             handle := inHandle\<rparr>, st))"

text \<open>The buffer of a native window, of which the dimensions and the handle are taken.\<close>

definition GraphicBuffer_wrap :: "32 word \<Rightarrow> graphic_buffer \<Rightarrow> bool \<Rightarrow> gstate \<Rightarrow> graphic_buffer \<times> gstate" where
  "GraphicBuffer_wrap pid buffer keepOwnership st =
     (let (i, st) = getUniqueId pid st
      in ((empty_buffer (if keepOwnership then ownHandle else ownNone) i)
            \<lparr>width := width buffer, height := height buffer, stride := stride buffer,
             format := format buffer, usage := usage buffer, handle := handle buffer,
             mWrappedBuffer := True\<rparr>, st))"

definition native_handle_close_delete :: "gralloc \<Rightarrow> buffer_handle \<Rightarrow> gstate \<Rightarrow> gstate" where
  "native_handle_close_delete g h st =
     (let st = snd (gcall_do g (HandleDelete h) (snd (gcall_do g (HandleClose h) st)))
      in st\<lparr>handles := (handles st)(h := None)\<rparr>)"

definition free_handle :: "gralloc \<Rightarrow> buffer_handle \<Rightarrow> graphic_buffer \<times> gstate \<Rightarrow> graphic_buffer \<times> gstate" where
  "free_handle g h = (\<lambda>(gb, st).
     let st = (case mOwner gb of
                 ownHandle \<Rightarrow> native_handle_close_delete g h (snd (unregisterBuffer g h st))
               | ownData \<Rightarrow> snd (allocator_free g h st)
               | ownNone \<Rightarrow> st)
     in (gb\<lparr>mWrappedBuffer := False\<rparr>, st))"

definition destroy :: "gralloc \<Rightarrow> graphic_buffer \<times> gstate \<Rightarrow> gstate" where
  "destroy g = (\<lambda>(gb, st).
     case handle gb of None \<Rightarrow> st | Some h \<Rightarrow> snd (free_handle g h (gb, st)))"

definition initCheck :: "graphic_buffer \<Rightarrow> int" where
  "initCheck gb = mInitCheck gb"

definition reallocate :: "gralloc \<Rightarrow> 32 word \<Rightarrow> 32 word \<Rightarrow> 32 word \<Rightarrow> 32 word \<Rightarrow> graphic_buffer \<times> gstate
    \<Rightarrow> int \<times> graphic_buffer \<times> gstate" where
  "reallocate g w h f reqUsage = (\<lambda>(gb, st).
     if mOwner gb \<noteq> ownData then (INVALID_OPERATION, gb, st)
     else case handle gb of
       None \<Rightarrow> initSize g w h f reqUsage (gb, st)
     | Some h0 \<Rightarrow>
         if w = width gb \<and> h = height gb \<and> f = format gb \<and> reqUsage = usage gb then (0, gb, st)
         else initSize g w h f reqUsage (gb\<lparr>handle := None\<rparr>, snd (allocator_free g h0 st)))"

section \<open>Locking\<close>

definition outside :: "graphic_buffer \<Rightarrow> rect \<Rightarrow> bool" where
  "outside gb r \<longleftrightarrow> left r < 0 \<or> right r > sint (width gb) \<or> top r < 0 \<or> bottom r > sint (height gb)"

definition lockBounds :: "graphic_buffer \<Rightarrow> rect" where
  "lockBounds gb = \<lparr>left = 0, top = 0, right = sint (width gb), bottom = sint (height gb)\<rparr>"

definition lock_rect :: "gralloc \<Rightarrow> 32 word \<Rightarrow> rect \<Rightarrow> graphic_buffer \<times> gstate \<Rightarrow> int \<times> gstate" where
  "lock_rect g us r = (\<lambda>(gb, st).
     if outside gb r then (- EINVAL, st) else mapper_lock g (handle gb) us r st)"

definition lock :: "gralloc \<Rightarrow> 32 word \<Rightarrow> graphic_buffer \<times> gstate \<Rightarrow> int \<times> gstate" where
  "lock g us = (\<lambda>(gb, st). lock_rect g us (lockBounds gb) (gb, st))"

definition lockYCbCr_rect :: "gralloc \<Rightarrow> 32 word \<Rightarrow> rect \<Rightarrow> graphic_buffer \<times> gstate \<Rightarrow> int \<times> gstate" where
  "lockYCbCr_rect g us r = (\<lambda>(gb, st).
     if outside gb r then (- EINVAL, st) else mapper_lockYCbCr g (handle gb) us r st)"

definition lockYCbCr :: "gralloc \<Rightarrow> 32 word \<Rightarrow> graphic_buffer \<times> gstate \<Rightarrow> int \<times> gstate" where
  "lockYCbCr g us = (\<lambda>(gb, st). lockYCbCr_rect g us (lockBounds gb) (gb, st))"

definition unlock :: "gralloc \<Rightarrow> graphic_buffer \<times> gstate \<Rightarrow> int \<times> gstate" where
  "unlock g = (\<lambda>(gb, st). mapper_unlock g (handle gb) st)"

definition lockAsync_rect :: "gralloc \<Rightarrow> 32 word \<Rightarrow> rect \<Rightarrow> int \<Rightarrow> graphic_buffer \<times> gstate \<Rightarrow> int \<times> gstate" where
  "lockAsync_rect g us r fenceFd = (\<lambda>(gb, st).
     if outside gb r then (- EINVAL, st) else mapper_lockAsync g (handle gb) us r fenceFd st)"

definition lockAsync :: "gralloc \<Rightarrow> 32 word \<Rightarrow> int \<Rightarrow> graphic_buffer \<times> gstate \<Rightarrow> int \<times> gstate" where
  "lockAsync g us fenceFd = (\<lambda>(gb, st). lockAsync_rect g us (lockBounds gb) fenceFd (gb, st))"

definition lockAsyncYCbCr_rect :: "gralloc \<Rightarrow> 32 word \<Rightarrow> rect \<Rightarrow> int \<Rightarrow> graphic_buffer \<times> gstate \<Rightarrow> int \<times> gstate" where
  "lockAsyncYCbCr_rect g us r fenceFd = (\<lambda>(gb, st).
     if outside gb r then (- EINVAL, st) else mapper_lockAsyncYCbCr g (handle gb) us r fenceFd st)"

definition lockAsyncYCbCr :: "gralloc \<Rightarrow> 32 word \<Rightarrow> int \<Rightarrow> graphic_buffer \<times> gstate \<Rightarrow> int \<times> gstate" where
  "lockAsyncYCbCr g us fenceFd = (\<lambda>(gb, st). lockAsyncYCbCr_rect g us (lockBounds gb) fenceFd (gb, st))"

definition unlockAsync :: "gralloc \<Rightarrow> graphic_buffer \<times> gstate \<Rightarrow> int \<times> int \<times> gstate" where
  "unlockAsync g = (\<lambda>(gb, st). mapper_unlockAsync g (handle gb) st)"

section \<open>Flattening\<close>

text \<open>
  The buffer and the descriptors are regions of 32-bit words; the references that \<open>flatten\<close> and
  \<open>unflatten\<close> advance are the cursor: offsets into the regions, in words, and what the caller says
  is left, \<open>csize\<close> in bytes and \<open>ccount\<close> in descriptors.
\<close>

record cursor =
  cbuf :: nat
  csize :: nat
  cfds :: nat
  ccount :: nat

definition deref :: "gstate \<Rightarrow> buffer_handle \<Rightarrow> fault + native_handle" where
  "deref st h = (case handles st h of None \<Rightarrow> Inl OutOfBounds | Some nh \<Rightarrow> Inr nh)"

definition getFlattenedSize :: "native_handle option \<Rightarrow> nat" where
  "getFlattenedSize nh = nat ((10 + (case nh of None \<Rightarrow> 0 | Some h \<Rightarrow> numInts h)) * 4 mod 2 ^ 32)"

definition getFdCount :: "native_handle option \<Rightarrow> nat" where
  "getFdCount nh = (case nh of None \<Rightarrow> 0 | Some h \<Rightarrow> nat (numFds h mod 2 ^ 32))"

text \<open>What \<open>memcpy\<close> reads of \<open>n * sizeof(int)\<close> bytes from the word at \<open>off\<close>.\<close>

definition copy_words :: "32 word list \<Rightarrow> int \<Rightarrow> int \<Rightarrow> 32 word list option" where
  "copy_words src off n =
     (let k = nat (n mod 2 ^ 30)
      in if 0 \<le> off \<and> nat off + k \<le> length src then Some (take k (drop (nat off) src)) else None)"

definition memcpy_words :: "32 word list \<Rightarrow> nat \<Rightarrow> 32 word list \<Rightarrow> int \<Rightarrow> int \<Rightarrow> fault + 32 word list" where
  "memcpy_words dst at src off n =
     (case copy_words src off n of
        None \<Rightarrow> Inl OutOfBounds
      | Some ws \<Rightarrow> (case poke dst (int at) ws of None \<Rightarrow> Inl OutOfBounds | Some dst \<Rightarrow> Inr dst))"

definition flat_header :: "graphic_buffer \<Rightarrow> 32 word list" where
  "flat_header gb = [GBFR, width gb, height gb, stride gb, format gb, usage gb,
     ucast (drop_bit 32 (mId gb)), ucast (mId gb AND 0xFFFFFFFF), 0, 0]"

text \<open>The result, the two regions and the cursor; \<open>nh\<close> is what the handle points to.\<close>

definition flatten_handle :: "graphic_buffer \<Rightarrow> native_handle option \<Rightarrow> 32 word list \<Rightarrow> 32 word list \<Rightarrow> cursor
    \<Rightarrow> fault + int \<times> 32 word list \<times> 32 word list \<times> cursor" where
  "flatten_handle gb nh buf fds c =
     (let sizeNeeded = getFlattenedSize nh
      in if csize c < sizeNeeded then Inr (- ENOMEM, buf, fds, c)
         else if ccount c < getFdCount nh then Inr (- ENOMEM, buf, fds, c)
         else case poke buf (int (cbuf c)) (flat_header gb) of
           None \<Rightarrow> Inl OutOfBounds
         | Some buf \<Rightarrow>
             let c = c\<lparr>cbuf := cbuf c + sizeNeeded, csize := csize c - sizeNeeded\<rparr>; at = cbuf c - sizeNeeded
             in case nh of
               None \<Rightarrow> Inr (0, buf, fds, c)
             | Some h \<Rightarrow>
                 let buf = buf[at + 8 := word_of_int (numFds h), at + 9 := word_of_int (numInts h)]
                 in case memcpy_words fds (cfds c) (handle_data h) 0 (numFds h) of
                   Inl f \<Rightarrow> Inl f
                 | Inr fds \<Rightarrow>
                     (case memcpy_words buf (at + 10) (handle_data h) (numFds h) (numInts h) of
                        Inl f \<Rightarrow> Inl f
                      | Inr buf \<Rightarrow>
                          Inr (0, buf, fds, c\<lparr>cfds := cfds c + getFdCount nh, ccount := ccount c - getFdCount nh\<rparr>)))"

definition flatten :: "graphic_buffer \<Rightarrow> gstate \<Rightarrow> 32 word list \<Rightarrow> 32 word list \<Rightarrow> cursor
    \<Rightarrow> fault + int \<times> 32 word list \<times> 32 word list \<times> cursor" where
  "flatten gb st buf fds c =
     (case handle gb of
        None \<Rightarrow> flatten_handle gb None buf fds c
      | Some h \<Rightarrow> (case deref st h of Inl f \<Rightarrow> Inl f | Inr nh \<Rightarrow> flatten_handle gb (Some nh) buf fds c))"

text \<open>The words of the header, as far as the region has them.\<close>

definition read_word :: "32 word list \<Rightarrow> nat \<Rightarrow> fault + 32 word" where
  "read_word buf i = (if i < length buf then Inr (buf ! i) else Inl OutOfBounds)"

text \<open>The handle that \<open>native_handle_create\<close> gives, filled with the descriptors and the ints.\<close>

definition unflatten_create :: "gralloc \<Rightarrow> nat \<Rightarrow> nat \<Rightarrow> 32 word list \<Rightarrow> 32 word list \<Rightarrow> cursor \<Rightarrow> gstate
    \<Rightarrow> fault + buffer_handle option \<times> gstate" where
  "unflatten_create g nFds nInts buf fds c st =
     (let h = create_out g (gtr st); st = snd (gcall_do g (HandleCreate nFds nInts) st)
      in case h of
           None \<Rightarrow> Inr (None, st)
         | Some h \<Rightarrow>
             (case (copy_words fds (int (cfds c)) (int nFds), copy_words buf (int (cbuf c) + 10) (int nInts)) of
                (Some ws, Some is) \<Rightarrow>
                  Inr (Some h, st\<lparr>handles := (handles st)
                    (h \<mapsto> \<lparr>numFds = int nFds, numInts = int nInts, handle_data = ws @ is\<rparr>)\<rparr>)
              | _ \<Rightarrow> Inl OutOfBounds))"

definition unflatten_register :: "gralloc \<Rightarrow> graphic_buffer \<Rightarrow> gstate \<Rightarrow> nat \<Rightarrow> nat \<Rightarrow> cursor
    \<Rightarrow> int \<times> graphic_buffer \<times> gstate \<times> cursor" where
  "unflatten_register g gb st sizeNeeded nFds c =
     (let ok = c\<lparr>cbuf := cbuf c + sizeNeeded, csize := csize c - sizeNeeded, cfds := cfds c + nFds,
                 ccount := ccount c - nFds\<rparr>
      in case handle gb of
           None \<Rightarrow> (0, gb, st, ok)
         | Some h \<Rightarrow>
             let (err, st) = registerBuffer g h st
             in if err \<noteq> 0 then (err, (zero_dims gb)\<lparr>handle := None\<rparr>, st, c) else (0, gb, st, ok))"

definition unflatten_body :: "gralloc \<Rightarrow> 32 word list \<Rightarrow> 32 word list \<Rightarrow> cursor \<Rightarrow> nat \<Rightarrow> nat
    \<Rightarrow> graphic_buffer \<times> gstate \<Rightarrow> fault + int \<times> graphic_buffer \<times> gstate \<times> cursor" where
  "unflatten_body g buf fds c nFds nInts = (\<lambda>(gb, st).
     let sizeNeeded = (10 + nInts) * 4; at = cbuf c;
         finish = (\<lambda>gb st. Inr (unflatten_register g
           (gb\<lparr>mId := push_bit 32 (scast (buf ! (at + 6))) OR ucast (buf ! (at + 7)), mOwner := ownHandle\<rparr>)
           st sizeNeeded nFds c))
     in if nFds \<noteq> 0 \<or> nInts \<noteq> 0
        then let gb = gb\<lparr>width := buf ! (at + 1), height := buf ! (at + 2), stride := buf ! (at + 3),
                        format := buf ! (at + 4), usage := buf ! (at + 5)\<rparr>
             in case unflatten_create g nFds nInts buf fds c st of
               Inl f \<Rightarrow> Inl f
             | Inr (None, st) \<Rightarrow> Inr (- ENOMEM, (zero_dims gb)\<lparr>handle := None\<rparr>, st, c)
             | Inr (Some h, st) \<Rightarrow> finish (gb\<lparr>handle := Some h\<rparr>) st
        else finish ((zero_dims gb)\<lparr>handle := None\<rparr>) st)"

definition unflatten :: "gralloc \<Rightarrow> 32 word list \<Rightarrow> 32 word list \<Rightarrow> cursor \<Rightarrow> graphic_buffer \<times> gstate
    \<Rightarrow> fault + int \<times> graphic_buffer \<times> gstate \<times> cursor" where
  "unflatten g buf fds c = (\<lambda>(gb, st).
     if csize c < 8 * 4 then Inr (- ENOMEM, gb, st, c)
     else case read_word buf (cbuf c) of
       Inl f \<Rightarrow> Inl f
     | Inr magic \<Rightarrow>
         if magic \<noteq> GBFR then Inr (BAD_TYPE, gb, st, c)
         else (case (read_word buf (cbuf c + 8), read_word buf (cbuf c + 9)) of
           (Inr w8, Inr w9) \<Rightarrow>
             let nFds = unat w8; nInts = unat w9
             in if nFds \<ge> maxNumber \<or> nInts \<ge> maxNumber - 10
                then Inr (- EINVAL, (zero_dims gb)\<lparr>handle := None\<rparr>, st, c)
                else if csize c < (10 + nInts) * 4 then Inr (- ENOMEM, gb, st, c)
                else if ccount c < nFds then Inr (- ENOMEM, gb, st, c)
                else unflatten_body g buf fds c nFds nInts
                       (case handle gb of None \<Rightarrow> (gb, st) | Some h \<Rightarrow> free_handle g h (gb, st))
         | _ \<Rightarrow> Inl OutOfBounds))"

section \<open>Lemmas on flattening\<close>

text \<open>The words of a flattened buffer, and the handles that \<open>unflatten\<close> accepts.\<close>

lemma copy_words_eq:
  assumes "0 \<le> n" and "n < 2 ^ 30"
  shows "copy_words src off n =
     (if 0 \<le> off \<and> off + n \<le> int (length src) then Some (take (nat n) (drop (nat off) src)) else None)"
proof -
  have "n mod 2 ^ 30 = n" using assms by simp
  then show ?thesis using assms(1) by (auto simp: copy_words_def Let_def)
qed

lemma poke_append:
  "length p = a \<Longrightarrow> length ys \<le> length zs \<Longrightarrow> poke (p @ zs) (int a) ys = Some (p @ ys @ drop (length ys) zs)"
  by (simp add: poke_def)

definition flat_words :: "graphic_buffer \<Rightarrow> native_handle \<Rightarrow> 32 word list" where
  "flat_words gb nh = [GBFR, width gb, height gb, stride gb, format gb, usage gb,
     ucast (drop_bit 32 (mId gb)), ucast (mId gb AND 0xFFFFFFFF),
     word_of_int (numFds nh), word_of_int (numInts nh)] @ drop (nat (numFds nh)) (handle_data nh)"

definition wf_handle :: "native_handle \<Rightarrow> bool" where
  "wf_handle nh \<longleftrightarrow> 0 \<le> numFds nh \<and> numFds nh < 4096 \<and> 0 \<le> numInts nh \<and> numInts nh < 4086
     \<and> int (length (handle_data nh)) = numFds nh + numInts nh"

lemma flatten_handle_ok:
  assumes wf: "wf_handle nh"
    and buf: "buf = p @ b" "length p = cbuf c" "length b \<ge> 10 + nat (numInts nh)"
    and fds: "fds = q @ f" "length q = cfds c" "length f \<ge> nat (numFds nh)"
    and c: "csize c \<ge> (10 + nat (numInts nh)) * 4" "ccount c \<ge> nat (numFds nh)"
  shows "flatten_handle gb (Some nh) buf fds c =
    Inr (0, p @ flat_words gb nh @ drop (10 + nat (numInts nh)) b,
         q @ take (nat (numFds nh)) (handle_data nh) @ drop (nat (numFds nh)) f,
         \<lparr>cbuf = cbuf c + (10 + nat (numInts nh)) * 4, csize = csize c - (10 + nat (numInts nh)) * 4,
          cfds = cfds c + nat (numFds nh), ccount = ccount c - nat (numFds nh)\<rparr>)"
proof -
  have sz: "getFlattenedSize (Some nh) = (10 + nat (numInts nh)) * 4"
    using wf by (simp add: getFlattenedSize_def wf_handle_def) linarith
  have cnt: "getFdCount (Some nh) = nat (numFds nh)"
    using wf by (simp add: getFdCount_def wf_handle_def)
  have h: "length (flat_header gb) = 10" by (simp add: flat_header_def)
  have pk: "poke (p @ b) (int (cbuf c)) (flat_header gb) = Some (p @ flat_header gb @ drop 10 b)"
    using poke_append [OF buf(2), of "flat_header gb" b] buf(3) h by simp
  have hdr: "(p @ flat_header gb @ drop 10 b)[cbuf c + 8 := x, cbuf c + 9 := y] =
      (p @ (take 8 (flat_header gb) @ [x, y])) @ drop 10 b" for x y
    using buf(2) by (simp add: list_update_append flat_header_def)
  have m1: "memcpy_words (q @ f) (cfds c) (handle_data nh) 0 (numFds nh) =
      Inr (q @ take (nat (numFds nh)) (handle_data nh) @ drop (nat (numFds nh)) f)"
  proof -
    have le: "nat (numFds nh) \<le> length (handle_data nh)" using wf by (simp add: wf_handle_def) linarith
    show ?thesis
      using wf fds(3) le
      by (simp add: memcpy_words_def copy_words_eq wf_handle_def poke_append [OF fds(2)] min_absorb2)
  qed
  define ws where "ws = drop (nat (numFds nh)) (handle_data nh)"
  have ln: "length ws = nat (numInts nh)" using wf by (simp add: wf_handle_def ws_def) linarith
  have cw: "copy_words (handle_data nh) (numFds nh) (numInts nh) = Some ws"
    using wf ln by (simp add: copy_words_eq wf_handle_def ws_def)
  have m2: "memcpy_words ((p @ (take 8 (flat_header gb) @ [x, y])) @ drop 10 b) (cbuf c + 10) (handle_data nh)
      (numFds nh) (numInts nh) = Inr ((p @ (take 8 (flat_header gb) @ [x, y])) @
        ws @ drop (10 + nat (numInts nh)) b)" for x y
  proof -
    have l: "length (p @ (take 8 (flat_header gb) @ [x, y])) = cbuf c + 10"
      using buf(2) by (simp add: flat_header_def)
    show ?thesis
      using poke_append [OF l, of ws "drop 10 b"] buf(3) ln
      by (simp add: memcpy_words_def cw add.commute del: append_assoc of_nat_add)
  qed
  show ?thesis
    using c unfolding flatten_handle_def buf(1) fds(1)
    by (simp add: sz cnt Let_def pk hdr m1 m2 ws_def [symmetric] flat_words_def del: append_assoc)
      (simp add: flat_header_def)
qed

lemma mId_rebuilt:
  fixes x :: "64 word"
  shows "push_bit 32 (scast (ucast (drop_bit 32 x) :: 32 word)) OR ucast (ucast (x AND 0xFFFFFFFF) :: 32 word) = x"
proof (rule bit_word_eqI)
  fix n assume n: "n < LENGTH(64)"
  have m: "(0xFFFFFFFF :: 64 word) = mask 32" by (simp add: mask_eq_exp_minus_1)
  show "bit (push_bit 32 (scast (ucast (drop_bit 32 x) :: 32 word)) OR
      ucast (ucast (x AND 0xFFFFFFFF) :: 32 word) :: 64 word) n = bit x n"
  proof (cases "n < 32")
    case True
    then show ?thesis using n unfolding m by (auto simp: bit_simps)
  next
    case False
    define k where "k = n - 32"
    have k: "n = k + 32" "k < 32" using n False by (auto simp: k_def)
    then show ?thesis unfolding m by (cases "k = 31") (auto simp: bit_simps min_def add.commute)
  qed
qed

lemma unflatten_create_ok:
  assumes wf: "wf_handle nh"
    and buf: "buf = p @ flat_words gb nh @ r" "length p = cbuf c"
    and fds: "fds = q @ take (nat (numFds nh)) (handle_data nh) @ f" "length q = cfds c"
    and fresh: "create_out g (gtr st) = Some h"
  shows "unflatten_create g (nat (numFds nh)) (nat (numInts nh)) buf fds c st =
    Inr (Some h, st\<lparr>handles := (handles st)(h \<mapsto> nh),
      gtr := gtr st @ [HandleCreate (nat (numFds nh)) (nat (numInts nh))]\<rparr>)"
proof -
  let ?nf = "nat (numFds nh)" and ?ni = "nat (numInts nh)"
  have ln: "length (flat_words gb nh) = 10 + ?ni" using wf by (simp add: flat_words_def wf_handle_def) linarith
  have b: "int ?nf = numFds nh" "int ?ni = numInts nh" "0 \<le> numInts nh" "?ni < 4086"
    using wf by (auto simp: wf_handle_def)
  have "?nf \<le> length (handle_data nh)" using wf by (simp add: wf_handle_def) linarith
  then have cf: "copy_words fds (int (cfds c)) (int ?nf) = Some (take ?nf (handle_data nh))"
    using fds b wf by (simp add: copy_words_eq wf_handle_def min_absorb2)
  have "nat (int (cbuf c) + 10) = length p + 10" using buf(2) by simp
  then have cb: "copy_words buf (int (cbuf c) + 10) (int ?ni) = Some (drop ?nf (handle_data nh))"
    using buf b ln by (simp add: copy_words_eq flat_words_def)
  have "\<lparr>numFds = int ?nf, numInts = int ?ni, handle_data = handle_data nh\<rparr> = nh" using b by simp
  then show ?thesis
    unfolding unflatten_create_def cf cb fresh Let_def by (simp add: gcall_do_def del: int_nat_eq)
qed

lemma unflatten_ok:
  assumes wf: "wf_handle nh" and some: "numFds nh + numInts nh \<noteq> 0"
    and buf: "buf = p @ flat_words gb nh @ r" "length p = cbuf c"
    and fds: "fds = q @ take (nat (numFds nh)) (handle_data nh) @ f" "length q = cfds c"
    and c: "csize c \<ge> (10 + nat (numInts nh)) * 4" "ccount c \<ge> nat (numFds nh)"
    and fresh: "handle gb' = None" "create_out g (gtr st) = Some h"
    and reg: "answer g (gtr st @ [HandleCreate (nat (numFds nh)) (nat (numInts nh))]) (GRegister h) = 0"
  shows "unflatten g buf fds c (gb', st) =
    Inr (0, gb'\<lparr>width := width gb, height := height gb, stride := stride gb, format := format gb,
              usage := usage gb, handle := Some h, mOwner := ownHandle, mId := mId gb\<rparr>,
         st\<lparr>handles := (handles st)(h \<mapsto> nh),
            gtr := gtr st @ [HandleCreate (nat (numFds nh)) (nat (numInts nh)), GRegister h]\<rparr>,
         \<lparr>cbuf = cbuf c + (10 + nat (numInts nh)) * 4, csize = csize c - (10 + nat (numInts nh)) * 4,
          cfds = cfds c + nat (numFds nh), ccount = ccount c - nat (numFds nh)\<rparr>)"
proof -
  let ?nf = "nat (numFds nh)" and ?ni = "nat (numInts nh)"
  have at: "buf ! (cbuf c + k) = flat_words gb nh ! k" if "k < length (flat_words gb nh)" for k
    using that buf by (simp add: nth_append)
  have at0: "buf ! cbuf c = flat_words gb nh ! 0" using at [of 0] by (simp add: flat_words_def)
  have ln: "length (flat_words gb nh) = 10 + ?ni" using wf by (simp add: flat_words_def wf_handle_def) linarith
  have rd: "read_word buf (cbuf c + k) = Inr (flat_words gb nh ! k)" if "k < 10" for k
    using that at [of k] buf ln by (simp add: read_word_def)
  have w8: "unat (word_of_int (numFds nh) :: 32 word) = ?nf"
    using wf by (simp add: wf_handle_def unsigned_of_int take_bit_int_eq_self)
  have w9: "unat (word_of_int (numInts nh) :: 32 word) = ?ni"
    using wf by (simp add: wf_handle_def unsigned_of_int take_bit_int_eq_self)
  have b: "?nf < 4096" "?ni < 4086" "int ?nf = numFds nh" "int ?ni = numInts nh" "0 \<le> numInts nh"
    using wf by (auto simp: wf_handle_def)
  note cr = unflatten_create_ok [where g = g, OF wf buf fds fresh(2)]
  have body: "unflatten_body g buf fds c ?nf ?ni (gb', st) = 
    Inr (0, gb'\<lparr>width := width gb, height := height gb, stride := stride gb, format := format gb,
              usage := usage gb, handle := Some h, mOwner := ownHandle, mId := mId gb\<rparr>,
         st\<lparr>handles := (handles st)(h \<mapsto> nh),
            gtr := gtr st @ [HandleCreate ?nf ?ni, GRegister h]\<rparr>,
         \<lparr>cbuf = cbuf c + (10 + ?ni) * 4, csize = csize c - (10 + ?ni) * 4,
          cfds = cfds c + ?nf, ccount = ccount c - ?nf\<rparr>)"
  proof -
    have "?nf \<noteq> 0 \<or> ?ni \<noteq> 0" using some b by linarith
    moreover have "buf ! (cbuf c + 1) = width gb" "buf ! (cbuf c + 2) = height gb" "buf ! (cbuf c + 3) = stride gb"
      "buf ! (cbuf c + 4) = format gb" "buf ! (cbuf c + 5) = usage gb"
      "buf ! (cbuf c + 6) = ucast (drop_bit 32 (mId gb))" "buf ! (cbuf c + 7) = ucast (mId gb AND 0xFFFFFFFF)"
      using at [of 1] at [of 2] at [of 3] at [of 4] at [of 5] at [of 6] at [of 7] by (simp_all add: flat_words_def)
    ultimately show ?thesis
      unfolding unflatten_body_def
      by (simp add: Let_def cr unflatten_register_def registerBuffer_def gcall_do_def reg mId_rebuilt)
  qed
  show ?thesis
    unfolding unflatten_def using rd [of 8] rd [of 9] rd [of 0] c b w8 w9 body fresh(1)
    by (simp add: flat_words_def maxNumber_def)
qed

lemma copy_words_fits: "a + n \<le> length src \<Longrightarrow> n < 2 ^ 30 \<Longrightarrow> copy_words src (int a) (int n) \<noteq> None"
  by (simp add: copy_words_eq)

lemma unflatten_body_no_fault:
  assumes "cbuf c + 10 + nInts \<le> length buf" and "cfds c + nFds \<le> length fds" and "nFds < 4096" and "nInts < 4086"
  shows "unflatten_body g buf fds c nFds nInts s \<noteq> Inl f"
proof -
  obtain gb st where s: "s = (gb, st)" by (cases s)
  have 1: "copy_words fds (int (cfds c)) (int nFds) \<noteq> None" by (rule copy_words_fits) (use assms in auto)
  have 2: "copy_words buf (int (cbuf c) + 10) (int nInts) \<noteq> None"
    using copy_words_fits [of "cbuf c + 10" nInts buf] assms by simp
  have "unflatten_create g nFds nInts buf fds c st \<noteq> Inl f'" for f'
    using 1 2 by (auto simp: unflatten_create_def Let_def split: option.split)
  then show ?thesis
    by (auto simp: unflatten_body_def s Let_def split: option.split sum.split)
qed

section \<open>Lemmas on the list of allocations\<close>

text \<open>
  What the module promises: freeing succeeds, an allocation that succeeds stores a handle that
  is in no use, and one that fails stores none. \<open>L\<close> are the allocations of the other buffers.
\<close>

definition good_module :: "gralloc \<Rightarrow> (buffer_handle option \<Rightarrow> alloc_rec option) \<Rightarrow> bool" where
  "good_module g L \<longleftrightarrow> (\<forall>tr h. answer g tr (GFree h) = 0) \<and>
     (\<forall>tr w h f u. (answer g tr (GAlloc w h f u) = 0) = (fst (alloc_out g tr (GAlloc w h f u)) \<noteq> None)) \<and>
     (\<forall>tr w h f u. (case fst (alloc_out g tr (GAlloc w h f u)) of None \<Rightarrow> True | Some (x, nh) \<Rightarrow> L (Some x) = None))"

definition owns :: "(buffer_handle option \<Rightarrow> alloc_rec option) \<Rightarrow> graphic_buffer \<times> gstate \<Rightarrow> bool" where
  "owns L = (\<lambda>(gb, st). mOwner gb = ownData \<and> allocations.holds L (map_option Some (handle gb)) st)"

lemma initSize_owns:
  assumes good: "good_module g L" and own: "owns L (gb, st)" and none: "handle gb = None"
    and eq: "initSize g w h f u (gb, st) = (err, gb', st')"
  shows "owns L (gb', st')"
proof -
  obtain e hh str st1 where a: "allocator_alloc g w h f u None st = (e, hh, str, st1)"
    by (metis prod_cases4)
  let ?w = "if w = 0 \<or> h = 0 then 1 else w" and ?h = "if w = 0 \<or> h = 0 then 1 else h"
  let ?c = "GAlloc ?w ?h f (u AND GRALLOC_USAGE_ALLOC_MASK g)"
  have gb': "mOwner gb' = mOwner gb" "handle gb' = hh" "st' = st1"
    using eq a none by (auto simp: initSize_def Let_def split: if_splits)
  have ans: "(e = 0) = (hh \<noteq> None)" "hh = Some x \<Longrightarrow> L (Some x) = None" for x
  proof -
    have "answer g (gtr st) ?c = 0 \<longleftrightarrow> fst (alloc_out g (gtr st) ?c) \<noteq> None"
      using good by (simp add: good_module_def)
    moreover have "case fst (alloc_out g (gtr st) ?c) of None \<Rightarrow> True | Some (x, nh) \<Rightarrow> L (Some x) = None"
      using good unfolding good_module_def by blast
    moreover have "e = answer g (gtr st) ?c" "hh = map_option fst (fst (alloc_out g (gtr st) ?c))"
      using a by (auto simp: allocator_alloc_def module_alloc_def gcall_do_def Let_def
          split: prod.splits option.splits if_splits)
    ultimately show "(e = 0) = (hh \<noteq> None)" "hh = Some x \<Longrightarrow> L (Some x) = None"
      by (auto split: option.splits prod.splits)
  qed
  have L: "allocations.holds L None st" "mOwner gb = ownData" using own none by (simp_all add: owns_def)
  have r: "allocator_request g (w, h, f, u) None st = (e, hh, st1)" by (simp add: allocator_request_def a)
  show ?thesis
  proof (cases hh)
    case None
    with ans(1) have "e \<noteq> 0" by simp
    from allocations.alloc_failed_holds [OF L(1) r this] show ?thesis
      using L(2) gb' None by (simp add: owns_def)
  next
    case (Some x)
    with ans(1) have e: "e = 0" by simp
    have "L hh = None" using ans(2) Some by simp
    from allocations.alloc_holds [OF L(1) r [unfolded e] this] show ?thesis
      using L(2) gb' Some by (simp add: owns_def)
  qed
qed

lemma release_holds:
  assumes "good_module g L" and "owns L (gb, st)" and "handle gb = Some h0"
  shows "allocations.holds L None (snd (allocator_free g h0 st))"
proof -
  have "allocator_free g h0 st = (0, snd (allocator_free g h0 st))"
    using assms(1) allocator_free_simps(1) [of g h0 st] by (simp add: good_module_def prod_eq_iff)
  then show ?thesis using allocations.free_holds [of L h0 st g] assms(2,3) by (simp add: owns_def)
qed

lemma reallocate_owns:
  assumes good: "good_module g L" and own: "owns L (gb, st)"
    and eq: "reallocate g w h f u (gb, st) = (err, gb', st')"
  shows "owns L (gb', st')"
proof (cases "handle gb")
  case None
  then show ?thesis
    using eq own initSize_owns [OF good own None] by (auto simp: reallocate_def owns_def)
next
  case (Some h0)
  have own': "owns L (gb\<lparr>handle := None\<rparr>, snd (allocator_free g h0 st))"
    using own release_holds [OF good own Some] by (simp add: owns_def)
  show ?thesis
    using eq own Some initSize_owns [OF good own'] by (auto simp: reallocate_def owns_def split: if_splits)
qed

fun reallocates :: "gralloc \<Rightarrow> (32 word \<times> 32 word \<times> 32 word \<times> 32 word) list \<Rightarrow> graphic_buffer \<times> gstate
    \<Rightarrow> graphic_buffer \<times> gstate" where
  "reallocates g [] s = s"
| "reallocates g ((w, h, f, u) # rs) s = reallocates g rs (snd (reallocate g w h f u s))"

lemma reallocates_owns: "good_module g L \<Longrightarrow> owns L s \<Longrightarrow> owns L (reallocates g rs s)"
proof (induction g rs s rule: reallocates.induct)
  case (2 g w h f u rs s)
  obtain gb st where s: "s = (gb, st)" by (cases s)
  obtain err gb' st' where r: "reallocate g w h f u (gb, st) = (err, gb', st')" by (metis prod_cases3)
  have "owns L (gb', st')" by (rule reallocate_owns [OF 2(2) _ r]) (use 2(3) s in simp)
  with 2 s r show ?case by simp
qed simp

lemma destroy_owns:
  assumes "good_module g L" and "owns L s"
  shows "sAllocList (destroy g s) = L"
proof -
  obtain gb st where s: "s = (gb, st)" by (cases s)
  show ?thesis
    using assms release_holds [of g L gb st]
    by (cases "handle gb") (auto simp: s owns_def destroy_def free_handle_def allocations.holds_def)
qed

lemma sized_owns:
  assumes "good_module g L" and "sAllocList st = L"
  shows "owns L (GraphicBuffer_sized g pid w h f u st)"
proof -
  obtain i st1 where i: "getUniqueId pid st = (i, st1)" by (cases "getUniqueId pid st")
  have L: "sAllocList st1 = L" using i assms(2) by (auto simp: getUniqueId_def)
  obtain err gb' st' where r: "initSize g w h f u (empty_buffer ownData i, st1) = (err, gb', st')"
    by (metis prod_cases3)
  have "owns L (gb', st')"
    by (rule initSize_owns [OF assms(1) _ _ r]) (use L in \<open>simp_all add: owns_def empty_buffer_def allocations.holds_def\<close>)
  then show ?thesis by (simp add: GraphicBuffer_sized_def i r owns_def)
qed

section \<open>Properties\<close>

text \<open>
  C26. Flattening a buffer whose handle has less than 4096 descriptors and less than 4086 ints, and at
  least one, succeeds when the region has room for it, writes only its own words, and unflattening what was
  written into a buffer without a handle restores the dimensions, the format, the usage and the id,
  and a handle with the same descriptors and ints, which the new buffer owns, if the module registers it.
  Both advance the buffer reference by four times the words they use.
\<close>

theorem flatten_unflatten:
  assumes wf: "wf_handle nh" "numFds nh + numInts nh \<noteq> 0"
    and hd: "handle gb = Some h" "handles st h = Some nh"
    and room: "cbuf c + 10 + nat (numInts nh) \<le> length buf" "cfds c + nat (numFds nh) \<le> length fds"
    and told: "csize c \<ge> (10 + nat (numInts nh)) * 4" "ccount c \<ge> nat (numFds nh)"
    and fresh: "handle gb' = None" "create_out g (gtr st') = Some h'"
    and reg: "answer g (gtr st' @ [HandleCreate (nat (numFds nh)) (nat (numInts nh))]) (GRegister h') = 0"
  shows "\<exists>buf' fds' c'. flatten gb st buf fds c = Inr (0, buf', fds', c') \<and>
    (\<exists>gb2 st2. unflatten g buf' fds' c (gb', st') = Inr (0, gb2, st2, c') \<and>
      (width gb2, height gb2, stride gb2, format gb2, usage gb2, mId gb2) =
        (width gb, height gb, stride gb, format gb, usage gb, mId gb) \<and>
      handle gb2 = Some h' \<and> handles st2 h' = Some nh \<and> mOwner gb2 = ownHandle) \<and>
    cbuf c' = cbuf c + 4 * (10 + nat (numInts nh)) \<and>
    take (cbuf c) buf' = take (cbuf c) buf \<and> drop (cbuf c + 10 + nat (numInts nh)) buf' = drop (cbuf c + 10 + nat (numInts nh)) buf"
proof -
  let ?nf = "nat (numFds nh)" and ?ni = "nat (numInts nh)"
  define p b where "p = take (cbuf c) buf" and "b = drop (cbuf c) buf"
  define q f where "q = take (cfds c) fds" and "f = drop (cfds c) fds"
  have buf: "buf = p @ b" "length p = cbuf c" "length b \<ge> 10 + ?ni" using room by (auto simp: p_def b_def)
  have fds: "fds = q @ f" "length q = cfds c" "length f \<ge> ?nf" using room by (auto simp: q_def f_def)
  have ln: "length (flat_words gb nh) = 10 + ?ni"
    using wf(1) by (simp add: flat_words_def wf_handle_def) linarith
  have fl: "flatten gb st buf fds c = flatten_handle gb (Some nh) buf fds c"
    using hd by (simp add: flatten_def deref_def)
  note 1 = flatten_handle_ok [OF wf(1) buf fds told, of gb]
  note 2 = unflatten_ok [OF wf refl buf(2) refl fds(2) told fresh reg, of gb "drop (10 + ?ni) b" "drop ?nf f"]
  have dr: "drop (10 + ?ni) b = drop (cbuf c + 10 + ?ni) buf" by (simp add: b_def add.commute add.left_commute)
  show ?thesis
    by (intro exI conjI, rule trans [OF fl 1], rule 2) (use ln buf(2) dr in \<open>simp_all add: p_def\<close>)
qed

theorem flatten_unflatten_witness:
  "let g = \<lparr>module_api_version = 0, GRALLOC_MODULE_API_VERSION_0_3 = 3, GRALLOC_USAGE_ALLOC_MASK = - 1,
         has_lock_ycbcr = False, has_lockAsync_ycbcr = False, answer = (\<lambda>tr c. 0),
         alloc_out = (\<lambda>tr c. (None, 0)), create_out = (\<lambda>tr. Some 9), bytesPerPixel = (\<lambda>f. 4), fence_out = (\<lambda>tr. -1)\<rparr>;
       nh = \<lparr>numFds = 1, numInts = 2, handle_data = [55, 1, 2]\<rparr>;
       gb = (empty_buffer ownData 77)\<lparr>width := 640, height := 480, stride := 640, handle := Some 5\<rparr>;
       st = \<lparr>sAllocList = (\<lambda>h. None), handles = (\<lambda>h. if h = 5 then Some nh else None), nextId = 0, gtr = []\<rparr>;
       c = \<lparr>cbuf = 1, csize = 60, cfds = 0, ccount = 1\<rparr>
   in \<exists>buf' fds' c' gb2 st2. flatten gb st (replicate 16 0) [0] c = Inr (0, buf', fds', c') \<and>
        unflatten g buf' fds' c (empty_buffer ownData 78, st) = Inr (0, gb2, st2, c') \<and>
        width gb2 = 640 \<and> handles st2 9 = Some nh"
proof -
  let ?g = "\<lparr>module_api_version = 0, GRALLOC_MODULE_API_VERSION_0_3 = 3, GRALLOC_USAGE_ALLOC_MASK = - 1,
         has_lock_ycbcr = False, has_lockAsync_ycbcr = False, answer = (\<lambda>tr c. 0),
         alloc_out = (\<lambda>tr c. (None, 0)), create_out = (\<lambda>tr. Some 9), bytesPerPixel = (\<lambda>f. 4), fence_out = (\<lambda>tr. -1)\<rparr>"
  let ?nh = "\<lparr>numFds = 1, numInts = 2, handle_data = [55, 1, 2]\<rparr>"
  let ?gb = "(empty_buffer ownData 77)\<lparr>width := 640, height := 480, stride := 640, handle := Some 5\<rparr>"
  let ?st = "\<lparr>sAllocList = (\<lambda>h. None), handles = (\<lambda>h. if h = 5 then Some ?nh else None), nextId = 0, gtr = []\<rparr>"
  let ?c = "\<lparr>cbuf = 1, csize = 60, cfds = 0, ccount = 1\<rparr>"
  show ?thesis
    using flatten_unflatten [where nh = ?nh and gb = ?gb and h = 5 and st = ?st and c = ?c and buf = "replicate 16 0"
        and fds = "[0]" and gb' = "empty_buffer ownData 78" and g = ?g and st' = ?st and h' = 9]
    by (simp add: Let_def wf_handle_def empty_buffer_def) blast
qed

text \<open>
  C28. Whatever a parcel holds, unflattening it never reads outside the two regions the caller
  passed, except for a buffer of 32 to 39 bytes that starts with the magic number: the first check
  asks for 8 words only, and the words 8 and 9 are then read past the end.
\<close>

theorem unflatten_reads_outside_iff:
  assumes "length buf = cbuf c + csize c div 4" and "length fds = cfds c + ccount c"
  shows "(\<exists>f. unflatten g buf fds c (gb, st) = Inl f) \<longleftrightarrow>
    32 \<le> csize c \<and> csize c < 40 \<and> buf ! cbuf c = GBFR"
proof (cases "csize c < 32")
  case True
  then show ?thesis by (simp add: unflatten_def)
next
  case False
  then have "csize c div 4 \<ge> 8" by linarith
  with assms(1) have rd0: "read_word buf (cbuf c) = Inr (buf ! cbuf c)" by (simp add: read_word_def)
  show ?thesis
  proof (cases "csize c < 40")
    case True
    then have "csize c div 4 < 10" by linarith
    then have "read_word buf (cbuf c + 9) = Inl OutOfBounds" using assms(1) by (simp add: read_word_def)
    with True False rd0 show ?thesis by (auto simp: unflatten_def split: sum.split)
  next
    case no: False
    then have "csize c div 4 \<ge> 10" by linarith
    then have rd: "read_word buf (cbuf c + 8) = Inr (buf ! (cbuf c + 8))"
      "read_word buf (cbuf c + 9) = Inr (buf ! (cbuf c + 9))" using assms(1) by (simp_all add: read_word_def)
    have body: "unflatten_body g buf fds c nFds nInts s \<noteq> Inl f"
      if "nFds < 4096" "nInts < 4086" "\<not> csize c < (10 + nInts) * 4" "\<not> ccount c < nFds" for nFds nInts s f
    proof -
      have "10 + nInts \<le> csize c div 4" using that(3) by (simp add: less_eq_div_iff_mult_less_eq)
      then show ?thesis using unflatten_body_no_fault that assms by simp
    qed
    show ?thesis using no False rd rd0 body by (auto simp: unflatten_def maxNumber_def Let_def)
  qed
qed

theorem unflatten_reads_outside_iff_witness:
  "\<exists>f. unflatten \<lparr>module_api_version = 0, GRALLOC_MODULE_API_VERSION_0_3 = 3, GRALLOC_USAGE_ALLOC_MASK = - 1,
         has_lock_ycbcr = False, has_lockAsync_ycbcr = False, answer = (\<lambda>tr c. 0),
         alloc_out = (\<lambda>tr c. (None, 0)), create_out = (\<lambda>tr. None), bytesPerPixel = (\<lambda>f. 4), fence_out = (\<lambda>tr. -1)\<rparr>
       (GBFR # replicate 7 0) [] \<lparr>cbuf = 0, csize = 32, cfds = 0, ccount = 0\<rparr>
       (empty_buffer ownData 0, \<lparr>sAllocList = (\<lambda>h. None), handles = (\<lambda>h. None), nextId = 0, gtr = []\<rparr>) = Inl f"
  by (subst unflatten_reads_outside_iff) simp_all

text \<open>
  C29. A buffer allocated by its constructor, reallocated any number of times, with allocations that succeed or
  fail, and destroyed leaves the list of allocations as it was before, if the module frees what it
  is given and stores a handle exactly when an allocation succeeds: every buffer is freed once.
\<close>

theorem buffers_are_freed:
  assumes "good_module g (sAllocList st)"
  shows "sAllocList (destroy g (reallocates g rs (GraphicBuffer_sized g pid w h f u st))) = sAllocList st"
  by (rule destroy_owns [OF assms reallocates_owns [OF assms sized_owns [OF assms refl]]])

theorem buffers_are_freed_witness:
  "let g = \<lparr>module_api_version = 0, GRALLOC_MODULE_API_VERSION_0_3 = 3, GRALLOC_USAGE_ALLOC_MASK = - 1,
         has_lock_ycbcr = False, has_lockAsync_ycbcr = False,
         answer = (\<lambda>tr c. case c of GAlloc w h f u \<Rightarrow> if w > 4000 then -22 else 0 | _ \<Rightarrow> 0),
         alloc_out = (\<lambda>tr c. case c of GAlloc w h f u \<Rightarrow> if w > 4000 then (None, 0) else
           (Some (length tr, \<lparr>numFds = 0, numInts = 1, handle_data = [7]\<rparr>), w) | _ \<Rightarrow> (None, 0)),
         create_out = (\<lambda>tr. None), bytesPerPixel = (\<lambda>f. 4), fence_out = (\<lambda>tr. -1)\<rparr>;
       st = \<lparr>sAllocList = (\<lambda>h. None), handles = (\<lambda>h. None), nextId = 0, gtr = []\<rparr>
   in sAllocList (destroy g (reallocates g [(320, 200, 1, 0), (5000, 1, 1, 0)] (GraphicBuffer_sized g 1 640 480 1 0 st)))
        = (\<lambda>h. None)"
  unfolding Let_def by (subst buffers_are_freed) (simp_all add: good_module_def)

text \<open>
  C30. An asynchronous lock takes its fence over exactly once, by handing it to the module or by
  closing it, on every path of the mapper; a rectangle outside the buffer is refused before that, with
  the fence left to the caller. A lock of the whole buffer is never refused.
\<close>

theorem async_locks_take_the_fence_once:
  assumes "fd \<ge> 0"
  shows "length (filter (takes_fence fd) (gtr (snd (lockAsync_rect g us r fd (gb, st))))) =
      length (filter (takes_fence fd) (gtr st)) + (if outside gb r then 0 else 1) \<and>
    length (filter (takes_fence fd) (gtr (snd (lockAsyncYCbCr_rect g us r fd (gb, st))))) =
      length (filter (takes_fence fd) (gtr st)) + (if outside gb r then 0 else 1) \<and>
    length (filter (takes_fence fd) (gtr (snd (lockAsync g us fd (gb, st))))) =
      length (filter (takes_fence fd) (gtr st)) + 1 \<and>
    length (filter (takes_fence fd) (gtr (snd (lockAsyncYCbCr g us fd (gb, st))))) =
      length (filter (takes_fence fd) (gtr st)) + 1"
  using assms
  by (simp_all add: lockAsync_rect_def lockAsyncYCbCr_rect_def mapper_lockAsync_takes mapper_lockAsyncYCbCr_takes
      lockAsync_def lockAsyncYCbCr_def outside_def lockBounds_def)

theorem async_locks_take_the_fence_once_witness:
  "length (filter (takes_fence 7) (gtr (snd (lockAsync
       \<lparr>module_api_version = 0, GRALLOC_MODULE_API_VERSION_0_3 = 3, GRALLOC_USAGE_ALLOC_MASK = - 1,
         has_lock_ycbcr = False, has_lockAsync_ycbcr = False, answer = (\<lambda>tr c. 0),
         alloc_out = (\<lambda>tr c. (None, 0)), create_out = (\<lambda>tr. None), bytesPerPixel = (\<lambda>f. 4), fence_out = (\<lambda>tr. -1)\<rparr>
       3 7 ((empty_buffer ownData 0)\<lparr>width := 64, height := 64\<rparr>,
            \<lparr>sAllocList = (\<lambda>h. None), handles = (\<lambda>h. None), nextId = 0, gtr = []\<rparr>))))) = 1"
  using async_locks_take_the_fence_once [where fd = 7 and us = 3 and
      g = "\<lparr>module_api_version = 0, GRALLOC_MODULE_API_VERSION_0_3 = 3, GRALLOC_USAGE_ALLOC_MASK = - 1,
         has_lock_ycbcr = False, has_lockAsync_ycbcr = False, answer = (\<lambda>tr c. 0),
         alloc_out = (\<lambda>tr c. (None, 0)), create_out = (\<lambda>tr. None), bytesPerPixel = (\<lambda>f. 4), fence_out = (\<lambda>tr. -1)\<rparr>"
      and gb = "(empty_buffer ownData 0)\<lparr>width := 64, height := 64\<rparr>"
      and st = "\<lparr>sAllocList = (\<lambda>h. None), handles = (\<lambda>h. None), nextId = 0, gtr = []\<rparr>"] by simp

end
