(* ===== verification/HalPublic.thy ===== *)
theory HalPublic
  imports GraphicBuffer
begin

text \<open>
  \<^verbatim>\<open>include/hal/hal_public.h\<close>, the public face of the graphics HAL: the alignment macro with the
  alignments of its users, and the native handle of a buffer as the structure that is placed
  behind a \<open>native_handle_t\<close>, with the counts the header gives for it. The target is 32-bit, so
  \<open>long\<close> has 32 bits and a handle's data are 32-bit words.
\<close>

section \<open>Alignment\<close>

definition ALIGN :: "32 word \<Rightarrow> 32 word \<Rightarrow> 32 word" where
  "ALIGN x a = (x + a - 1) AND NOT (a - 1)"

definition HW_ALIGN :: "32 word" where "HW_ALIGN = 32"
definition CAMERA_ALIGN :: "32 word" where "CAMERA_ALIGN = 64"
definition YV12_ALIGN :: "32 word" where "YV12_ALIGN = 128"

definition align_down :: "nat \<Rightarrow> nat \<Rightarrow> nat" where
  "align_down k n = n div 2 ^ k * 2 ^ k"

lemma and_not_mask_unat: "unat (w AND NOT (mask k)) = align_down k (unat w)" for w :: "32 word"
proof -
  have "w AND NOT (mask k) = push_bit k (drop_bit k w)"
    by (rule bit_eqI) (auto simp: bit_simps)
  moreover have "take_bit 32 (unat w) = unat w"
    using unsigned_less [of w, where 'a = nat] by (simp add: take_bit_nat_eq_self)
  moreover have "unat w div 2 ^ k * 2 ^ k < 2 ^ 32"
    using unsigned_less [of w, where 'a = nat] by (intro le_less_trans [OF div_times_less_eq_dividend]) simp
  ultimately show ?thesis
    by (simp only: unsigned_push_bit_eq unsigned_drop_bit_eq align_down_def push_bit_nat_def drop_bit_nat_def
        take_bit_nat_eq_self) (simp add: take_bit_nat_eq_self)
qed

lemma ALIGN_unat:
  assumes "k < 31" and "unat x + 2 ^ k \<le> 2 ^ 31"
  shows "unat (ALIGN x (2 ^ k)) = align_down k (unat x + 2 ^ k - 1)"
proof -
  have mask: "(2 :: 32 word) ^ k - 1 = mask k" by (simp add: mask_eq_exp_minus_1)
  have "(2::nat) ^ k - 1 < 2 ^ 32"
    using assms(2) by (simp add: less_imp_diff_less)
  then have "unat (word_of_nat (mask k) :: 32 word) = 2 ^ k - 1"
    unfolding unsigned_of_nat mask_eq_exp_minus_1 by (simp add: take_bit_nat_eq_self)
  moreover have "(word_of_nat (mask k) :: 32 word) = mask k" by (rule of_nat_mask_eq)
  moreover have "(1::nat) \<le> 2 ^ k" by simp
  ultimately have "unat (x + mask k) = unat x + 2 ^ k - 1"
    using assms(2) by (simp add: unat_word_ariths)
  then have "unat (x + 2 ^ k - 1) = unat x + 2 ^ k - 1"
    unfolding mask [symmetric] by (simp add: algebra_simps)
  with mask show ?thesis by (simp add: ALIGN_def and_not_mask_unat)
qed

text \<open>The alignments of the header are powers of two.\<close>

lemma alignments:
  "HW_ALIGN = 2 ^ 5" "CAMERA_ALIGN = 2 ^ 6" "YV12_ALIGN = 2 ^ 7"
  by (simp_all add: HW_ALIGN_def CAMERA_ALIGN_def YV12_ALIGN_def)

lemma align_down_ceiling:
  fixes n k :: nat
  defines "r \<equiv> align_down k (n + 2 ^ k - 1)"
  shows "2 ^ k dvd r" and "n \<le> r" and "r < n + 2 ^ k" and "2 ^ k dvd m \<Longrightarrow> n \<le> m \<Longrightarrow> r \<le> m"
proof -
  have r: "r + (n + 2 ^ k - 1) mod 2 ^ k = n + 2 ^ k - 1"
    unfolding r_def align_down_def by (rule div_mult_mod_eq)
  moreover have "(n + 2 ^ k - 1) mod 2 ^ k < 2 ^ k" by simp
  moreover have "(1::nat) \<le> 2 ^ k" by simp
  ultimately show n: "n \<le> r" and lt: "r < n + 2 ^ k" by linarith+
  show d: "2 ^ k dvd r" by (simp add: r_def align_down_def)
  show "r \<le> m" if "2 ^ k dvd m" "n \<le> m"
  proof (rule ccontr)
    assume "\<not> r \<le> m"
    moreover have "2 ^ k dvd r - m" using d that(1) by (rule dvd_diff_nat)
    ultimately have "2 ^ k \<le> r - m" by (intro dvd_imp_le) auto
    then have "m + 2 ^ k \<le> r" using \<open>\<not> r \<le> m\<close> by arith
    with lt that(2) show False by linarith
  qed
qed

section \<open>The native handle\<close>

definition MAX_SUB_ALLOCS :: int where "MAX_SUB_ALLOCS = 3"
definition MAX_SRV_SYNC_OBJS :: int where "MAX_SRV_SYNC_OBJS = 2"
definition IMG_NATIVE_HANDLE_NUMFDS :: int where
  "IMG_NATIVE_HANDLE_NUMFDS = MAX_SRV_SYNC_OBJS + MAX_SUB_ALLOCS"
definition IMG_NATIVE_HANDLE_NUMINTS :: int where
  "IMG_NATIVE_HANDLE_NUMINTS = 8 div 4 + 5"

record img_native_handle =
  img_fd :: "32 word list"
  ui64Stamp :: "64 word"
  img_usage :: "32 word"
  iWidth :: "32 word"
  iHeight :: "32 word"
  iDontKnow :: "32 word"
  iFormat :: "32 word"
  uiBpp :: "32 word"

text \<open>The words behind the base, packed.\<close>

definition img_data :: "img_native_handle \<Rightarrow> 32 word list" where
  "img_data i = img_fd i @ [ucast (ui64Stamp i), ucast (drop_bit 32 (ui64Stamp i)), img_usage i,
     iWidth i, iHeight i, iDontKnow i, iFormat i, uiBpp i]"

definition img_wf :: "img_native_handle \<Rightarrow> bool" where
  "img_wf i \<longleftrightarrow> int (length (img_fd i)) = MAX_SUB_ALLOCS"

lemmas img_defs = IMG_NATIVE_HANDLE_NUMFDS_def IMG_NATIVE_HANDLE_NUMINTS_def MAX_SUB_ALLOCS_def
  MAX_SRV_SYNC_OBJS_def

lemma img_data_length: "img_wf i \<Longrightarrow> int (length (img_data i)) = IMG_NATIVE_HANDLE_NUMFDS + IMG_NATIVE_HANDLE_NUMINTS - 1"
  by (simp add: img_wf_def img_data_def img_defs)

text \<open>The copy of the ints reads past the structure, and that of the descriptors into the stamp.\<close>

lemma img_copy_ints: "img_wf i \<Longrightarrow> memcpy_words buf at (img_data i) 5 7 = Inl OutOfBounds"
  using img_data_length [of i] by (simp add: memcpy_words_def copy_words_def img_defs Let_def)

lemma img_copy_fds:
  assumes "img_wf i"
  shows "copy_words (img_data i) 0 5 = Some (img_fd i @ [ucast (ui64Stamp i), ucast (drop_bit 32 (ui64Stamp i))])"
proof -
  have "length (img_fd i) = 3" using assms by (simp add: img_wf_def MAX_SUB_ALLOCS_def)
  then show ?thesis by (simp add: copy_words_def img_data_def)
qed

section \<open>Properties\<close>

text \<open>
  \<open>ALIGN(x, a)\<close> with a power of two \<open>a\<close>, such as the header's own alignments, is the least
  multiple of \<open>a\<close> that is not below \<open>x\<close>, as long as the sum fits the \<open>long\<close> of the target.
\<close>

theorem ALIGN_rounds_up:
  assumes "k < 31" and "unat x + 2 ^ k \<le> 2 ^ 31"
  shows "2 ^ k dvd unat (ALIGN x (2 ^ k)) \<and> unat x \<le> unat (ALIGN x (2 ^ k))
    \<and> unat (ALIGN x (2 ^ k)) < unat x + 2 ^ k
    \<and> (\<forall>m. 2 ^ k dvd m \<longrightarrow> unat x \<le> m \<longrightarrow> unat (ALIGN x (2 ^ k)) \<le> m)"
  unfolding ALIGN_unat [OF assms] using align_down_ceiling [where k = k and n = "unat x"] by blast

theorem ALIGN_rounds_up_witness:
  "2 ^ 7 dvd unat (ALIGN 720 YV12_ALIGN) \<and> unat (ALIGN 720 YV12_ALIGN) < 720 + 2 ^ 7 \<and> ALIGN 720 YV12_ALIGN = 768"
proof -
  have "ALIGN 720 YV12_ALIGN = 768" by (simp add: ALIGN_def YV12_ALIGN_def)
  with ALIGN_rounds_up [of 7 720] show ?thesis unfolding alignments(3) by simp
qed

text \<open>
  C27. The counts of the header do not fit its structure: a buffer whose handle has the words of an
  \<open>IMG_native_handle_t\<close> behind a base with \<open>IMG_NATIVE_HANDLE_NUMFDS\<close> descriptors and
  \<open>IMG_NATIVE_HANDLE_NUMINTS\<close> ints, as the header declares it, is never flattened. With too little
  room it is refused, as it should be; with room, the copy of the ints reads a word past the handle.
\<close>

theorem img_handle_not_flattened:
  assumes "handle gb = Some h" and "handles st h = Some nh" and "img_wf i" and "handle_data nh = img_data i"
    and "numFds nh = IMG_NATIVE_HANDLE_NUMFDS" and "numInts nh = IMG_NATIVE_HANDLE_NUMINTS"
  shows "flatten gb st buf fds c =
    (if csize c < 68 \<or> ccount c < 5 then Inr (- ENOMEM, buf, fds, c) else Inl OutOfBounds)"
proof -
  have counts: "numFds nh = 5" "numInts nh = 7" "handle_data nh = img_data i"
    using assms(4-6) by (simp_all add: img_defs)
  then have size: "getFlattenedSize (Some nh) = 68" "getFdCount (Some nh) = 5"
    by (simp_all add: getFlattenedSize_def getFdCount_def)
  show ?thesis
    using img_copy_ints [OF assms(3)]
    by (auto simp: flatten_def assms(1,2) deref_def flatten_handle_def size counts Let_def memcpy_words_def
        split: option.split)
qed

theorem img_handle_not_flattened_witness:
  "flatten (empty_buffer ownHandle 0\<lparr>handle := Some 1\<rparr>)
     \<lparr>sAllocList = Map.empty, handles = [1 \<mapsto> \<lparr>numFds = 5, numInts = 7, handle_data = [10, 11, 12, 7, 0, 0, 640, 480, 0, 1, 32]\<rparr>],
        nextId = 0, gtr = []\<rparr>
     (replicate 17 0) (replicate 5 0) \<lparr>cbuf = 0, csize = 68, cfds = 0, ccount = 5\<rparr> = Inl OutOfBounds"
  by (subst img_handle_not_flattened [where h = 1 and
        nh = "\<lparr>numFds = 5, numInts = 7, handle_data = [10, 11, 12, 7, 0, 0, 640, 480, 0, 1, 32]\<rparr>" and i = "\<lparr>img_fd = [10, 11, 12], ui64Stamp = 7, img_usage = 0,
        iWidth = 640, iHeight = 480, iDontKnow = 0, iFormat = 1, uiBpp = 32\<rparr>"])
    (simp_all add: img_wf_def img_data_def img_defs)

end
