(* ===== verification/CameraWrapper.thy ===== *)
theory CameraWrapper
  imports CStrings
begin

text \<open>
  \<^verbatim>\<open>camera/CameraWrapper.cpp\<close>: the wrapper of the vendor camera module. The vendor module, the loader,
  the allocator and the parameter parser are parameters (\<open>vendor_env\<close>); the calls made to the vendor are
  recorded. The heap blocks of the wrapper are kept, so that a second \<open>free\<close> of a block and the use of a
  freed one are faults. Every operation runs under the lock of the module or of its caller.
\<close>

section \<open>The vendor module and the heap\<close>

datatype vcall =
    Dlopen | HwGetModule | VendorOpen string | VendorClose | GetCameraInfo int
  | SetPreviewWindow int | SetCallbacks int int int int int
  | EnableMsgType int | DisableMsgType int | MsgTypeEnabled int
  | StartPreview | StopPreview | PreviewEnabled | StoreMetaData int
  | StartRecording | StopRecording | RecordingEnabled | ReleaseRecordingFrame int
  | AutoFocus | CancelAutoFocus | TakePicture | CancelPicture
  | SetParameters "string option" | GetParameters | PutParameters string
  | SendCommand int int int | Release | Dump int

text \<open>A call with the vendor device it is made on, if it is made on one.\<close>

type_synonym vtrace = "(nat option \<times> vcall) list"

text \<open>
  \<open>answer\<close> gives the \<open>int\<close> a call returns, for \<open>Dlopen\<close> a non-zero value when the library is loaded;
  \<open>num_cameras\<close> is fixed, as the camera HAL asks; \<open>malloc_ok i\<close> tells if the \<open>i\<close>-th allocation succeeds;
  \<open>reflatten\<close> is \<open>CameraParameters::unflatten\<close> followed by \<open>flatten\<close>.
\<close>

record vendor_env =
  answer :: "vtrace \<Rightarrow> nat option \<times> vcall \<Rightarrow> int"
  vendor_device :: "vtrace \<Rightarrow> nat"
  vendor_params :: "vtrace \<Rightarrow> string option"
  num_cameras :: int
  malloc_ok :: "nat \<Rightarrow> bool"
  reflatten :: "string \<Rightarrow> string"

datatype block =
    Ptrs "nat option list"
  | Str string
  | Ops
  | Device (device_id: int) (device_vendor: nat) (device_ops: nat)

record cam_state =
  gVendorModule :: bool
  gCameraShim :: bool
  fixed_set_params :: "nat option"
  blocks :: "nat \<Rightarrow> block option"
  next_block :: nat
  vtr :: vtrace

definition initial_cam :: cam_state where
  "initial_cam = \<lparr>gVendorModule = False, gCameraShim = False, fixed_set_params = None,
     blocks = (\<lambda>p. None), next_block = 0, vtr = []\<rparr>"

definition vendor :: "vendor_env \<Rightarrow> nat option \<Rightarrow> vcall \<Rightarrow> cam_state \<Rightarrow> int \<times> cam_state" where
  "vendor e d c st = (answer e (vtr st) (d, c), st\<lparr>vtr := vtr st @ [(d, c)]\<rparr>)"

definition cmalloc :: "vendor_env \<Rightarrow> block \<Rightarrow> cam_state \<Rightarrow> nat option \<times> cam_state" where
  "cmalloc e b st =
     (let p = next_block st; st = st\<lparr>next_block := p + 1\<rparr>
      in if malloc_ok e p then (Some p, st\<lparr>blocks := (blocks st)(p \<mapsto> b)\<rparr>) else (None, st))"

definition cfree :: "nat \<Rightarrow> cam_state \<Rightarrow> fault + cam_state" where
  "cfree p st = (case blocks st p of None \<Rightarrow> Inl BadFree | Some b \<Rightarrow> Inr (st\<lparr>blocks := (blocks st)(p := None)\<rparr>))"

definition cfree_opt :: "nat option \<Rightarrow> cam_state \<Rightarrow> fault + cam_state" where
  "cfree_opt p st = (case p of None \<Rightarrow> Inr st | Some p \<Rightarrow> cfree p st)"

definition atoi :: "string \<Rightarrow> int" where
  "atoi s = fst (strtol INT_MAX s)"

section \<open>The module\<close>

definition check_vendor_module :: "vendor_env \<Rightarrow> cam_state \<Rightarrow> int \<times> cam_state" where
  "check_vendor_module e st =
     (if gVendorModule st then (0, st)
      else
        let (shim, st) = (if gCameraShim st then (True, st)
              else let (r, st) = vendor e None Dlopen st in (r \<noteq> 0, st\<lparr>gCameraShim := (r \<noteq> 0)\<rparr>))
        in if \<not> shim then (- EINVAL, st)
           else let (rv, st) = vendor e None HwGetModule st
                in (rv, st\<lparr>gVendorModule := (rv = 0)\<rparr>))"

definition camera_get_number_of_cameras :: "vendor_env \<Rightarrow> cam_state \<Rightarrow> int \<times> cam_state" where
  "camera_get_number_of_cameras e st =
     (let (rv, st) = check_vendor_module e st in if rv \<noteq> 0 then (0, st) else (num_cameras e, st))"

definition camera_get_camera_info :: "vendor_env \<Rightarrow> int \<Rightarrow> cam_state \<Rightarrow> int \<times> cam_state" where
  "camera_get_camera_info e camera_id st =
     (let (rv, st) = check_vendor_module e st
      in if rv \<noteq> 0 then (0, st) else vendor e None (GetCameraInfo camera_id) st)"

section \<open>The operations that are passed on\<close>

text \<open>\<open>VENDOR_CALL\<close>: through the device, which must be live; \<open>nullres\<close> is what a null device gives.\<close>

definition read_device :: "nat option \<Rightarrow> cam_state \<Rightarrow> fault + int \<times> nat \<times> nat" where
  "read_device device st =
     (case device of
        None \<Rightarrow> Inl NullDeref
      | Some d \<Rightarrow> (case blocks st d of Some (Device cid v ops) \<Rightarrow> Inr (cid, v, ops) | _ \<Rightarrow> Inl OutOfBounds))"

definition VENDOR_CALL :: "vendor_env \<Rightarrow> nat option \<Rightarrow> vcall \<Rightarrow> cam_state \<Rightarrow> fault + int \<times> cam_state" where
  "VENDOR_CALL e device c st =
     (case read_device device st of Inl f \<Rightarrow> Inl f | Inr (cid, v, ops) \<Rightarrow> Inr (vendor e (Some v) c st))"

definition pass_on :: "int \<Rightarrow> vcall \<Rightarrow> vendor_env \<Rightarrow> nat option \<Rightarrow> cam_state \<Rightarrow> fault + int \<times> cam_state" where
  "pass_on nullres c e device st = (if device = None then Inr (nullres, st) else VENDOR_CALL e device c st)"

text \<open>A \<open>void\<close> operation gives 0.\<close>

definition pass_void :: "vcall \<Rightarrow> vendor_env \<Rightarrow> nat option \<Rightarrow> cam_state \<Rightarrow> fault + int \<times> cam_state" where
  "pass_void c e device st =
     (case pass_on 0 c e device st of Inl f \<Rightarrow> Inl f | Inr (r, st) \<Rightarrow> Inr (0, st))"

definition camera_set_preview_window where
  "camera_set_preview_window e device window = pass_on (- EINVAL) (SetPreviewWindow window) e device"

definition camera_set_callbacks where
  "camera_set_callbacks e device notify_cb data_cb data_cb_timestamp get_memory user =
     pass_void (SetCallbacks notify_cb data_cb data_cb_timestamp get_memory user) e device"

definition camera_enable_msg_type where
  "camera_enable_msg_type e device msg_type = pass_void (EnableMsgType msg_type) e device"

definition camera_disable_msg_type where
  "camera_disable_msg_type e device msg_type = pass_void (DisableMsgType msg_type) e device"

definition camera_msg_type_enabled where
  "camera_msg_type_enabled e device msg_type = pass_on 0 (MsgTypeEnabled msg_type) e device"

definition camera_start_preview where
  "camera_start_preview e device = pass_on (- EINVAL) StartPreview e device"

definition camera_stop_preview where
  "camera_stop_preview e device = pass_void StopPreview e device"

definition camera_preview_enabled where
  "camera_preview_enabled e device = pass_on (- EINVAL) PreviewEnabled e device"

definition camera_store_meta_data_in_buffers where
  "camera_store_meta_data_in_buffers e device enable = pass_on (- EINVAL) (StoreMetaData enable) e device"

text \<open>The one operation whose null result is positive.\<close>

definition camera_start_recording where
  "camera_start_recording e device = pass_on EINVAL StartRecording e device"

definition camera_stop_recording where
  "camera_stop_recording e device = pass_void StopRecording e device"

definition camera_recording_enabled where
  "camera_recording_enabled e device = pass_on (- EINVAL) RecordingEnabled e device"

definition camera_release_recording_frame where
  "camera_release_recording_frame e device opaque = pass_void (ReleaseRecordingFrame opaque) e device"

definition camera_auto_focus where
  "camera_auto_focus e device = pass_on (- EINVAL) AutoFocus e device"

definition camera_cancel_auto_focus where
  "camera_cancel_auto_focus e device = pass_on (- EINVAL) CancelAutoFocus e device"

definition camera_take_picture where
  "camera_take_picture e device = pass_on (- EINVAL) TakePicture e device"

definition camera_cancel_picture where
  "camera_cancel_picture e device = pass_on (- EINVAL) CancelPicture e device"

definition camera_send_command where
  "camera_send_command e device cmd arg1 arg2 = pass_on (- EINVAL) (SendCommand cmd arg1 arg2) e device"

definition camera_release where
  "camera_release e device = pass_void Release e device"

definition camera_dump where
  "camera_dump e device fd = pass_on (- EINVAL) (Dump fd) e device"

section \<open>Parameters\<close>

definition strdup :: "vendor_env \<Rightarrow> string \<Rightarrow> cam_state \<Rightarrow> nat option \<times> cam_state" where
  "strdup e s st = cmalloc e (Str s) st"

text \<open>The array of parameter strings that the module points to.\<close>

definition read_fixed :: "cam_state \<Rightarrow> fault + nat \<times> nat option list" where
  "read_fixed st =
     (case fixed_set_params st of
        None \<Rightarrow> Inl NullDeref
      | Some a \<Rightarrow> (case blocks st a of Some (Ptrs ps) \<Rightarrow> Inr (a, ps) | _ \<Rightarrow> Inl OutOfBounds))"

definition fixed_entry :: "int \<Rightarrow> cam_state \<Rightarrow> fault + nat option" where
  "fixed_entry i st =
     (case read_fixed st of
        Inl f \<Rightarrow> Inl f
      | Inr (a, ps) \<Rightarrow> if 0 \<le> i \<and> nat i < length ps then Inr (ps ! nat i) else Inl OutOfBounds)"

definition set_fixed_entry :: "int \<Rightarrow> nat option \<Rightarrow> cam_state \<Rightarrow> fault + cam_state" where
  "set_fixed_entry i p st =
     (case read_fixed st of
        Inl f \<Rightarrow> Inl f
      | Inr (a, ps) \<Rightarrow>
          if 0 \<le> i \<and> nat i < length ps then Inr (st\<lparr>blocks := (blocks st)(a \<mapsto> Ptrs (ps[nat i := p]))\<rparr>)
          else Inl OutOfBounds)"

definition camera_fixup_setparams ::
    "vendor_env \<Rightarrow> nat option \<Rightarrow> string \<Rightarrow> cam_state \<Rightarrow> fault + nat option \<times> cam_state" where
  "camera_fixup_setparams e device settings st =
     (case read_device device st of
        Inl f \<Rightarrow> Inl f
      | Inr (cid, v, ops) \<Rightarrow>
          (let strParams = reflatten e settings
           in case fixed_entry cid st of
                Inl f \<Rightarrow> Inl f
              | Inr old \<Rightarrow>
                  (case cfree_opt old st of
                     Inl f \<Rightarrow> Inl f
                   | Inr st \<Rightarrow>
                       (let (p, st) = strdup e strParams st
                        in case set_fixed_entry cid p st of Inl f \<Rightarrow> Inl f | Inr st \<Rightarrow> Inr (p, st)))))"

text \<open>The string at a block, for the calls that take a \<open>char *\<close>.\<close>

definition string_at :: "nat option \<Rightarrow> cam_state \<Rightarrow> string option" where
  "string_at p st =
     (case p of None \<Rightarrow> None | Some p \<Rightarrow> (case blocks st p of Some (Str s) \<Rightarrow> Some s | _ \<Rightarrow> None))"

definition camera_set_parameters ::
    "vendor_env \<Rightarrow> nat option \<Rightarrow> string \<Rightarrow> cam_state \<Rightarrow> fault + int \<times> cam_state" where
  "camera_set_parameters e device params st =
     (if device = None then Inr (- EINVAL, st)
      else case camera_fixup_setparams e device params st of
             Inl f \<Rightarrow> Inl f
           | Inr (tmp, st) \<Rightarrow> VENDOR_CALL e device (SetParameters (string_at tmp st)) st)"

definition camera_fixup_getparams :: "vendor_env \<Rightarrow> string \<Rightarrow> cam_state \<Rightarrow> nat option \<times> cam_state" where
  "camera_fixup_getparams e settings st = strdup e (reflatten e settings) st"

text \<open>The vendor's string is read by the wrapper, so a null one is a fault.\<close>

definition camera_get_parameters ::
    "vendor_env \<Rightarrow> nat option \<Rightarrow> cam_state \<Rightarrow> fault + nat option \<times> cam_state" where
  "camera_get_parameters e device st =
     (if device = None then Inr (None, st)
      else case VENDOR_CALL e device GetParameters st of
             Inl f \<Rightarrow> Inl f
           | Inr (r, st1) \<Rightarrow>
               (case vendor_params e (vtr st) of
                  None \<Rightarrow> Inl NullDeref
                | Some params \<Rightarrow>
                    (let (tmp, st2) = camera_fixup_getparams e params st1
                     in case VENDOR_CALL e device (PutParameters params) st2 of
                          Inl f \<Rightarrow> Inl f | Inr (r, st3) \<Rightarrow> Inr (tmp, st3))))"

definition camera_put_parameters :: "nat option \<Rightarrow> nat option \<Rightarrow> cam_state \<Rightarrow> fault + cam_state" where
  "camera_put_parameters device params st =
     (case read_device device st of Inl f \<Rightarrow> Inl f | Inr d \<Rightarrow> cfree_opt params st)"

section \<open>Opening and closing\<close>

lemma number_le: "fst (camera_get_number_of_cameras e st) \<le> max 0 (num_cameras e)"
  by (auto simp: camera_get_number_of_cameras_def split: prod.split)

function free_params :: "vendor_env \<Rightarrow> int \<Rightarrow> cam_state \<Rightarrow> fault + cam_state" where
  "free_params e i st =
     (let (n, st) = camera_get_number_of_cameras e st
      in if i < n
         then (case fixed_entry i st of
                 Inl f \<Rightarrow> Inl f
               | Inr p \<Rightarrow> (case cfree_opt p st of Inl f \<Rightarrow> Inl f | Inr st \<Rightarrow> free_params e (i + 1) st))
         else Inr st)"
  by pat_completeness auto

termination
proof (relation "measure (\<lambda>(e, i, st). nat (max 0 (num_cameras e) - i))", goal_cases)
  case (2 e i st x n st1 p st2)
  then have "n = fst (camera_get_number_of_cameras e st)" by (metis fst_conv)
  then have "i < max 0 (num_cameras e)" using 2 number_le [of e st] by linarith
  then show ?case by simp
qed simp

declare free_params.simps [simp del]

definition camera_device_close :: "vendor_env \<Rightarrow> nat option \<Rightarrow> cam_state \<Rightarrow> fault + int \<times> cam_state" where
  "camera_device_close e device st =
     (case device of
        None \<Rightarrow> Inr (- EINVAL, st)
      | Some d \<Rightarrow>
          (case free_params e 0 st of
             Inl f \<Rightarrow> Inl f
           | Inr st \<Rightarrow>
               (case read_device device st of
                  Inl f \<Rightarrow> Inl f
                | Inr (cid, v, ops) \<Rightarrow>
                    (let st = snd (vendor e (Some v) VendorClose st)
                     in case cfree ops st of
                          Inl f \<Rightarrow> Inl f
                        | Inr st \<Rightarrow> (case cfree d st of Inl f \<Rightarrow> Inl f | Inr st \<Rightarrow> Inr (0, st))))))"

text \<open>
  The result, and what is stored through \<open>device\<close>, if anything is. The wrapper device is a block
  from its allocation on; it is filled when its operation table is.
\<close>

definition camera_device_open ::
    "vendor_env \<Rightarrow> string option \<Rightarrow> cam_state \<Rightarrow> int \<times> nat option option \<times> cam_state" where
  "camera_device_open e name st =
     (case name of
        None \<Rightarrow> (0, None, st)
      | Some name \<Rightarrow>
          let (rv, st) = check_vendor_module e st
          in if rv \<noteq> 0 then (- EINVAL, None, st)
             else
               let cameraid = atoi name; num = num_cameras e
               in if cameraid < 0 \<or> cameraid \<ge> num then (- EINVAL, Some None, st)
                  else
                    let (arr, st) = cmalloc e (Ptrs (replicate (nat num) None)) st;
                        st = st\<lparr>fixed_set_params := arr\<rparr>
                    in if arr = None then (- ENOMEM, Some None, st)
                       else
                         let (dev, st) = cmalloc e (Device cameraid 0 0) st
                         in case dev of
                              None \<Rightarrow> (- ENOMEM, Some None, st)
                            | Some d \<Rightarrow>
                                let v = vendor_device e (vtr st); (rv, st) = vendor e None (VendorOpen name) st;
                                    freed = (\<lambda>st. st\<lparr>blocks := (blocks st)(d := None)\<rparr>)
                                in if rv \<noteq> 0 then (rv, Some None, freed st)
                                   else
                                     let (ops, st) = cmalloc e Ops st
                                     in case ops of
                                          None \<Rightarrow> (- ENOMEM, Some None, freed st)
                                        | Some o' \<Rightarrow>
                                            (rv, Some (Some d),
                                             st\<lparr>blocks := (blocks st)(d \<mapsto> Device cameraid v o')\<rparr>))"

text \<open>
  The operation table of an open camera, but for the parameters: one entry per operation. What is no
  operation does nothing.
\<close>

definition camera_ops :: "vendor_env \<Rightarrow> nat option \<Rightarrow> vcall \<Rightarrow> cam_state \<Rightarrow> fault + int \<times> cam_state" where
  "camera_ops e device c =
     (case c of
        SetPreviewWindow w \<Rightarrow> camera_set_preview_window e device w
      | SetCallbacks n d t g u \<Rightarrow> camera_set_callbacks e device n d t g u
      | EnableMsgType m \<Rightarrow> camera_enable_msg_type e device m
      | DisableMsgType m \<Rightarrow> camera_disable_msg_type e device m
      | MsgTypeEnabled m \<Rightarrow> camera_msg_type_enabled e device m
      | StartPreview \<Rightarrow> camera_start_preview e device
      | StopPreview \<Rightarrow> camera_stop_preview e device
      | PreviewEnabled \<Rightarrow> camera_preview_enabled e device
      | StoreMetaData b \<Rightarrow> camera_store_meta_data_in_buffers e device b
      | StartRecording \<Rightarrow> camera_start_recording e device
      | StopRecording \<Rightarrow> camera_stop_recording e device
      | RecordingEnabled \<Rightarrow> camera_recording_enabled e device
      | ReleaseRecordingFrame p \<Rightarrow> camera_release_recording_frame e device p
      | AutoFocus \<Rightarrow> camera_auto_focus e device
      | CancelAutoFocus \<Rightarrow> camera_cancel_auto_focus e device
      | TakePicture \<Rightarrow> camera_take_picture e device
      | CancelPicture \<Rightarrow> camera_cancel_picture e device
      | SendCommand cmd a b \<Rightarrow> camera_send_command e device cmd a b
      | Release \<Rightarrow> camera_release e device
      | Dump fd \<Rightarrow> camera_dump e device fd
      | _ \<Rightarrow> (\<lambda>st. Inr (0, st)))"

lemmas camera_op_defs = camera_set_preview_window_def camera_set_callbacks_def camera_enable_msg_type_def
  camera_disable_msg_type_def camera_msg_type_enabled_def camera_start_preview_def camera_stop_preview_def
  camera_preview_enabled_def camera_store_meta_data_in_buffers_def camera_start_recording_def
  camera_stop_recording_def camera_recording_enabled_def camera_release_recording_frame_def
  camera_auto_focus_def camera_cancel_auto_focus_def camera_take_picture_def camera_cancel_picture_def
  camera_send_command_def camera_release_def camera_dump_def

section \<open>A client of the module\<close>

text \<open>
  The camera service: it keeps at most one camera open, calls the operations on the open camera, and
  hands back each parameter string that it got at most once. A command that the service would
  not give in its state is skipped. The state is the open device and the strings not handed back.
\<close>

datatype cam_cmd =
    COpen string
  | CCall vcall
  | CSetParameters string
  | CGetParameters
  | CPutParameters nat
  | CClose

type_synonym client = "nat option \<times> nat list \<times> cam_state"

definition client_step :: "vendor_env \<Rightarrow> cam_cmd \<Rightarrow> client \<Rightarrow> fault + client" where
  "client_step e cmd = (\<lambda>(dev, handed, st).
     case cmd of
       COpen name \<Rightarrow>
         (if dev \<noteq> None then Inr (dev, handed, st)
          else case camera_device_open e (Some name) st of
            (rv, out, st) \<Rightarrow> Inr (if rv = 0 then (case out of None \<Rightarrow> None | Some d \<Rightarrow> d) else None, handed, st))
     | CCall c \<Rightarrow>
         (case camera_ops e dev c st of Inl f \<Rightarrow> Inl f | Inr (r, st) \<Rightarrow> Inr (dev, handed, st))
     | CSetParameters s \<Rightarrow>
         (case camera_set_parameters e dev s st of Inl f \<Rightarrow> Inl f | Inr (r, st) \<Rightarrow> Inr (dev, handed, st))
     | CGetParameters \<Rightarrow>
         (case camera_get_parameters e dev st of
            Inl f \<Rightarrow> Inl f
          | Inr (p, st) \<Rightarrow> Inr (dev, case p of None \<Rightarrow> handed | Some p \<Rightarrow> p # handed, st))
     | CPutParameters p \<Rightarrow>
         (if dev = None \<or> p \<notin> set handed then Inr (dev, handed, st)
          else case camera_put_parameters dev (Some p) st of
            Inl f \<Rightarrow> Inl f | Inr st \<Rightarrow> Inr (dev, remove1 p handed, st))
     | CClose \<Rightarrow>
         (if dev = None then Inr (dev, handed, st)
          else case camera_device_close e dev st of
            Inl f \<Rightarrow> Inl f | Inr (r, st) \<Rightarrow> Inr (None, handed, st)))"

fun client_run :: "vendor_env \<Rightarrow> cam_cmd list \<Rightarrow> client \<Rightarrow> fault + client" where
  "client_run e [] c = Inr c"
| "client_run e (cmd # cmds) c = (case client_step e cmd c of Inl f \<Rightarrow> Inl f | Inr c \<Rightarrow> client_run e cmds c)"

section \<open>The parameter strings\<close>

lemma vendor_simps [simp]:
  "blocks (snd (vendor e d c st)) = blocks st" "next_block (snd (vendor e d c st)) = next_block st"
  "fixed_set_params (snd (vendor e d c st)) = fixed_set_params st"
  "gVendorModule (snd (vendor e d c st)) = gVendorModule st"
  by (simp_all add: vendor_def)

definition no_share :: "nat option list \<Rightarrow> bool" where
  "no_share ps \<longleftrightarrow> (\<forall>j k. j < k \<and> k < length ps \<and> ps ! j = ps ! k \<longrightarrow> ps ! j = None)"

lemma no_share_update:
  "no_share ps \<Longrightarrow> x = None \<or> x \<notin> set ps \<Longrightarrow> no_share (ps[i := x])"
  unfolding no_share_def
proof (intro allI impI, elim conjE)
  fix j k
  assume a: "\<forall>j k. j < k \<and> k < length ps \<and> ps ! j = ps ! k \<longrightarrow> ps ! j = None" and x: "x = None \<or> x \<notin> set ps"
    and jk: "j < k" "k < length (ps[i := x])" "ps[i := x] ! j = ps[i := x] ! k"
  have "ps ! j \<in> set ps" "ps ! k \<in> set ps" using jk by simp_all
  then show "ps[i := x] ! j = None"
    using a x jk by (cases "j = i"; cases "k = i") auto
qed

lemma no_share_drop:
  assumes "no_share ps" and "ps ! i = Some p" and "i < length ps"
  shows "Some p \<notin> set (drop (Suc i) ps)"
proof
  assume "Some p \<in> set (drop (Suc i) ps)"
  then obtain k where k: "k < length ps - Suc i" "ps ! (Suc i + k) = Some p"
    by (metis in_set_conv_nth length_drop less_diff_conv nth_drop add.commute less_imp_le_nat Suc_leI assms(3))
  then have "i < Suc i + k" "Suc i + k < length ps" by linarith+
  then show False using assms k(2) unfolding no_share_def by (metis option.distinct(1))
qed

lemma free_params_ok:
  assumes "gVendorModule st" "fixed_set_params st = Some a" "blocks st a = Some (Ptrs ps)"
    and "int (length ps) = num_cameras e" "i \<le> length ps"
    and "no_share ps"
    and "\<And>p. Some p \<in> set (drop i ps) \<Longrightarrow> \<exists>s. blocks st p = Some (Str s)"
  shows "free_params e (int i) st =
    Inr (st\<lparr>blocks := (\<lambda>p. if Some p \<in> set (drop i ps) then None else blocks st p)\<rparr>)"
  using assms
proof (induction "length ps - i" arbitrary: i st)
  case 0
  then show ?case
    by (subst free_params.simps) (simp add: camera_get_number_of_cameras_def check_vendor_module_def)
next
  case (Suc k)
  from Suc.hyps(2) have i: "i < length ps" by linarith
  have dr: "drop i ps = ps ! i # drop (Suc i) ps" using i by (simp add: Cons_nth_drop_Suc)
  have en: "fixed_entry (int i) st = Inr (ps ! i)"
    using Suc.prems i by (simp add: fixed_entry_def read_fixed_def)
  have suc: "int i + 1 = int (Suc i)" by simp
  have "free_params e (int i) st =
      (case cfree_opt (ps ! i) st of Inl f \<Rightarrow> Inl f | Inr st \<Rightarrow> free_params e (int i + 1) st)"
    using Suc.prems i en
    by (subst free_params.simps) (simp add: camera_get_number_of_cameras_def check_vendor_module_def)
  note unf = this [unfolded suc]
  show ?case
  proof (cases "ps ! i")
    case None
    have "free_params e (int (Suc i)) st =
        Inr (st\<lparr>blocks := (\<lambda>p. if Some p \<in> set (drop (Suc i) ps) then None else blocks st p)\<rparr>)"
      by (rule Suc.hyps(1)) (use Suc.hyps(2) Suc.prems i dr None in auto)
    then show ?thesis using unf None dr by (simp add: cfree_opt_def)
  next
    case (Some p)
    then obtain s where p: "blocks st p = Some (Str s)" using Suc.prems(7) [of p] dr by auto
    let ?st = "st\<lparr>blocks := (blocks st)(p := None)\<rparr>"
    have "p \<noteq> a" using p Suc.prems(3) by auto
    moreover have np: "Some p \<notin> set (drop (Suc i) ps)"
      using no_share_drop [OF Suc.prems(6) Some i] .
    ultimately have "free_params e (int (Suc i)) ?st =
        Inr (?st\<lparr>blocks := (\<lambda>x. if Some x \<in> set (drop (Suc i) ps) then None else blocks ?st x)\<rparr>)"
      by (intro Suc.hyps(1)) (use Suc.hyps(2) Suc.prems i dr Some in auto)
    moreover have "(\<lambda>x. if Some x \<in> set (drop (Suc i) ps) then None else blocks ?st x) =
        (\<lambda>x. if Some x \<in> set (drop i ps) then None else blocks st x)"
      using dr Some by auto
    ultimately show ?thesis using unf Some p by (simp add: cfree_opt_def cfree_def)
  qed
qed

text \<open>
  What the wrapper keeps of its heap: with a camera open, the device, its table and the array are live, and the
  strings of the array and those handed out are live and all different; no other string or device is.
\<close>

definition strings_ok :: "nat option list \<Rightarrow> nat list \<Rightarrow> cam_state \<Rightarrow> bool" where
  "strings_ok ps handed st \<longleftrightarrow>
     no_share ps \<and> distinct handed \<and> (\<forall>p \<in> set handed. Some p \<notin> set ps) \<and>
     (\<forall>p. Some p \<in> set ps \<or> p \<in> set handed \<longrightarrow> (\<exists>s. blocks st p = Some (Str s))) \<and>
     (\<forall>p b. blocks st p = Some b \<longrightarrow> p < next_block st)"

definition only_live :: "nat set \<Rightarrow> cam_state \<Rightarrow> bool" where
  "only_live ps st \<longleftrightarrow> (\<forall>p b. blocks st p = Some b \<longrightarrow> (\<exists>xs. b = Ptrs xs) \<or> p \<in> ps)"

fun cam_inv :: "vendor_env \<Rightarrow> client \<Rightarrow> bool" where
  "cam_inv e (None, handed, st) \<longleftrightarrow> strings_ok [] handed st \<and> only_live (set handed) st"
| "cam_inv e (Some d, handed, st) \<longleftrightarrow> gVendorModule st \<and>
     (\<exists>cid v o' a ps. blocks st d = Some (Device cid v o') \<and> blocks st o' = Some Ops \<and> 0 \<le> cid \<and> cid < num_cameras e \<and>
       fixed_set_params st = Some a \<and> blocks st a = Some (Ptrs ps) \<and> int (length ps) = num_cameras e \<and>
       strings_ok ps handed st \<and> only_live (set handed \<union> {p. Some p \<in> set ps} \<union> {d, o'}) st)"

lemma camera_ops_ok:
  assumes "blocks st d = Some (Device cid v o')"
  shows "\<exists>r tr. camera_ops e (Some d) c st = Inr (r, st\<lparr>vtr := tr\<rparr>)"
proof -
  have p: "\<exists>r tr. pass_on n c e (Some d) st = Inr (r, st\<lparr>vtr := tr\<rparr>)" for n c
    using assms by (auto simp: pass_on_def VENDOR_CALL_def read_device_def vendor_def)
  have v: "\<exists>r tr. pass_void c e (Some d) st = Inr (r, st\<lparr>vtr := tr\<rparr>)" for c
    using p [of 0 c] by (auto simp: pass_void_def)
  have n: "\<exists>tr. st = st\<lparr>vtr := tr\<rparr>"
    by (rule exI [of _ "vtr st"]) simp
  show ?thesis by (cases c) (simp_all add: camera_ops_def camera_op_defs p v n)
qed

lemma camera_ops_null: "\<exists>r. camera_ops e None c st = Inr (r, st)"
  by (cases c) (simp_all add: camera_ops_def camera_op_defs pass_on_def pass_void_def)

lemma strings_ok_vtr [simp]: "strings_ok ps handed (st\<lparr>vtr := tr\<rparr>) = strings_ok ps handed st"
  by (simp add: strings_ok_def)

lemma only_live_vtr [simp]: "only_live A (st\<lparr>vtr := tr\<rparr>) = only_live A st"
  by (simp add: only_live_def)

lemma cam_inv_vtr: "cam_inv e (dev, handed, st) \<Longrightarrow> cam_inv e (dev, handed, st\<lparr>vtr := tr\<rparr>)"
  by (cases dev) auto

lemma strings_ok_fresh: "strings_ok ps handed st \<Longrightarrow> blocks st (next_block st) = None"
  by (metis less_irrefl not_None_eq strings_ok_def)

lemma check_vendor_module_result:
  assumes "check_vendor_module e st = (rv, st')"
  shows "blocks st' = blocks st" "next_block st' = next_block st" "fixed_set_params st' = fixed_set_params st"
    "rv = 0 \<Longrightarrow> gVendorModule st'"
  using assms by (auto simp: check_vendor_module_def vendor_def Let_def EINVAL_def split: if_splits prod.splits)

text \<open>Opening: the blocks it leaves.\<close>

lemma cmalloc_cases:
  assumes "cmalloc e b st = (p, st')"
  obtains (ok) "p = Some (next_block st)"
      "st' = st\<lparr>next_block := next_block st + 1, blocks := (blocks st)(next_block st \<mapsto> b)\<rparr>"
    | (fails) "p = None" "st' = st\<lparr>next_block := next_block st + 1\<rparr>"
  using assms by (auto simp: cmalloc_def Let_def split: if_splits)

text \<open>The two outcomes of opening: failure, with at most an abandoned array left, and an open camera.\<close>

definition open_failed :: "int \<Rightarrow> cam_state \<Rightarrow> cam_state \<Rightarrow> bool" where
  "open_failed rv st st' \<longleftrightarrow> rv \<noteq> 0 \<and> next_block st \<le> next_block st' \<and>
     (blocks st' = blocks st \<or> next_block st < next_block st' \<and>
       (\<exists>ps. blocks st' = (blocks st)(next_block st \<mapsto> Ptrs ps)))"

definition opened_as :: "vendor_env \<Rightarrow> int \<Rightarrow> nat option option \<Rightarrow> cam_state \<Rightarrow> cam_state \<Rightarrow> int \<Rightarrow> nat \<Rightarrow> bool" where
  "opened_as e rv out st st' cid v \<longleftrightarrow> rv = 0 \<and> out = Some (Some (next_block st + 1)) \<and>
     next_block st' = next_block st + 3 \<and> gVendorModule st' \<and>
     0 \<le> cid \<and> cid < num_cameras e \<and> fixed_set_params st' = Some (next_block st) \<and>
     blocks st' = (blocks st)(next_block st \<mapsto> Ptrs (replicate (nat (num_cameras e)) None),
       next_block st + 1 \<mapsto> Device cid v (next_block st + 2), next_block st + 2 \<mapsto> Ops)"

lemma open_runs:
  assumes "check_vendor_module e st = (0, st1)" and "0 \<le> atoi name" and "atoi name < num_cameras e"
    and "cmalloc e (Ptrs (replicate (nat (num_cameras e)) None)) st1 = (arr, st2)"
    and "cmalloc e (Device (atoi name) 0 0) (st2\<lparr>fixed_set_params := arr\<rparr>) = (dev, st3)"
    and "vendor e None (VendorOpen name) st3 = (rv4, st4)" and "cmalloc e Ops st4 = (ops, st5)"
  shows "camera_device_open e (Some name) st =
      (if arr = None then (- ENOMEM, Some None, st2\<lparr>fixed_set_params := arr\<rparr>)
       else case dev of None \<Rightarrow> (- ENOMEM, Some None, st3)
       | Some d \<Rightarrow> if rv4 \<noteq> 0 then (rv4, Some None, st4\<lparr>blocks := (blocks st4)(d := None)\<rparr>)
         else case ops of None \<Rightarrow> (- ENOMEM, Some None, st5\<lparr>blocks := (blocks st5)(d := None)\<rparr>)
         | Some o' \<Rightarrow> (0, Some (Some d), st5\<lparr>blocks := (blocks st5)(d \<mapsto> Device (atoi name) (vendor_device e (vtr st3)) o')\<rparr>))"
  using assms by (simp add: camera_device_open_def Let_def split: option.split)

text \<open>The last part, once the array and the device block are there.\<close>

lemma open_last:
  assumes op: "(rv, out, st') = (if rv4 \<noteq> 0 then (rv4, Some None, st4\<lparr>blocks := (blocks st4)(d := None)\<rparr>)
         else case ops of None \<Rightarrow> (- ENOMEM, Some None, st5\<lparr>blocks := (blocks st5)(d := None)\<rparr>)
         | Some o' \<Rightarrow> (0, Some (Some d), st5\<lparr>blocks := (blocks st5)(d \<mapsto> Device cid v o')\<rparr>))"
    and m3: "cmalloc e Ops st4 = (ops, st5)" and d: "d = next_block st + 1"
    and fresh: "blocks st (next_block st + 1) = None"
    and st4: "blocks st4 = (blocks st)(next_block st \<mapsto> Ptrs (replicate (nat (num_cameras e)) None), d \<mapsto> Device cid 0 0)"
      "next_block st4 = next_block st + 2" "fixed_set_params st4 = Some (next_block st)" "gVendorModule st4"
    and cid: "0 \<le> cid" "cid < num_cameras e"
  shows "open_failed rv st st' \<or> opened_as e rv out st st' cid v"
proof -
  have off: "(blocks st4)(d := None) = (blocks st)(next_block st \<mapsto> Ptrs (replicate (nat (num_cameras e)) None))"
    using fresh by (auto simp: st4 d)
  show ?thesis
  proof (cases "rv4 = 0")
    case False
    then show ?thesis using op off st4(2) by (auto simp: open_failed_def)
  next
    case True
    show ?thesis
      using m3
    proof (cases rule: cmalloc_cases)
      case fails
      then show ?thesis using op off st4(2) True by (auto simp: ENOMEM_def open_failed_def)
    next
      case ok
      then show ?thesis using op d True cid st4 by (auto simp: opened_as_def fun_eq_iff)
    qed
  qed
qed

lemma open_result:
  assumes op: "camera_device_open e (Some name) st = (rv, out, st')"
    and fresh: "\<And>p b. blocks st p = Some b \<Longrightarrow> p < next_block st"
  shows "open_failed rv st st' \<or> (\<exists>cid v. opened_as e rv out st st' cid v)"
proof -
  have none: "blocks st (next_block st + 1) = None"
    using fresh [of "next_block st + 1"] by (cases "blocks st (next_block st + 1)") auto
  obtain rv1 st1 where ck: "check_vendor_module e st = (rv1, st1)" by (cases "check_vendor_module e st")
  note c = check_vendor_module_result [OF ck]
  show ?thesis
  proof (cases "rv1 \<noteq> 0 \<or> atoi name < 0 \<or> num_cameras e \<le> atoi name")
    case True
    then show ?thesis using op ck c by (auto simp: camera_device_open_def EINVAL_def open_failed_def split: if_splits)
  next
    case False
    then have cid: "rv1 = 0" "0 \<le> atoi name" "atoi name < num_cameras e" by auto
    obtain arr st2 where m1: "cmalloc e (Ptrs (replicate (nat (num_cameras e)) None)) st1 = (arr, st2)" by fastforce
    obtain dev st3 where m2: "cmalloc e (Device (atoi name) 0 0) (st2\<lparr>fixed_set_params := arr\<rparr>) = (dev, st3)" by fastforce
    obtain rv4 st4 where v: "vendor e None (VendorOpen name) st3 = (rv4, st4)" by fastforce
    obtain ops st5 where m3: "cmalloc e Ops st4 = (ops, st5)" by fastforce
    note un = open_runs [OF ck [unfolded cid(1)] cid(2,3) m1 m2 v m3]
    show ?thesis
      using m1
    proof (cases rule: cmalloc_cases)
      case fails
      then show ?thesis using op un c by (auto simp: ENOMEM_def open_failed_def)
    next
      case arr: ok
      show ?thesis
        using m2
      proof (cases rule: cmalloc_cases)
        case fails
        then show ?thesis using op un c arr by (auto simp: ENOMEM_def open_failed_def)
      next
        case dev: ok
        have st4: "blocks st4 = blocks st3" "next_block st4 = next_block st3" "fixed_set_params st4 = fixed_set_params st3"
          "gVendorModule st4 = gVendorModule st3"
          using v by (auto simp: vendor_def)
        define d where "d = next_block st + 1"
        have "dev = Some d" using dev(1) arr c by (simp add: d_def)
        then have "(rv, out, st') = (if rv4 \<noteq> 0 then (rv4, Some None, st4\<lparr>blocks := (blocks st4)(d := None)\<rparr>)
            else case ops of None \<Rightarrow> (- ENOMEM, Some None, st5\<lparr>blocks := (blocks st5)(d := None)\<rparr>)
            | Some o' \<Rightarrow> (0, Some (Some d), st5\<lparr>blocks := (blocks st5)(d \<mapsto>
                Device (atoi name) (vendor_device e (vtr st3)) o')\<rparr>))"
          using op un arr(1) by simp
        from open_last [OF this m3 d_def none] show ?thesis using arr dev(2) c cid st4 by (auto simp: d_def)
      qed
    qed
  qed
qed

section \<open>Every operation keeps the invariant\<close>

lemma no_share_gone:
  assumes "no_share ps" "i < length ps" "ps ! i = Some p" "q \<noteq> Some p"
  shows "Some p \<notin> set (ps[i := q])"
proof
  assume "Some p \<in> set (ps[i := q])"
  then obtain j where j: "j < length ps" "ps[i := q] ! j = Some p" by (auto simp: in_set_conv_nth)
  then have "j \<noteq> i" using assms by auto
  then have "ps ! j = Some p" "j < i \<or> i < j" using j by auto
  then show False using assms j unfolding no_share_def by (metis option.distinct(1))
qed

lemma set_update_keep: "x \<in> set ps \<Longrightarrow> ps ! i \<noteq> x \<Longrightarrow> x \<in> set (ps[i := q])"
  by (metis in_set_conv_nth length_list_update nth_list_update_neq)

lemma cam_invE:
  assumes "cam_inv e (Some d, handed, st)"
  obtains cid v o' a ps where "gVendorModule st" "blocks st d = Some (Device cid v o')" "blocks st o' = Some Ops"
    "0 \<le> cid" "cid < num_cameras e" "fixed_set_params st = Some a" "blocks st a = Some (Ptrs ps)"
    "int (length ps) = num_cameras e" "strings_ok ps handed st"
    "only_live (set handed \<union> {p. Some p \<in> set ps} \<union> {d, o'}) st"
  using assms by auto

text \<open>The blocks after the \<open>i\<close>-th string was freed and the string \<open>t\<close>, if allocated, put in its place.\<close>

definition replaced :: "cam_state \<Rightarrow> nat \<Rightarrow> nat option list \<Rightarrow> nat \<Rightarrow> nat option \<Rightarrow> string \<Rightarrow> nat \<Rightarrow> block option" where
  "replaced st i ps a q t p =
     (if p = a then Some (Ptrs (ps[i := q])) else if q = Some p then Some (Str t)
      else if ps ! i = Some p then None else blocks st p)"

lemma strings_ok_replaced:
  assumes ok: "strings_ok ps handed st" and i: "i < length ps" and q: "q = None \<or> q = Some (next_block st)"
    and a: "blocks st a = Some (Ptrs ps)"
  shows "strings_ok (ps[i := q]) handed (st\<lparr>blocks := replaced st i ps a q t, next_block := next_block st + 1\<rparr>)"
proof -
  have str: "Some p \<in> set ps \<or> p \<in> set handed \<Longrightarrow> \<exists>t. blocks st p = Some (Str t)" for p
    using ok by (auto simp: strings_ok_def)
  have lt: "blocks st p = Some b \<Longrightarrow> p < next_block st" for p b using ok by (auto simp: strings_ok_def)
  have fresh: "q = Some p \<Longrightarrow> Some p \<notin> set ps \<and> p \<notin> set handed \<and> p \<noteq> a" for p
    using str [of p] lt [of p] lt [OF a] q by auto
  have old: "ps ! i = Some p \<Longrightarrow> q \<noteq> Some p" for p using fresh i by (metis nth_mem)
  have sub: "Some p \<in> set (ps[i := q]) \<Longrightarrow> Some p = q \<or> Some p \<in> set ps \<and> Some p \<noteq> ps ! i" for p
    using set_update_subset_insert [of ps i q] no_share_gone [of ps i p q] ok i old by (auto simp: strings_ok_def)
  have hi: "p \<in> set handed \<Longrightarrow> Some p \<noteq> ps ! i" for p using ok i nth_mem [of i ps] unfolding strings_ok_def by metis
  have new: "\<exists>s. replaced st i ps a q t p = Some (Str s)" if "Some p \<in> set (ps[i := q]) \<or> p \<in> set handed" for p
  proof (cases "q = Some p")
    case True
    then show ?thesis using fresh by (simp add: replaced_def)
  next
    case False
    with that sub hi have "Some p \<noteq> ps ! i" "Some p \<in> set ps \<or> p \<in> set handed" by blast+
    moreover from str [OF this(2)] a have "p \<noteq> a" by auto
    ultimately show ?thesis using str False by (auto simp: replaced_def)
  qed
  have hand: "p \<in> set handed \<Longrightarrow> Some p \<notin> set (ps[i := q])" for p
    using sub [of p] fresh [of p] ok by (auto simp: strings_ok_def)
  have bound: "replaced st i ps a q t p = Some b \<Longrightarrow> p < next_block st + 1" for p b
    using lt [of p] lt [OF a] q by (auto simp: replaced_def less_Suc_eq split: if_splits)
  have "q = None \<or> q \<notin> set ps" using fresh by (cases q) auto
  then show ?thesis
    using ok hand new bound no_share_update by (simp add: strings_ok_def)
qed

lemma only_live_replaced:
  assumes live: "only_live (A \<union> {p. Some p \<in> set ps} \<union> B) st" and i: "i < length ps"
  shows "only_live (A \<union> {p. Some p \<in> set (ps[i := q])} \<union> B) (st\<lparr>blocks := replaced st i ps a q t, next_block := n\<rparr>)"
  unfolding only_live_def
proof (intro allI impI)
  fix p b
  assume p: "blocks (st\<lparr>blocks := replaced st i ps a q t, next_block := n\<rparr>) p = Some b"
  show "(\<exists>xs. b = Ptrs xs) \<or> p \<in> A \<union> {p. Some p \<in> set (ps[i := q])} \<union> B"
  proof (cases "p = a \<or> q = Some p")
    case True
    then show ?thesis using p i set_update_memI [of i ps q] by (auto simp: replaced_def split: if_splits)
  next
    case False
    then have "blocks st p = Some b" "Some p \<noteq> ps ! i" using p by (auto simp: replaced_def split: if_splits)
    with live set_update_keep [of "Some p" ps i q] show ?thesis unfolding only_live_def by fastforce
  qed
qed

lemma set_parameters_ok:
  assumes inv: "cam_inv e (Some d, handed, st)"
  shows "\<exists>r st'. camera_set_parameters e (Some d) s st = Inr (r, st') \<and> cam_inv e (Some d, handed, st')"
  using inv
proof (rule cam_invE)
  fix cid v o' a ps
  assume g: "gVendorModule st" and d: "blocks st d = Some (Device cid v o')" and o': "blocks st o' = Some Ops"
    and cid: "0 \<le> cid" "cid < num_cameras e" and a: "fixed_set_params st = Some a" "blocks st a = Some (Ptrs ps)"
    and len: "int (length ps) = num_cameras e" and ok: "strings_ok ps handed st"
    and live: "only_live (set handed \<union> {p. Some p \<in> set ps} \<union> {d, o'}) st"
  define i n where "i = nat cid" and "n = next_block st"
  have i: "i < length ps" "cid = int i" using cid len by (auto simp: i_def)
  define B where "B = (\<lambda>p. if Some p = ps ! i then None else blocks st p)"
  define q where "q = (if malloc_ok e n then Some n else None)"
  define B' where "B' = (if malloc_ok e n then B(n \<mapsto> Str (reflatten e s)) else B)(a \<mapsto> Ptrs (ps[i := q]))"
  have str: "Some p \<in> set ps \<or> p \<in> set handed \<Longrightarrow> \<exists>t. blocks st p = Some (Str t)" for p
    using ok by (auto simp: strings_ok_def)
  have lt: "blocks st p = Some b \<Longrightarrow> p < n" for p b using ok by (auto simp: strings_ok_def n_def)
  have pi: "Some p = ps ! i \<Longrightarrow> \<exists>t. blocks st p = Some (Str t)" for p using str [of p] i by (metis nth_mem)
  have ne: "Some d \<noteq> ps ! i" "Some o' \<noteq> ps ! i" "Some a \<noteq> ps ! i" using pi d o' a by fastforce+
  have aa: "a \<noteq> d" "a \<noteq> o'" "d \<noteq> n" "o' \<noteq> n" "a \<noteq> n" using d o' a(2) lt [OF d] lt [OF o'] lt [OF a(2)] by auto
  have free: "cfree_opt (ps ! i) st = Inr (st\<lparr>blocks := B\<rparr>)"
    using pi by (cases "ps ! i") (auto simp: cfree_opt_def cfree_def B_def fun_eq_iff split: option.split)
  have dup: "strdup e (reflatten e s) (st\<lparr>blocks := B\<rparr>) =
      (q, st\<lparr>blocks := (if malloc_ok e n then B(n \<mapsto> Str (reflatten e s)) else B), next_block := n + 1\<rparr>)"
    by (simp add: strdup_def cmalloc_def q_def n_def Let_def)
  have fx: "camera_fixup_setparams e (Some d) s st = Inr (q, st\<lparr>blocks := B', next_block := n + 1\<rparr>)"
    using d a i ne aa
    by (simp add: camera_fixup_setparams_def read_device_def fixed_entry_def set_fixed_entry_def read_fixed_def
        free dup B'_def) (auto simp: B_def)
  have B'd: "B' d = Some (Device cid v o')" "B' o' = Some Ops" "B' a = Some (Ptrs (ps[i := q]))"
    using ne aa d o' by (auto simp: B'_def B_def)
  have B': "B' = replaced st i ps a q (reflatten e s)"
    by (auto simp: B'_def B_def q_def n_def replaced_def fun_eq_iff)
  have qc: "q = None \<or> q = Some (next_block st)" by (simp add: q_def n_def)
  have ok': "strings_ok (ps[i := q]) handed (st\<lparr>blocks := B', next_block := n + 1\<rparr>)"
    unfolding B' n_def by (rule strings_ok_replaced [OF ok i(1) qc a(2)])
  have live': "only_live (set handed \<union> {p. Some p \<in> set (ps[i := q])} \<union> {d, o'}) (st\<lparr>blocks := B', next_block := n + 1\<rparr>)"
    unfolding B' by (rule only_live_replaced [OF live i(1)])
  let ?st = "st\<lparr>blocks := B', next_block := n + 1\<rparr>"
  have inv': "cam_inv e (Some d, handed, ?st)" 
    using g B'd cid a(1) len ok' live' by auto
  have "camera_set_parameters e (Some d) s st = VENDOR_CALL e (Some d) (SetParameters (string_at q ?st)) ?st"
    by (simp add: camera_set_parameters_def fx)
  then show ?thesis using B'd cam_inv_vtr [OF inv'] by (simp add: VENDOR_CALL_def read_device_def vendor_def del: cam_inv.simps)
qed

text \<open>A new string block that is handed out, or the failure to get one.\<close>

lemma new_string_ok:
  assumes "cam_inv e (Some d, handed, st)"
  shows "cam_inv e (Some d, next_block st # handed,
      st\<lparr>blocks := (blocks st)(next_block st \<mapsto> Str s), next_block := next_block st + 1\<rparr>)"
    and "cam_inv e (Some d, handed, st\<lparr>next_block := next_block st + 1\<rparr>)"
proof -
  define n where "n = next_block st"
  obtain cid v o' a ps where g: "gVendorModule st" and d: "blocks st d = Some (Device cid v o')" and o': "blocks st o' = Some Ops"
    and cid: "0 \<le> cid" "cid < num_cameras e" and a: "fixed_set_params st = Some a" "blocks st a = Some (Ptrs ps)"
    and len: "int (length ps) = num_cameras e" and ok: "strings_ok ps handed st"
    and live: "only_live (set handed \<union> {p. Some p \<in> set ps} \<union> {d, o'}) st"
    using assms by (rule cam_invE)
  have lt: "blocks st p = Some b \<Longrightarrow> p < n" for p b using ok by (auto simp: strings_ok_def n_def)
  have ne: "d \<noteq> n" "o' \<noteq> n" "a \<noteq> n" using lt [OF d] lt [OF o'] lt [OF a(2)] by auto
  have new: "n \<notin> set handed" "Some n \<notin> set ps"
    using ok lt [of n] by (auto simp: strings_ok_def dest!: spec [of _ n])
  let ?st = "st\<lparr>blocks := (blocks st)(n \<mapsto> Str s), next_block := n + 1\<rparr>"
  have "strings_ok ps (n # handed) ?st"
    using ok new lt by (auto simp: strings_ok_def less_Suc_eq n_def)
  moreover have "only_live (set (n # handed) \<union> {p. Some p \<in> set ps} \<union> {d, o'}) ?st"
    using live by (auto simp: only_live_def)
  ultimately show "cam_inv e (Some d, next_block st # handed,
      st\<lparr>blocks := (blocks st)(next_block st \<mapsto> Str s), next_block := next_block st + 1\<rparr>)"
    unfolding n_def [symmetric] using g d o' cid a len ne by auto
  have "strings_ok ps handed (st\<lparr>next_block := n + 1\<rparr>)" using ok lt by (auto simp: strings_ok_def less_Suc_eq)
  moreover have "only_live (set handed \<union> {p. Some p \<in> set ps} \<union> {d, o'}) (st\<lparr>next_block := n + 1\<rparr>)"
    using live by (auto simp: only_live_def)
  ultimately show "cam_inv e (Some d, handed, st\<lparr>next_block := next_block st + 1\<rparr>)"
    unfolding n_def [symmetric] using g d o' cid a len by auto
qed

lemma get_parameters_ok:
  assumes inv: "cam_inv e (Some d, handed, st)" and par: "\<And>tr. vendor_params e tr \<noteq> None"
  shows "\<exists>p st'. camera_get_parameters e (Some d) st = Inr (p, st') \<and>
    cam_inv e (Some d, (case p of None \<Rightarrow> handed | Some p \<Rightarrow> p # handed), st')"
proof -
  obtain cid v o' where d: "blocks st d = Some (Device cid v o')" and ok: "\<forall>p b. blocks st p = Some b \<longrightarrow> p < next_block st"
    using inv by (rule cam_invE) (auto simp: strings_ok_def)
  obtain params where pv: "vendor_params e (vtr st) = Some params" using par by blast
  define n where "n = next_block st"
  define t where "t = reflatten e params"
  let ?tr = "vtr st @ [(Some v, GetParameters), (Some v, PutParameters params)]"
  have ne: "d \<noteq> n" using d ok by (auto simp: n_def)
  have "camera_get_parameters e (Some d) st =
      (if malloc_ok e n then Inr (Some n, st\<lparr>blocks := (blocks st)(n \<mapsto> Str t), next_block := n + 1, vtr := ?tr\<rparr>)
       else Inr (None, st\<lparr>next_block := n + 1, vtr := ?tr\<rparr>))"
    using d pv ne
    by (simp add: camera_get_parameters_def VENDOR_CALL_def read_device_def vendor_def camera_fixup_getparams_def
        strdup_def cmalloc_def Let_def n_def t_def)
  with cam_inv_vtr [OF new_string_ok(1) [OF inv, of t], of ?tr] cam_inv_vtr [OF new_string_ok(2) [OF inv], of ?tr]
  show ?thesis by (simp add: n_def del: cam_inv.simps)
qed

lemma put_parameters_ok:
  assumes inv: "cam_inv e (Some d, handed, st)" and p: "p \<in> set handed"
  shows "\<exists>st'. camera_put_parameters (Some d) (Some p) st = Inr st' \<and> cam_inv e (Some d, remove1 p handed, st')"
  using inv
proof (rule cam_invE)
  fix cid v o' a ps
  assume g: "gVendorModule st" and d: "blocks st d = Some (Device cid v o')" and o': "blocks st o' = Some Ops"
    and cid: "0 \<le> cid" "cid < num_cameras e" and a: "fixed_set_params st = Some a" "blocks st a = Some (Ptrs ps)"
    and len: "int (length ps) = num_cameras e" and ok: "strings_ok ps handed st"
    and live: "only_live (set handed \<union> {p. Some p \<in> set ps} \<union> {d, o'}) st"
  let ?st = "st\<lparr>blocks := (blocks st)(p := None)\<rparr>"
  obtain t where t: "blocks st p = Some (Str t)" using ok p by (auto simp: strings_ok_def)
  then have ne: "p \<noteq> d" "p \<noteq> o'" "p \<noteq> a" using d o' a by auto
  have "strings_ok ps (remove1 p handed) ?st"
    using ok p by (auto simp: strings_ok_def)
  moreover have "only_live (set (remove1 p handed) \<union> {p. Some p \<in> set ps} \<union> {d, o'}) ?st"
    using live ok by (auto simp: only_live_def strings_ok_def)
  ultimately have "cam_inv e (Some d, remove1 p handed, ?st)"
    using g d o' cid a len ne by auto
  moreover have "camera_put_parameters (Some d) (Some p) st = Inr ?st"
    using d t by (simp add: camera_put_parameters_def read_device_def cfree_opt_def cfree_def)
  ultimately show ?thesis by blast
qed

lemma close_result:
  assumes g: "gVendorModule st" and a: "fixed_set_params st = Some a" "blocks st a = Some (Ptrs ps)"
    and len: "int (length ps) = num_cameras e" and share: "no_share ps"
    and str: "\<And>p. Some p \<in> set ps \<Longrightarrow> \<exists>t. blocks st p = Some (Str t)"
    and d: "blocks st d = Some (Device cid v o')" "blocks st o' = Some Ops"
  shows "camera_device_close e (Some d) st = Inr (0, st\<lparr>vtr := vtr st @ [(Some v, VendorClose)],
    blocks := (\<lambda>p. if Some p \<in> set ps then None else blocks st p)(o' := None, d := None)\<rparr>)"
proof -
  let ?B = "\<lambda>p. if Some p \<in> set ps then None else blocks st p"
  have "free_params e (int 0) st = Inr (st\<lparr>blocks := (\<lambda>p. if Some p \<in> set (drop 0 ps) then None else blocks st p)\<rparr>)"
    by (rule free_params_ok [OF g a len]) (use share str in simp_all)
  then have fr: "free_params e 0 st = Inr (st\<lparr>blocks := ?B\<rparr>)" by simp
  have ne: "Some d \<notin> set ps" "Some o' \<notin> set ps" "d \<noteq> o'" using str [of d] str [of o'] d by auto
  then show ?thesis
    using d by (simp add: camera_device_close_def fr read_device_def vendor_def cfree_def Let_def)
qed

lemma close_dangling:
  assumes "gVendorModule st" "fixed_set_params st = Some a" "blocks st a = Some (Ptrs (Some p # ps))"
    and "blocks st p = None" and "num_cameras e > 0"
  shows "camera_device_close e (Some d) st = Inl BadFree"
proof -
  have "free_params e 0 st = Inl BadFree"
    using assms by (subst free_params.simps)
      (simp add: camera_get_number_of_cameras_def check_vendor_module_def fixed_entry_def read_fixed_def
        cfree_opt_def cfree_def)
  then show ?thesis by (simp add: camera_device_close_def)
qed

lemma close_ok:
  assumes inv: "cam_inv e (Some d, handed, st)"
  shows "\<exists>st'. camera_device_close e (Some d) st = Inr (0, st') \<and> cam_inv e (None, handed, st')"
  using inv
proof (rule cam_invE)
  fix cid v o' a ps
  assume g: "gVendorModule st" and d: "blocks st d = Some (Device cid v o')" and o': "blocks st o' = Some Ops"
    and a: "fixed_set_params st = Some a" "blocks st a = Some (Ptrs ps)"
    and len: "int (length ps) = num_cameras e" and ok: "strings_ok ps handed st"
    and live: "only_live (set handed \<union> {p. Some p \<in> set ps} \<union> {d, o'}) st"
  let ?st = "st\<lparr>vtr := vtr st @ [(Some v, VendorClose)],
    blocks := (\<lambda>p. if Some p \<in> set ps then None else blocks st p)(o' := None, d := None)\<rparr>"
  have "camera_device_close e (Some d) st = Inr (0, ?st)"
    by (rule close_result [OF g a len _ _ d o']) (use ok in \<open>auto simp: strings_ok_def\<close>)
  moreover have "strings_ok [] handed ?st"
    using ok d o' by (auto simp: strings_ok_def no_share_def split: if_splits)
  moreover have "only_live (set handed) ?st"
    using live by (auto simp: only_live_def split: if_splits)
  ultimately show ?thesis by auto
qed

lemma open_failed_ok:
  assumes fail: "open_failed rv st st'" and ok: "strings_ok [] handed st" and live: "only_live (set handed) st"
  shows "strings_ok [] handed st'" and "only_live (set handed) st'"
proof -
  have lt: "\<And>p b. blocks st p = Some b \<Longrightarrow> p < next_block st" using ok by (auto simp: strings_ok_def)
  have keep: "blocks st p = Some b \<Longrightarrow> blocks st' p = Some b" for p b
    using lt [of p b] fail by (auto simp: open_failed_def)
  have "blocks st' p = Some b \<Longrightarrow> p < next_block st'" for p b
    using lt [of p b] fail by (cases "p = next_block st") (auto simp: open_failed_def)
  with keep show "strings_ok [] handed st'"
    using ok by (simp add: strings_ok_def) blast
  show "only_live (set handed) st'"
    unfolding only_live_def
  proof (intro allI impI)
    fix p b
    assume "blocks st' p = Some b"
    then have "blocks st p = Some b \<or> (\<exists>xs. b = Ptrs xs)" using fail by (auto simp: open_failed_def split: if_splits)
    with live show "(\<exists>xs. b = Ptrs xs) \<or> p \<in> set handed" unfolding only_live_def by blast
  qed
qed

lemma opened_ok:
  assumes opened: "opened_as e rv out st st' cid v" and ok: "strings_ok [] handed st" and live: "only_live (set handed) st"
  shows "cam_inv e (Some (next_block st + 1), handed, st')"
proof -
  note o' = opened [unfolded opened_as_def, THEN conjunct2]
  define n where "n = next_block st"
  let ?ps = "replicate (nat (num_cameras e)) None"
  have b: "blocks st' = (blocks st)(n \<mapsto> Ptrs ?ps, n + 1 \<mapsto> Device cid v (n + 2), n + 2 \<mapsto> Ops)" "next_block st' = n + 3"
    using o' by (simp_all add: n_def)
  have lt: "\<And>p b. blocks st p = Some b \<Longrightarrow> p < n" using ok by (auto simp: strings_ok_def n_def)
  have h: "p \<in> set handed \<Longrightarrow> p < n" for p using ok by (auto simp: strings_ok_def n_def)
  have "strings_ok ?ps handed st'"
    unfolding strings_ok_def
  proof (intro conjI)
    show "\<forall>p. Some p \<in> set ?ps \<or> p \<in> set handed \<longrightarrow> (\<exists>s. blocks st' p = Some (Str s))"
      using ok h by (fastforce simp: strings_ok_def b)
    show "\<forall>p b. blocks st' p = Some b \<longrightarrow> p < next_block st'"
      using lt by (fastforce simp: b split: if_splits)
  qed (use ok in \<open>simp_all add: no_share_def strings_ok_def\<close>)
  moreover have "only_live (set handed \<union> {p. Some p \<in> set ?ps} \<union> {n + 1, n + 2}) st'"
    using live by (auto simp: only_live_def b)
  ultimately show ?thesis using o' by (auto simp: n_def)
qed

lemma open_ok:
  assumes inv: "cam_inv e (None, handed, st)"
    and op: "camera_device_open e (Some name) st = (rv, out, st')"
  shows "cam_inv e (if rv = 0 then (case out of None \<Rightarrow> None | Some d \<Rightarrow> d) else None, handed, st')"
proof -
  from inv have ok: "strings_ok [] handed st" and live: "only_live (set handed) st" by auto
  have "open_failed rv st st' \<or> (\<exists>cid v. opened_as e rv out st st' cid v)"
    by (rule open_result [OF op]) (use ok in \<open>auto simp: strings_ok_def\<close>)
  then show ?thesis
  proof (elim disjE exE)
    assume "open_failed rv st st'"
    with open_failed_ok [OF this ok live] show ?thesis by (simp add: open_failed_def)
  next
    fix cid v
    assume "opened_as e rv out st st' cid v"
    with opened_ok [OF this ok live] show ?thesis by (simp add: opened_as_def del: cam_inv.simps)
  qed
qed

text \<open>The commands of a client without an open camera, and of one with.\<close>

lemma client_step_closed:
  assumes inv: "cam_inv e (None, handed, st)"
  shows "\<exists>c'. client_step e cmd (None, handed, st) = Inr c' \<and> cam_inv e c'"
proof (cases cmd)
  case (COpen name)
  obtain rv out st' where op: "camera_device_open e (Some name) st = (rv, out, st')" by (metis prod_cases3)
  show ?thesis using open_ok [OF inv op] by (simp add: client_step_def COpen op del: cam_inv.simps)
next
  case (CCall vc)
  then show ?thesis
    using camera_ops_null [of e vc st] inv by (auto simp: client_step_def simp del: cam_inv.simps)
qed (use inv in \<open>simp_all add: client_step_def camera_set_parameters_def camera_get_parameters_def del: cam_inv.simps\<close>)

lemma client_step_opened:
  assumes inv: "cam_inv e (Some d, handed, st)" and par: "\<And>tr. vendor_params e tr \<noteq> None"
  shows "\<exists>c'. client_step e cmd (Some d, handed, st) = Inr c' \<and> cam_inv e c'"
proof -
  obtain cid v o' where d: "blocks st d = Some (Device cid v o')" using cam_invE [OF inv] by metis
  show ?thesis
  proof (cases cmd)
    case (CCall vc)
    then show ?thesis
      using camera_ops_ok [OF d, of e vc] cam_inv_vtr [OF inv] by (auto simp: client_step_def simp del: cam_inv.simps)
  next
    case (CSetParameters s)
    then show ?thesis
      using set_parameters_ok [OF inv, of s] by (auto simp: client_step_def simp del: cam_inv.simps)
  next
    case CGetParameters
    then show ?thesis
      using get_parameters_ok [OF inv par] by (auto simp: client_step_def simp del: cam_inv.simps)
  next
    case (CPutParameters p)
    then show ?thesis
      using put_parameters_ok [OF inv, of p] inv by (auto simp: client_step_def simp del: cam_inv.simps)
  next
    case CClose
    then show ?thesis
      using close_ok [OF inv] by (auto simp: client_step_def simp del: cam_inv.simps)
  next
    case (COpen name)
    then show ?thesis using inv by (simp add: client_step_def del: cam_inv.simps)
  qed
qed

lemma client_step_ok:
  assumes "cam_inv e c" and "\<And>tr. vendor_params e tr \<noteq> None"
  shows "\<exists>c'. client_step e cmd c = Inr c' \<and> cam_inv e c'"
proof -
  obtain dev handed st where c: "c = (dev, handed, st)" by (metis prod_cases3)
  show ?thesis
  proof (cases dev)
    case None
    with client_step_closed assms(1) show ?thesis by (simp add: c del: cam_inv.simps)
  next
    case (Some d)
    with client_step_opened [OF _ assms(2)] assms(1) show ?thesis by (simp add: c del: cam_inv.simps)
  qed
qed

lemma client_run_ok:
  "cam_inv e c \<Longrightarrow> (\<And>tr. vendor_params e tr \<noteq> None) \<Longrightarrow> \<exists>c'. client_run e cmds c = Inr c' \<and> cam_inv e c'"
proof (induction cmds arbitrary: c)
  case (Cons cmd cmds)
  obtain c1 where c1: "client_step e cmd c = Inr c1" "cam_inv e c1" using client_step_ok [OF Cons.prems] by blast
  then show ?case using Cons.IH [OF c1(2) Cons.prems(2)] by simp
qed simp

lemma initial_inv: "cam_inv e (None, [], initial_cam)"
  by (simp add: strings_ok_def only_live_def no_share_def initial_cam_def)

text \<open>Opening a camera when everything succeeds.\<close>

lemma open_all_ok:
  assumes "\<And>i. malloc_ok e i" and "\<And>tr n. answer e tr (None, VendorOpen n) = 0"
    and "gVendorModule st" and "0 \<le> atoi name" "atoi name < num_cameras e" and "n = next_block st"
  shows "camera_device_open e (Some name) st =
    (0, Some (Some (n + 1)), st\<lparr>fixed_set_params := Some n, next_block := n + 3, vtr := vtr st @ [(None, VendorOpen name)],
       blocks := (blocks st)(n \<mapsto> Ptrs (replicate (nat (num_cameras e)) None),
         n + 1 \<mapsto> Device (atoi name) (vendor_device e (vtr st)) (n + 2), n + 2 \<mapsto> Ops)\<rparr>)"
  using assms
  by (simp add: camera_device_open_def check_vendor_module_def cmalloc_def vendor_def Let_def fun_upd_twist)

lemma atoi_examples: "atoi ''0'' = 0" "atoi ''1'' = 1"
  by code_simp+

text \<open>Two cameras open: the second array replaces the first.\<close>

lemma two_opens:
  assumes mal: "\<And>i. malloc_ok e i" and vo: "\<And>tr n. answer e tr (None, VendorOpen n) = 0"
    and ld: "answer e [] (None, Dlopen) \<noteq> 0" "answer e [(None, Dlopen)] (None, HwGetModule) = 0" and two: "num_cameras e \<ge> 2"
  obtains st1 st2 v0 v1 where "camera_device_open e (Some ''0'') initial_cam = (0, Some (Some 1), st1)"
    "camera_device_open e (Some ''1'') st1 = (0, Some (Some 4), st2)"
    "gVendorModule st2" "fixed_set_params st2 = Some 3" "next_block st2 = 6"
    "blocks st2 = [0 \<mapsto> Ptrs (replicate (nat (num_cameras e)) None), 1 \<mapsto> Device 0 v0 2, 2 \<mapsto> Ops,
       3 \<mapsto> Ptrs (replicate (nat (num_cameras e)) None), 4 \<mapsto> Device 1 v1 5, 5 \<mapsto> Ops]"
proof -
  let ?none = "replicate (nat (num_cameras e)) None :: nat option list"
  define st0 where "st0 = initial_cam\<lparr>gVendorModule := True, gCameraShim := True,
    vtr := [(None, Dlopen), (None, HwGetModule)]\<rparr>"
  have ck: "check_vendor_module e initial_cam = (0, st0)" "check_vendor_module e st0 = (0, st0)"
    using ld by (simp_all add: check_vendor_module_def initial_cam_def vendor_def st0_def Let_def)
  have first: "camera_device_open e (Some nm) initial_cam = camera_device_open e (Some nm) st0" for nm
    by (simp add: camera_device_open_def ck)
  define v0 v1 where "v0 = vendor_device e (vtr st0)" and "v1 = vendor_device e (vtr st0 @ [(None, VendorOpen ''0'')])"
  define st1 where "st1 = st0\<lparr>fixed_set_params := Some 0, next_block := 3, vtr := vtr st0 @ [(None, VendorOpen ''0'')],
    blocks := [0 \<mapsto> Ptrs ?none, 1 \<mapsto> Device 0 v0 2, 2 \<mapsto> Ops]\<rparr>"
  have op0: "camera_device_open e (Some ''0'') initial_cam = (0, Some (Some 1), st1)"
    using open_all_ok [OF mal vo, of st0 "''0''" 0] two
    by (simp add: first atoi_examples st1_def v0_def) (simp add: st0_def initial_cam_def numeral_2_eq_2)
  define st2 where "st2 = st1\<lparr>fixed_set_params := Some 3, next_block := 6, vtr := vtr st1 @ [(None, VendorOpen ''1'')],
    blocks := (blocks st1)(3 \<mapsto> Ptrs ?none, 4 \<mapsto> Device 1 v1 5, 5 \<mapsto> Ops)\<rparr>"
  have op1: "camera_device_open e (Some ''1'') st1 = (0, Some (Some 4), st2)"
    using open_all_ok [OF mal vo, of st1 "''1''" 3] two
    by (simp add: atoi_examples st2_def v1_def) (simp add: st1_def st0_def)
  show thesis
    by (rule that [OF op0 op1, of v0 v1]) (simp_all add: st2_def st1_def st0_def)
qed

text \<open>Parameters set on the first of them, which is closed, and then the second is closed.\<close>

lemma two_closes:
  assumes mal: "\<And>i. malloc_ok e i" and two: "num_cameras e \<ge> 2"
    and st2: "gVendorModule st2" "fixed_set_params st2 = Some 3" "next_block st2 = 6"
      "blocks st2 = [0 \<mapsto> Ptrs (replicate (nat (num_cameras e)) None), 1 \<mapsto> Device 0 v0 2, 2 \<mapsto> Ops,
         3 \<mapsto> Ptrs (replicate (nat (num_cameras e)) None), 4 \<mapsto> Device 1 v1 5, 5 \<mapsto> Ops]"
  shows "\<exists>st3 st4 r. camera_set_parameters e (Some 1) s st2 = Inr (r, st3) \<and>
    camera_device_close e (Some 1) st3 = Inr (0, st4) \<and> camera_device_close e (Some 4) st4 = Inl BadFree"
proof -
  let ?none = "replicate (nat (num_cameras e)) None :: nat option list"
  obtain k where k: "nat (num_cameras e) = Suc (Suc k)" 
    using two by (intro that [of "nat (num_cameras e) - 2"]) linarith
  have kk: "num_cameras e = int k + 2" using k two by linarith
  let ?ps = "?none[0 := Some 6]"
  let ?st = "st2\<lparr>blocks := (blocks st2)(6 \<mapsto> Str (reflatten e s), 3 \<mapsto> Ptrs ?ps), next_block := 7\<rparr>"
  have fx: "camera_fixup_setparams e (Some 1) s st2 = Inr (Some 6, ?st)"
    using mal k
    by (simp add: camera_fixup_setparams_def read_device_def fixed_entry_def set_fixed_entry_def read_fixed_def
        cfree_opt_def strdup_def cmalloc_def Let_def st2)
  define st3 where "st3 = ?st\<lparr>vtr := vtr ?st @ [(Some v0, SetParameters (Some (reflatten e s)))]\<rparr>"
  have "camera_set_parameters e (Some 1) s st2 = VENDOR_CALL e (Some 1) (SetParameters (string_at (Some 6) ?st)) ?st"
    unfolding camera_set_parameters_def fx by simp
  then have set: "\<exists>r. camera_set_parameters e (Some 1) s st2 = Inr (r, st3)"
    by (simp add: VENDOR_CALL_def read_device_def vendor_def string_at_def st3_def st2)
  have ps: "?ps = Some 6 # replicate (Suc k) None" by (simp add: k)
  define st4 where "st4 = st3\<lparr>vtr := vtr st3 @ [(Some v0, VendorClose)],
    blocks := (\<lambda>p. if Some p \<in> set ?ps then None else blocks st3 p)(2 := None, 1 := None)\<rparr>"
  have "camera_device_close e (Some 1) st3 = Inr (0, st4)"
    unfolding st4_def
    by (rule close_result [where a = 3 and cid = 0])
      (use kk ps no_share_update [of ?none "Some 6" 0] in
        \<open>auto simp: st3_def st2 no_share_def split: if_splits\<close>)
  moreover have "camera_device_close e (Some 4) st4 = Inl BadFree"
    by (rule close_dangling [where a = 3 and p = 6 and ps = "replicate (Suc k) None"])
      (use two in \<open>simp_all add: st4_def st3_def st2 ps\<close>)
  ultimately show ?thesis using set by blast
qed

section \<open>Properties\<close>

text \<open>
  C31. Used by a client with at most one camera open at a time, with a vendor module that never gives null
  parameters, the wrapper never dereferences a null pointer, never leaves its array, and never touches or frees
  a block that is not live, whatever fails otherwise in the vendor module, the loader or the allocator. When no camera
  is open, every device, operation table and parameter string has been freed but the strings the client still
  holds; what else is live are parameter arrays, which the code allocates at every open and never frees.
\<close>

theorem one_camera_is_safe:
  assumes "\<And>tr. vendor_params e tr \<noteq> None"
  shows "\<exists>dev handed st. client_run e cmds (None, [], initial_cam) = Inr (dev, handed, st) \<and>
    (dev = None \<longrightarrow> (\<forall>p b. blocks st p = Some b \<longrightarrow> (\<exists>xs. b = Ptrs xs) \<or> p \<in> set handed))"
proof -
  obtain dev handed st where "client_run e cmds (None, [], initial_cam) = Inr (dev, handed, st)"
    and "cam_inv e (dev, handed, st)"
    using client_run_ok [OF initial_inv assms, of cmds] by (metis prod_cases3)
  moreover from this(2) have "dev = None \<longrightarrow> (\<forall>p b. blocks st p = Some b \<longrightarrow> (\<exists>xs. b = Ptrs xs) \<or> p \<in> set handed)"
    by (cases dev) (simp_all add: only_live_def)
  ultimately show ?thesis by blast
qed

theorem one_camera_is_safe_witness:
  "\<exists>dev handed st. client_run
      \<lparr>answer = (\<lambda>tr (d, c). if c = Dlopen then 1 else 0), vendor_device = (\<lambda>tr. 0), vendor_params = (\<lambda>tr. Some ''a=b''),
       num_cameras = 2, malloc_ok = (\<lambda>i. i \<noteq> 5), reflatten = (\<lambda>s. s)\<rparr>
      [COpen ''0'', CSetParameters ''x=1'', CSetParameters ''x=2'', CGetParameters, CClose, COpen ''1'', CCall StartPreview, CClose]
      (None, [], initial_cam) = Inr (dev, handed, st) \<and>
    (dev = None \<longrightarrow> (\<forall>p b. blocks st p = Some b \<longrightarrow> (\<exists>xs. b = Ptrs xs) \<or> p \<in> set handed))"
  by (rule one_camera_is_safe) simp

text \<open>
  C32. With two cameras open it is not safe: closing the first frees the parameter strings of all the cameras and leaves
  the pointers in the array, and closing the second frees them again. Every step before that succeeds.
\<close>

theorem two_cameras_double_free:
  assumes mal: "\<And>i. malloc_ok e i" and vo: "\<And>tr n. answer e tr (None, VendorOpen n) = 0"
    and ld: "answer e [] (None, Dlopen) \<noteq> 0" "answer e [(None, Dlopen)] (None, HwGetModule) = 0" and two: "num_cameras e \<ge> 2"
  shows "\<exists>d0 d1 st1 st2 st3 st4 r. camera_device_open e (Some ''0'') initial_cam = (0, Some (Some d0), st1) \<and>
    camera_device_open e (Some ''1'') st1 = (0, Some (Some d1), st2) \<and>
    camera_set_parameters e (Some d0) s st2 = Inr (r, st3) \<and>
    camera_device_close e (Some d0) st3 = Inr (0, st4) \<and>
    camera_device_close e (Some d1) st4 = Inl BadFree"
proof -
  obtain st1 st2 v0 v1 where opens: "camera_device_open e (Some ''0'') initial_cam = (0, Some (Some 1), st1)"
    "camera_device_open e (Some ''1'') st1 = (0, Some (Some 4), st2)"
    and st2: "gVendorModule st2" "fixed_set_params st2 = Some 3" "next_block st2 = 6"
    "blocks st2 = [0 \<mapsto> Ptrs (replicate (nat (num_cameras e)) None), 1 \<mapsto> Device 0 v0 2, 2 \<mapsto> Ops,
       3 \<mapsto> Ptrs (replicate (nat (num_cameras e)) None), 4 \<mapsto> Device 1 v1 5, 5 \<mapsto> Ops]"
    by (rule two_opens [OF assms])
  from opens two_closes [OF mal two st2, of s] show ?thesis by blast
qed

theorem two_cameras_double_free_witness:
  "\<exists>d0 d1 st1 st2 st3 st4 r.
    let e = \<lparr>answer = (\<lambda>tr (d, c). if c = Dlopen then 1 else 0), vendor_device = (\<lambda>tr. 0), vendor_params = (\<lambda>tr. None),
       num_cameras = 2, malloc_ok = (\<lambda>i. True), reflatten = (\<lambda>s. s)\<rparr>
    in camera_device_open e (Some ''0'') initial_cam = (0, Some (Some d0), st1) \<and>
       camera_device_open e (Some ''1'') st1 = (0, Some (Some d1), st2) \<and>
       camera_set_parameters e (Some d0) ''x=1'' st2 = Inr (r, st3) \<and>
       camera_device_close e (Some d0) st3 = Inr (0, st4) \<and>
       camera_device_close e (Some d1) st4 = Inl BadFree"
  unfolding Let_def by (rule two_cameras_double_free) simp_all

end
