(* ===== verification/BootImage.thy ===== *)
theory BootImage
  imports Bytes
begin

unbundle bit_operations_syntax

text \<open>
  \<^verbatim>\<open>mkbootimg/pack.c\<close>, \<^verbatim>\<open>mkbootimg/unpack.c\<close> and \<^verbatim>\<open>mkbootimg/bootheader.h\<close>: the host tools that put the
  kernel, the ramdisk and the command line behind the boot stub of an existing img, and take them
  out again. Files are byte lists; whether a file opens is a parameter.
\<close>

section \<open>Layout\<close>

definition MAGIC_SIZE :: nat where "MAGIC_SIZE = 7"
definition ID_SIZE :: nat where "ID_SIZE = 0x28"
definition HEADER_SIZE :: nat where "HEADER_SIZE = MAGIC_SIZE + 1 + ID_SIZE + 4 + 4"
definition HEAD_PADDING :: nat where "HEAD_PADDING = 0x1c8"
definition UNKNOWN_SIZE :: nat where "UNKNOWN_SIZE = 0x1e0"
definition CMDLINE_START :: nat where "CMDLINE_START = 0x3E0"
definition CMDLINE_SIZE :: nat where "CMDLINE_SIZE = 0x400"
definition CMDLINE_END :: nat where "CMDLINE_END = HEADER_SIZE + HEAD_PADDING + UNKNOWN_SIZE + CMDLINE_SIZE"
definition PADDING1_SIZE :: nat where "PADDING1_SIZE = 0xbf0"
definition BOOTSTUBSTACK_SIZE :: nat where "BOOTSTUBSTACK_SIZE = 0x2000"
definition SECTOR_SIZE :: nat where "SECTOR_SIZE = 0x200"

text \<open>The offsets of the fields of \<open>struct bootheader\<close> that the tools use, and its size.\<close>

definition off_xor :: nat where "off_xor = MAGIC_SIZE"
definition off_sectors :: nat where "off_sectors = MAGIC_SIZE + 1 + ID_SIZE"
definition off_cmdline :: nat where "off_cmdline = HEADER_SIZE + HEAD_PADDING + UNKNOWN_SIZE"
definition off_bzImageSize :: nat where "off_bzImageSize = off_cmdline + CMDLINE_SIZE"
definition off_initrdSize :: nat where "off_initrdSize = off_bzImageSize + 4"
definition sizeof_bootheader :: nat where
  "sizeof_bootheader = off_initrdSize + 4 + 4 + 4 + PADDING1_SIZE + BOOTSTUBSTACK_SIZE"

lemmas boot_sizes = MAGIC_SIZE_def ID_SIZE_def HEADER_SIZE_def HEAD_PADDING_def UNKNOWN_SIZE_def CMDLINE_START_def
  CMDLINE_SIZE_def CMDLINE_END_def PADDING1_SIZE_def BOOTSTUBSTACK_SIZE_def SECTOR_SIZE_def off_xor_def
  off_sectors_def off_cmdline_def off_bzImageSize_def off_initrdSize_def sizeof_bootheader_def

section \<open>Packing\<close>

text \<open>An input file: whether \<open>fopen\<close> and \<open>stat\<close> succeed, and its bytes.\<close>

record in_file =
  fopen_ok :: bool
  stat_ok :: bool
  content :: bytes

text \<open>
  \<open>room\<close> is how many bytes the output device takes: a \<open>fwrite\<close> beyond it is short. \<open>BUFSIZ\<close> is that of
  the C library, and \<open>stale\<close> is what the local variable \<open>paddings\<close> holds before it is assigned.
\<close>

record pack_env =
  argc :: int
  origin :: in_file
  bzImage :: in_file
  ramdisk :: in_file
  cmdline :: in_file
  output_ok :: bool
  room :: nat
  calloc_ok :: bool
  BUFSIZ :: nat
  stale :: "32 word"

definition calculate_checksum :: "bytes \<Rightarrow> 8 word" where
  "calculate_checksum hdr = foldl (\<lambda>sum i. sum XOR hdr ! i) (hdr ! off_xor) [0..<HEADER_SIZE]"

text \<open>At the end of the file \<open>fscanf\<close> stores nothing.\<close>

definition copy_cmdline :: "bytes \<Rightarrow> bytes \<Rightarrow> bytes" where
  "copy_cmdline cmd file =
     foldl (\<lambda>file i. if i < length cmd then file[off_cmdline + i := cmd ! i] else file) file [0..<CMDLINE_SIZE]"

definition fwrite :: "nat \<Rightarrow> bytes \<Rightarrow> bytes \<Rightarrow> bytes" where
  "fwrite cap data out = take cap (out @ data)"

text \<open>The loop \<open>while ((size = fread(buf, 1, BUFSIZ, f))) fwrite(buf, 1, size, foutput)\<close>.\<close>

function copy_file :: "nat \<Rightarrow> nat \<Rightarrow> bytes \<Rightarrow> bytes \<Rightarrow> bytes" where
  "copy_file cap bufsiz rest out =
     (let buf = take bufsiz rest
      in if length buf \<noteq> 0 then copy_file cap bufsiz (drop bufsiz rest) (fwrite cap buf out) else out)"
  by pat_completeness auto
termination by (relation "measure (\<lambda>(cap, bufsiz, rest, out). length rest)") (auto simp: min_def split: if_splits)

declare copy_file.simps [simp del]

text \<open>The header, the total size and the padding; \<open>tmp\<close> and the sum are \<open>uint32_t\<close>.\<close>

definition pack_header :: "bytes \<Rightarrow> bytes \<Rightarrow> nat \<Rightarrow> nat \<Rightarrow> 32 word \<Rightarrow> bytes \<times> 32 word" where
  "pack_header stub cmd bzSize rdSize paddings =
     (let file = copy_cmdline cmd stub;
          tmp = word_of_nat bzSize;
          totalImageSize = tmp;
          file = write32 file off_bzImageSize tmp;
          totalImageSize = totalImageSize + word_of_nat sizeof_bootheader;
          tmp = word_of_nat rdSize;
          totalImageSize = totalImageSize + tmp;
          (paddings, totalImageSize) =
            (if totalImageSize mod word_of_nat SECTOR_SIZE > 0
             then let paddings = word_of_nat SECTOR_SIZE - totalImageSize mod word_of_nat SECTOR_SIZE
                  in (paddings, totalImageSize + paddings)
             else (paddings, totalImageSize));
          file = write32 file off_initrdSize tmp;
          file = write32 file off_sectors (totalImageSize div word_of_nat SECTOR_SIZE - 1);
          file = file[off_xor := calculate_checksum file]
      in (file, paddings))"

text \<open>The exit status and the output file, which is truncated when it is opened.\<close>

definition pack :: "pack_env \<Rightarrow> fault + int \<times> bytes" where
  "pack e =
     (if argc e \<noteq> 6 then Inr (1, [])
      else if \<not> fopen_ok (origin e) \<or> \<not> output_ok e then Inr (1, [])
      else if \<not> calloc_ok e then Inr (1, [])
      else if length (content (origin e)) < sizeof_bootheader then Inr (1, [])
      else if \<not> fopen_ok (cmdline e) then Inl NullDeref
      else if \<not> stat_ok (bzImage e) then Inr (1, [])
      else if \<not> stat_ok (ramdisk e) then Inr (1, [])
      else
        let (file, paddings) = pack_header (take sizeof_bootheader (content (origin e))) (content (cmdline e))
              (length (content (bzImage e))) (length (content (ramdisk e))) (stale e);
            out = fwrite (room e) file []
        in if length out < length file then Inr (1, out)
           else if \<not> fopen_ok (bzImage e) then Inl NullDeref
           else
             let out = copy_file (room e) (BUFSIZ e) (content (bzImage e)) out
             in if \<not> fopen_ok (ramdisk e) then Inl NullDeref
                else
                  let out = copy_file (room e) (BUFSIZ e) (content (ramdisk e)) out
                  in if paddings = 0 then Inr (0, out)
                     else if unat paddings > BUFSIZ e then Inl OutOfBounds
                     else
                       let out' = fwrite (room e) (replicate (unat paddings) 0xff) out
                       in if length out' < length out + unat paddings then Inr (1, out') else Inr (0, out'))"

section \<open>Unpacking\<close>

text \<open>
  The loop that copies \<open>missing\<close> bytes from position \<open>pos\<close> of the img. \<open>None\<close> is a loop that never
  ends: at the end of the img \<open>fread\<close> gives 0 for ever.
\<close>

partial_function (option) copy_out :: "nat \<Rightarrow> bytes \<Rightarrow> nat \<Rightarrow> nat \<Rightarrow> bytes \<Rightarrow> bytes option" where
  "copy_out bufsiz img pos missing out =
     (if missing = 0 then Some out
      else
        let buf = take (if missing > bufsiz then bufsiz else missing) (drop pos img)
        in if length buf \<noteq> 0
           then copy_out bufsiz img (pos + length buf) (missing - length buf) (out @ buf)
           else copy_out bufsiz img pos missing out)"

record unpack_env =
  uargc :: int
  forigin_ok :: bool
  fbzImage_ok :: bool
  framdisk_ok :: bool
  fcmdline_ok :: bool
  UBUFSIZ :: nat

definition read32 :: "bytes \<Rightarrow> nat \<Rightarrow> 32 word option" where
  "read32 img pos = (if pos + 4 \<le> length img then Some (le32_at img pos) else None)"

record unpacked =
  status :: int
  bz_out :: bytes
  rd_out :: bytes
  cmd_out :: bytes

text \<open>
  The test of the opened files asks for the name of the kernel file, not its stream, so a kernel file
  that does not open is a null stream at the first write.
\<close>

definition unpack :: "unpack_env \<Rightarrow> bytes \<Rightarrow> (fault + unpacked) option" where
  "unpack e img =
     (let fail = \<lparr>status = 1, bz_out = [], rd_out = [], cmd_out = []\<rparr>
      in if uargc e \<noteq> 5 then Some (Inr fail)
         else if \<not> forigin_ok e \<or> \<not> framdisk_ok e \<or> \<not> fcmdline_ok e then Some (Inr fail)
         else case copy_out (UBUFSIZ e) img CMDLINE_START CMDLINE_SIZE [] of
           None \<Rightarrow> None
         | Some cmd \<Rightarrow>
             (case read32 img CMDLINE_END of
                None \<Rightarrow> Some (Inr (fail\<lparr>cmd_out := cmd\<rparr>))
              | Some bzImageLen \<Rightarrow>
                  (case read32 img (CMDLINE_END + 4) of
                     None \<Rightarrow> Some (Inr (fail\<lparr>cmd_out := cmd\<rparr>))
                   | Some ramdiskLen \<Rightarrow>
                       if \<not> fbzImage_ok e \<and> bzImageLen \<noteq> 0 \<and> sizeof_bootheader < length img then Some (Inl NullDeref)
                       else (case copy_out (UBUFSIZ e) img sizeof_bootheader (unat bzImageLen) [] of
                         None \<Rightarrow> None
                       | Some bz \<Rightarrow>
                           (case copy_out (UBUFSIZ e) img (sizeof_bootheader + unat bzImageLen) (unat ramdiskLen) [] of
                              None \<Rightarrow> None
                            | Some rd \<Rightarrow> Some (Inr \<lparr>status = 0, bz_out = bz, rd_out = rd, cmd_out = cmd\<rparr>))))))"

section \<open>Lemmas: the copying loops\<close>

lemma take_app_cap: "take cap (take cap xs @ ys) = take cap (xs @ ys)"
  by (simp add: min_def)

lemma copy_file_result: "0 < bufsiz \<Longrightarrow> length out \<le> cap \<Longrightarrow> copy_file cap bufsiz rest out = take cap (out @ rest)"
proof (induction cap bufsiz rest out rule: copy_file.induct)
  case (1 cap bufsiz rest out)
  show ?case
  proof (cases "rest = []")
    case True
    with 1 show ?thesis by (subst copy_file.simps) simp
  next
    case False
    with 1(2) have ne: "length (take bufsiz rest) \<noteq> 0" by (cases rest) auto
    have "copy_file cap bufsiz rest out = copy_file cap bufsiz (drop bufsiz rest) (fwrite cap (take bufsiz rest) out)"
      using ne by (subst copy_file.simps) (simp add: Let_def)
    also have "\<dots> = take cap (fwrite cap (take bufsiz rest) out @ drop bufsiz rest)"
      by (rule 1(1)) (use 1(2) ne in \<open>simp_all add: fwrite_def\<close>)
    also have "\<dots> = take cap (out @ rest)"
      unfolding fwrite_def take_app_cap by simp
    finally show ?thesis .
  qed
qed

lemma copy_out_complete:
  "0 < bufsiz \<Longrightarrow> pos + missing \<le> length img \<Longrightarrow>
    copy_out bufsiz img pos missing out = Some (out @ take missing (drop pos img))"
proof (induction missing arbitrary: pos out rule: less_induct)
  case (less missing)
  show ?case
  proof (cases "missing = 0")
    case True
    then show ?thesis by (subst copy_out.simps) simp
  next
    case False
    define n where "n = (if missing > bufsiz then bufsiz else missing)"
    have n: "n \<noteq> 0" "n \<le> missing" using False less.prems by (auto simp: n_def)
    have len: "length (take n (drop pos img)) = n" using n less.prems by simp
    have "copy_out bufsiz img pos missing out =
        copy_out bufsiz img (pos + n) (missing - n) (out @ take n (drop pos img))"
      using False n len by (subst copy_out.simps) (simp only: n_def [symmetric] Let_def if_False if_True simp_thms)
    also have "\<dots> = Some ((out @ take n (drop pos img)) @ take (missing - n) (drop (pos + n) img))"
      by (rule less.IH) (use n less.prems in auto)
    also have "\<dots> = Some (out @ take missing (drop pos img))"
      using n take_add [of n "missing - n" "drop pos img"] by (simp add: add.commute)
    finally show ?thesis .
  qed
qed

text \<open>A loop whose image ends early never returns, whatever the fuel: by fixpoint induction.\<close>

lemma copy_out_short:
  assumes "copy_out bufsiz img pos missing out = Some r"
  shows "missing = 0 \<or> pos + missing \<le> length img"
proof (rule copy_out.raw_induct [where P = "\<lambda>bufsiz img pos missing out r. missing = 0 \<or> pos + missing \<le> length img", OF _ assms])
  fix co bufsiz img pos missing out r
  assume IH: "\<And>bufsiz img pos missing out r. co bufsiz img pos missing out = Some r \<Longrightarrow>
      missing = 0 \<or> pos + missing \<le> length img"
    and body: "(if missing = 0 then Some out
      else let buf = take (if missing > bufsiz then bufsiz else missing) (drop pos img)
        in if length buf \<noteq> 0 then co bufsiz img (pos + length buf) (missing - length buf) (out @ buf)
           else co bufsiz img pos missing out) = Some r"
  let ?buf = "take (if missing > bufsiz then bufsiz else missing) (drop pos img)"
  show "missing = 0 \<or> pos + missing \<le> length img"
  proof (cases "missing = 0")
    case False
    then have "length ?buf \<noteq> 0 \<Longrightarrow> co bufsiz img (pos + length ?buf) (missing - length ?buf) (out @ ?buf) = Some r"
      and "length ?buf = 0 \<Longrightarrow> co bufsiz img pos missing out = Some r"
      using body by (simp_all add: Let_def split: if_splits)
    then have "(missing - length ?buf = 0 \<or> pos + length ?buf + (missing - length ?buf) \<le> length img)
        \<or> missing = 0 \<or> pos + missing \<le> length img"
      using IH by blast
    moreover have "length ?buf \<le> missing" "length ?buf \<le> length img - pos" by auto
    ultimately show ?thesis using False by linarith
  qed simp
qed

section \<open>Lemmas: the packed header\<close>

lemma boot_offsets: "HEADER_SIZE = 56" "off_xor = 7" "off_sectors = 48" "off_cmdline = 992" "CMDLINE_START = 992"
  "CMDLINE_SIZE = 1024" "CMDLINE_END = 2016" "off_bzImageSize = 2016" "off_initrdSize = 2020"
  "sizeof_bootheader = 13280" "SECTOR_SIZE = 512"
  by (simp_all add: boot_sizes)

lemma copy_cmdline_step:
  "off_cmdline + n \<le> length file \<Longrightarrow>
    foldl (\<lambda>file i. if i < length cmd then file[off_cmdline + i := cmd ! i] else file) file [0..<n] =
    write_at file off_cmdline (take n cmd)"
proof (induction n)
  case 0
  then show ?case by (simp add: write_at_def)
next
  case (Suc n)
  have len: "length (write_at file off_cmdline (take n cmd)) = length file"
    using Suc.prems by (intro write_at_length) simp
  show ?case
  proof (cases "n < length cmd")
    case True
    then have "(write_at file off_cmdline (take n cmd))[off_cmdline + n := cmd ! n] =
        write_at file off_cmdline (take (Suc n) cmd)"
      using Suc.prems len
      by (intro nth_equalityI) (auto simp: write_at_nth nth_list_update)
    then show ?thesis using Suc True by simp
  next
    case False
    then show ?thesis using Suc by simp
  qed
qed

lemma copy_cmdline_eq:
  "off_cmdline + CMDLINE_SIZE \<le> length file \<Longrightarrow> copy_cmdline cmd file = write_at file off_cmdline (take CMDLINE_SIZE cmd)"
  unfolding copy_cmdline_def by (rule copy_cmdline_step)

definition xor_bytes :: "bytes \<Rightarrow> nat \<Rightarrow> 8 word" where
  "xor_bytes p n = foldl (\<lambda>sum i. sum XOR p ! i) 0 [0..<n]"

lemma xor_bytes_simps: "xor_bytes p 0 = 0" "xor_bytes p (Suc n) = xor_bytes p n XOR p ! n"
  by (simp_all add: xor_bytes_def)

lemma xor_foldl_start: "foldl (\<lambda>sum i. sum XOR p ! i) (b :: 8 word) [0..<n] = b XOR xor_bytes p n"
  by (induction n) (simp_all add: xor_bytes_def xor.assoc)

lemma xor_bytes_outside: "j \<ge> n \<Longrightarrow> xor_bytes (p[j := b]) n = xor_bytes p n"
  by (induction n) (simp_all add: xor_bytes_simps)

lemma xor_bytes_update: "j < n \<Longrightarrow> n \<le> length p \<Longrightarrow> xor_bytes (p[j := b]) n = xor_bytes p n XOR p ! j XOR b"
proof (induction n)
  case (Suc n)
  show ?case
  proof (cases "j = n")
    case True
    then show ?thesis
      using Suc.prems by (simp add: xor_bytes_simps xor_bytes_outside xor.assoc xor.left_commute)
  next
    case False
    then show ?thesis using Suc by (simp add: xor_bytes_simps xor.assoc xor.commute xor.left_commute)
  qed
qed simp

lemma checksum_clears:
  "HEADER_SIZE \<le> length p \<Longrightarrow> xor_bytes (p[off_xor := calculate_checksum p]) HEADER_SIZE = 0"
  by (simp add: calculate_checksum_def xor_foldl_start xor_bytes_update boot_offsets xor.assoc xor.left_commute)

text \<open>The padding, as a number, and the header for an image of less than \<open>2 ^ 32\<close> bytes.\<close>

definition pad_len :: "nat \<Rightarrow> nat" where
  "pad_len T = (if T mod 512 = 0 then 0 else 512 - T mod 512)"

lemma pad_len: "pad_len T < 512" "(T + pad_len T) mod 512 = 0"
proof -
  have "T mod 512 < 512" by simp
  then show "pad_len T < 512" by (simp add: pad_len_def)
  have "(T + (512 - T mod 512)) mod 512 = 0" if "T mod 512 \<noteq> 0"
    using mod_mult_div_eq [of T 512] that \<open>T mod 512 < 512\<close>
    by (metis (no_types, lifting) add.commute le_add_diff_inverse less_imp_le mod_add_left_eq mod_self)
  then show "(T + pad_len T) mod 512 = 0" by (auto simp: pad_len_def)
qed

lemma unat_of_small: "n < 2 ^ 32 \<Longrightarrow> unat (word_of_nat n :: 32 word) = n"
  by (simp add: unsigned_of_nat take_bit_nat_eq_self)

lemma of_nat_mod32: "T < 2 ^ 32 \<Longrightarrow> (word_of_nat T :: 32 word) mod word_of_nat 512 = word_of_nat (T mod 512)"
  by (simp add: word_unat_eq_iff unat_mod_distrib unat_of_small less_trans [OF mod_less_divisor])

lemma of_nat_div32: "T < 2 ^ 32 \<Longrightarrow> (word_of_nat T :: 32 word) div word_of_nat 512 = word_of_nat (T div 512)"
  by (simp add: word_unat_eq_iff unat_div_distrib unat_of_small le_less_trans [OF div_le_dividend])

lemma pack_header_eq:
  fixes stub cmd :: bytes and T bzSize rdSize :: nat
  assumes T: "T = bzSize + sizeof_bootheader + rdSize" "T + 512 \<le> 2 ^ 32"
    and pad: "T mod 512 \<noteq> 0 \<or> paddings = 0"
  defines "f \<equiv> write32 (write32 (write32 (copy_cmdline cmd stub) off_bzImageSize (word_of_nat bzSize))
        off_initrdSize (word_of_nat rdSize)) off_sectors (word_of_nat ((T + pad_len T) div 512) - 1)"
  shows "pack_header stub cmd bzSize rdSize paddings = (f[off_xor := calculate_checksum f], word_of_nat (pad_len T))"
proof -
  have sum: "word_of_nat bzSize + word_of_nat sizeof_bootheader + word_of_nat rdSize = (word_of_nat T :: 32 word)"
    by (simp add: T)
  have md: "(word_of_nat T :: 32 word) mod word_of_nat SECTOR_SIZE = word_of_nat (T mod 512)"
    using of_nat_mod32 [of T] T(2) by (simp add: boot_offsets)
  have pos: "(word_of_nat (T mod 512) :: 32 word) > 0 \<longleftrightarrow> T mod 512 \<noteq> 0"
    by (simp add: word_less_nat_alt unat_of_small less_trans [OF mod_less_divisor])
  have sub: "word_of_nat SECTOR_SIZE - word_of_nat (T mod 512) = (word_of_nat (512 - T mod 512) :: 32 word)"
    by (simp add: of_nat_diff boot_offsets less_imp_le)
  have dv: "(word_of_nat (T + pad_len T) :: 32 word) div word_of_nat SECTOR_SIZE = word_of_nat ((T + pad_len T) div 512)"
    using of_nat_div32 [of "T + pad_len T"] T(2) pad_len(1) [of T] by (simp add: boot_offsets)
  show ?thesis
  proof (cases "T mod 512 = 0")
    case True
    then have p: "pad_len T = 0" "paddings = 0" using pad by (simp_all add: pad_len_def)
    show ?thesis
      unfolding pack_header_def Let_def sum md pos
      using True dv by (simp add: p f_def)
  next
    case False
    then have p: "pad_len T = 512 - T mod 512" by (simp add: pad_len_def)
    have dv': "(word_of_nat T + word_of_nat (pad_len T) :: 32 word) div word_of_nat SECTOR_SIZE
        = word_of_nat ((T + pad_len T) div 512)"
      using dv by simp
    have sub': "word_of_nat SECTOR_SIZE - word_of_nat (T mod 512) = (word_of_nat (pad_len T) :: 32 word)"
      using sub p by simp
    show ?thesis
      unfolding pack_header_def Let_def sum md pos sub' f_def
      by (simp only: False dv' if_True not_False_eq_True prod.case)
  qed
qed

text \<open>What the tools rely on of the header that \<open>pack\<close> writes.\<close>

lemma copied_cmdline:
  fixes stub cmd h :: bytes
  assumes "length stub = sizeof_bootheader" and "length h = sizeof_bootheader"
    and "same_outside S (write_at stub off_cmdline (take CMDLINE_SIZE cmd)) h"
    and "\<And>i. i < CMDLINE_SIZE \<Longrightarrow> off_cmdline + i \<notin> S"
  shows "take CMDLINE_SIZE (drop off_cmdline h) =
    take CMDLINE_SIZE cmd @ take (CMDLINE_SIZE - length cmd) (drop (off_cmdline + length cmd) stub)" (is "?l = ?r")
proof (rule nth_equalityI)
  show "length ?l = length ?r" using assms(1,2) by (simp add: boot_offsets)
  fix i assume "i < length ?l"
  then have i: "i < 1024" by (simp add: boot_offsets)
  have "h ! (992 + i) = write_at stub off_cmdline (take CMDLINE_SIZE cmd) ! (992 + i)"
    using assms(1,3) assms(4) [of i] i by (simp add: same_outside_def boot_offsets)
  also have "\<dots> = (if i < length cmd then cmd ! i else stub ! (992 + i))"
    using i assms(1) by (simp add: write_at_nth boot_offsets)
  finally have "?l ! i = (if i < length cmd then cmd ! i else stub ! (992 + i))"
    using i assms(2) by (simp add: boot_offsets)
  also have "\<dots> = ?r ! i" using i assms(1) by (auto simp: boot_offsets nth_append)
  finally show "?l ! i = ?r ! i" .
qed

lemma packed_header:
  fixes stub cmd :: bytes and b r s :: "32 word"
  assumes "length stub = sizeof_bootheader"
  defines "f \<equiv> write32 (write32 (write32 (copy_cmdline cmd stub) off_bzImageSize b) off_initrdSize r) off_sectors s"
  defines "h \<equiv> f[off_xor := calculate_checksum f]"
  shows "length h = sizeof_bootheader" "le32_at h off_bzImageSize = b" "le32_at h off_initrdSize = r"
    "le32_at h off_sectors = s" "xor_bytes h HEADER_SIZE = 0"
    "take CMDLINE_SIZE (drop off_cmdline h) =
       take CMDLINE_SIZE cmd @ take (CMDLINE_SIZE - length cmd) (drop (off_cmdline + length cmd) stub)"
    "same_outside ({off_xor} \<union> {off_sectors..<off_sectors + 4} \<union> {off_cmdline..<off_initrdSize + 4}) stub h"
proof -
  define f1 where "f1 = copy_cmdline cmd stub"
  define f2 where "f2 = write32 f1 off_bzImageSize b"
  define f3 where "f3 = write32 f2 off_initrdSize r"
  have f: "f = write32 f3 off_sectors s" by (simp add: f_def f1_def f2_def f3_def)
  have f1: "f1 = write_at stub off_cmdline (take CMDLINE_SIZE cmd)"
    using assms(1) by (simp add: f1_def copy_cmdline_eq boot_offsets)
  have s1: "same_outside {off_cmdline..<off_bzImageSize} stub f1"
    using same_outside_mono [OF same_outside_write_at [of off_cmdline "take CMDLINE_SIZE cmd" stub]] assms(1)
    by (simp add: f1 boot_offsets)
  then have l1: "length f1 = 13280" using assms(1) by (simp add: same_outside_def boot_offsets)
  have s2: "same_outside {off_bzImageSize..<off_bzImageSize + 4} f1 f2"
    unfolding f2_def by (rule same_outside_write32) (simp add: l1 boot_offsets)
  then have l2: "length f2 = 13280" using l1 by (simp add: same_outside_def)
  have s3: "same_outside {off_initrdSize..<off_initrdSize + 4} f2 f3"
    unfolding f3_def by (rule same_outside_write32) (simp add: l2 boot_offsets)
  then have l3: "length f3 = 13280" using l2 by (simp add: same_outside_def)
  have s4: "same_outside {off_sectors..<off_sectors + 4} f3 f"
    unfolding f by (rule same_outside_write32) (simp add: l3 boot_offsets)
  then have l4: "length f = 13280" using l3 by (simp add: same_outside_def)
  have s5: "same_outside {off_xor} f h" unfolding h_def by (rule same_outside_update)
  show lh: "length h = sizeof_bootheader" using l4 by (simp add: h_def boot_offsets)
  have "le32_at f off_sectors = s" unfolding f by (rule le32_at_write32_same) (simp add: l3 boot_offsets)
  then show "le32_at h off_sectors = s"
    using same_outside_le32 [OF s5, of off_sectors] l4 by (simp add: boot_offsets)
  have s45: "same_outside ({off_sectors..<off_sectors + 4} \<union> {off_xor}) f3 h" by (rule same_outside_trans [OF s4 s5])
  have "le32_at f3 off_initrdSize = r" unfolding f3_def by (rule le32_at_write32_same) (simp add: l2 boot_offsets)
  then show "le32_at h off_initrdSize = r"
    using same_outside_le32 [OF s45, of off_initrdSize] l3 by (simp add: boot_offsets)
  have s345: "same_outside ({off_initrdSize..<off_initrdSize + 4} \<union> ({off_sectors..<off_sectors + 4} \<union> {off_xor})) f2 h"
    by (rule same_outside_trans [OF s3 s45])
  have "le32_at f2 off_bzImageSize = b" unfolding f2_def by (rule le32_at_write32_same) (simp add: l1 boot_offsets)
  then show "le32_at h off_bzImageSize = b"
    using same_outside_le32 [OF s345, of off_bzImageSize] l2 by (simp add: boot_offsets disjoint_iff)
  show "xor_bytes h HEADER_SIZE = 0" unfolding h_def by (rule checksum_clears) (simp add: l4 boot_offsets)
  have s2345: "same_outside ({off_bzImageSize..<off_bzImageSize + 4} \<union>
      ({off_initrdSize..<off_initrdSize + 4} \<union> ({off_sectors..<off_sectors + 4} \<union> {off_xor}))) f1 h"
    by (rule same_outside_trans [OF s2 s345])
  show "same_outside ({off_xor} \<union> {off_sectors..<off_sectors + 4} \<union> {off_cmdline..<off_initrdSize + 4}) stub h"
    by (rule same_outside_mono [OF same_outside_trans [OF s1 s2345]]) (auto simp: boot_offsets)
  show "take CMDLINE_SIZE (drop off_cmdline h) =
      take CMDLINE_SIZE cmd @ take (CMDLINE_SIZE - length cmd) (drop (off_cmdline + length cmd) stub)"
    by (rule copied_cmdline [OF assms(1) lh s2345 [unfolded f1]]) (auto simp: boot_offsets)
qed

section \<open>Properties\<close>

text \<open>All the files open and have the sizes that the tool can handle.\<close>

definition packable :: "pack_env \<Rightarrow> bool" where
  "packable e \<longleftrightarrow> argc e = 6 \<and> fopen_ok (origin e) \<and> output_ok e \<and> calloc_ok e
     \<and> fopen_ok (cmdline e) \<and> fopen_ok (bzImage e) \<and> stat_ok (bzImage e) \<and> fopen_ok (ramdisk e) \<and> stat_ok (ramdisk e)
     \<and> sizeof_bootheader \<le> length (content (origin e)) \<and> 512 \<le> BUFSIZ e"

definition image_size :: "pack_env \<Rightarrow> nat" where
  "image_size e = length (content (bzImage e)) + sizeof_bootheader + length (content (ramdisk e))"

definition unpack_opens :: "unpack_env \<Rightarrow> bool" where
  "unpack_opens e \<longleftrightarrow> uargc e = 5 \<and> forigin_ok e \<and> fbzImage_ok e \<and> framdisk_ok e \<and> fcmdline_ok e \<and> 0 < UBUFSIZ e"

lemma pack_result:
  assumes e: "packable e" and fits: "image_size e + 512 \<le> 2 ^ 32" "image_size e + 512 \<le> room e"
    and pad: "image_size e mod 512 \<noteq> 0 \<or> stale e = 0"
  defines "f \<equiv> write32 (write32 (write32 (copy_cmdline (content (cmdline e)) (take sizeof_bootheader (content (origin e))))
        off_bzImageSize (word_of_nat (length (content (bzImage e)))))
        off_initrdSize (word_of_nat (length (content (ramdisk e)))))
        off_sectors (word_of_nat ((image_size e + pad_len (image_size e)) div 512) - 1)"
  shows "pack e = Inr (0, f[off_xor := calculate_checksum f] @ content (bzImage e) @ content (ramdisk e)
      @ replicate (pad_len (image_size e)) 0xff)"
proof -
  let ?T = "image_size e" and ?bz = "content (bzImage e)" and ?rd = "content (ramdisk e)"
  let ?stub = "take sizeof_bootheader (content (origin e))"
  let ?h = "f[off_xor := calculate_checksum f]"
  have hdr: "pack_header ?stub (content (cmdline e)) (length ?bz) (length ?rd) (stale e) = (?h, word_of_nat (pad_len ?T))"
    unfolding f_def by (rule pack_header_eq [OF image_size_def fits(1) pad])
  have lh: "length ?h = sizeof_bootheader"
    unfolding f_def by (rule packed_header(1)) (use e in \<open>simp add: packable_def\<close>)
  then have lT: "length ?h + length ?bz + length ?rd = ?T" by (simp add: image_size_def)
  have pl: "pad_len ?T < 512" by (rule pad_len)
  have un: "unat (word_of_nat (pad_len ?T) :: 32 word) = pad_len ?T" using pl by (simp add: unat_of_small)
  have zero: "(word_of_nat (pad_len ?T) :: 32 word) = 0 \<longleftrightarrow> pad_len ?T = 0"
    unfolding word_unat_eq_iff un by simp
  have w1: "fwrite (room e) ?h [] = ?h" using lT fits by (simp add: fwrite_def)
  have w2: "copy_file (room e) (BUFSIZ e) ?bz ?h = ?h @ ?bz"
    using copy_file_result [of "BUFSIZ e" ?h "room e" ?bz] lT fits e by (simp add: packable_def)
  have w3: "copy_file (room e) (BUFSIZ e) ?rd (?h @ ?bz) = ?h @ ?bz @ ?rd"
    using copy_file_result [of "BUFSIZ e" "?h @ ?bz" "room e" ?rd] lT fits e by (simp add: packable_def)
  have w4: "fwrite (room e) (replicate (pad_len ?T) 0xff) (?h @ ?bz @ ?rd) = ?h @ ?bz @ ?rd @ replicate (pad_len ?T) 0xff"
    using lT fits pl by (simp add: fwrite_def)
  have "pack e = (let out = ?h @ ?bz @ ?rd in if pad_len ?T = 0 then Inr (0, out)
      else Inr (0, out @ replicate (pad_len ?T) 0xff))"
    using e pl unfolding pack_def hdr Let_def prod.case w1 w2 w3 w4 un zero
    by (simp add: packable_def)
  then show ?thesis by (auto simp: Let_def)
qed

text \<open>An image that starts with the header \<open>h\<close>, and what \<open>unpack\<close> makes of it.\<close>

lemma image_prefix:
  assumes "length h = sizeof_bootheader"
  shows "take sizeof_bootheader (h @ rest) = h"
    and "k + 4 \<le> 13280 \<Longrightarrow> le32_at (h @ rest) k = le32_at h k"
    and "n \<le> 13280 \<Longrightarrow> xor_bytes (h @ rest) n = xor_bytes h n"
proof -
  have pre: "j < 13280 \<Longrightarrow> (h @ rest) ! j = h ! j" for j using assms by (simp add: nth_append boot_offsets)
  show "take sizeof_bootheader (h @ rest) = h" using assms by simp
  show "k + 4 \<le> 13280 \<Longrightarrow> le32_at (h @ rest) k = le32_at h k" by (rule le32_at_cong) (simp add: pre)
  show "n \<le> 13280 \<Longrightarrow> xor_bytes (h @ rest) n = xor_bytes h n" by (induction n) (simp_all add: xor_bytes_simps pre)
qed

lemma unpack_layout:
  assumes h: "length h = sizeof_bootheader" "le32_at h off_bzImageSize = word_of_nat (length bz)"
      "le32_at h off_initrdSize = word_of_nat (length rd)"
    and small: "length bz < 2 ^ 32" "length rd < 2 ^ 32" and ue: "unpack_opens ue"
  shows "unpack ue (h @ bz @ rd @ pad) =
    Some (Inr \<lparr>status = 0, bz_out = bz, rd_out = rd, cmd_out = take CMDLINE_SIZE (drop off_cmdline h)\<rparr>)"
proof -
  let ?img = "h @ bz @ rd @ pad"
  have lh: "length h = 13280" using h(1) by (simp add: boot_offsets)
  note le = image_prefix(2) [OF h(1), where rest = "bz @ rd @ pad"]
  have r1: "read32 ?img CMDLINE_END = Some (word_of_nat (length bz))"
    using le [of 2016] h(2) lh by (simp add: read32_def boot_offsets)
  have r2: "read32 ?img (CMDLINE_END + 4) = Some (word_of_nat (length rd))"
    using le [of 2020] h(3) lh by (simp add: read32_def boot_offsets)
  have ub: "0 < UBUFSIZ ue" using ue by (simp add: unpack_opens_def)
  note co = copy_out_complete [OF ub, of _ _ ?img "[]"]
  have c1: "copy_out (UBUFSIZ ue) ?img CMDLINE_START CMDLINE_SIZE [] = Some (take CMDLINE_SIZE (drop off_cmdline h))"
    using co [of CMDLINE_START CMDLINE_SIZE] lh by (simp add: boot_offsets)
  have c2: "copy_out (UBUFSIZ ue) ?img sizeof_bootheader (length bz) [] = Some bz"
    using co [of sizeof_bootheader "length bz"] lh by (simp add: boot_offsets)
  have c3: "copy_out (UBUFSIZ ue) ?img (sizeof_bootheader + length bz) (length rd) [] = Some rd"
    using co [of "sizeof_bootheader + length bz" "length rd"] lh by (simp add: boot_offsets)
  show ?thesis
    using ue unfolding unpack_def Let_def c1 option.case r1 r2
    by (simp add: unpack_opens_def unat_of_small [OF small(1)] unat_of_small [OF small(2)] c2 c3)
qed

text \<open>
  C13. Packing and unpacking fit together: an image packed from files that open and together take less than 4 GB
  unpacks to the same kernel and ramdisk, and to the command line followed by what the original
  image had behind it in the field. The image is a whole number of sectors, the header says how many
  follow the first, the XOR of its 56 checked bytes is zero, and the rest of the stub is the original's. For an
  image that needs no padding the variable that counts the padding must happen to hold 0.
\<close>

theorem unpack_of_pack:
  assumes "packable e" and "image_size e + 512 \<le> 2 ^ 32" "image_size e + 512 \<le> room e"
    and "image_size e mod 512 \<noteq> 0 \<or> stale e = 0" and "unpack_opens ue"
  shows "\<exists>img. pack e = Inr (0, img) \<and>
    unpack ue img = Some (Inr \<lparr>status = 0, bz_out = content (bzImage e), rd_out = content (ramdisk e),
      cmd_out = take CMDLINE_SIZE (content (cmdline e)) @
        take (CMDLINE_SIZE - length (content (cmdline e))) (drop (off_cmdline + length (content (cmdline e))) (content (origin e)))\<rparr>) \<and>
    length img mod SECTOR_SIZE = 0 \<and> le32_at img off_sectors = word_of_nat (length img div SECTOR_SIZE) - 1 \<and>
    xor_bytes img HEADER_SIZE = 0 \<and>
    same_outside ({off_xor} \<union> {off_sectors..<off_sectors + 4} \<union> {off_cmdline..<off_initrdSize + 4})
      (take sizeof_bootheader (content (origin e))) (take sizeof_bootheader img)"
proof -
  let ?T = "image_size e" and ?bz = "content (bzImage e)" and ?rd = "content (ramdisk e)" and ?cmd = "content (cmdline e)"
  define stub where "stub = take sizeof_bootheader (content (origin e))"
  define f where "f = write32 (write32 (write32 (copy_cmdline ?cmd stub) off_bzImageSize (word_of_nat (length ?bz)))
        off_initrdSize (word_of_nat (length ?rd))) off_sectors (word_of_nat ((?T + pad_len ?T) div 512) - 1)"
  define h where "h = f[off_xor := calculate_checksum f]"
  define img where "img = h @ ?bz @ ?rd @ replicate (pad_len ?T) 0xff"
  have ls: "length stub = sizeof_bootheader" using assms(1) by (simp add: stub_def packable_def)
  note H = packed_header [OF ls, of ?cmd "word_of_nat (length ?bz)" "word_of_nat (length ?rd)"
      "word_of_nat ((?T + pad_len ?T) div 512) - 1", folded f_def, folded h_def]
  have pk: "pack e = Inr (0, img)"
    using pack_result [OF assms(1-4)] by (simp add: img_def h_def f_def stub_def)
  have len: "length img = ?T + pad_len ?T" by (simp add: img_def H(1) image_size_def)
  note P = image_prefix [OF H(1), where rest = "?bz @ ?rd @ replicate (pad_len ?T) 0xff", folded img_def]
  have unp: "unpack ue img = Some (Inr \<lparr>status = 0, bz_out = ?bz, rd_out = ?rd,
      cmd_out = take CMDLINE_SIZE (drop off_cmdline h)\<rparr>)"
    unfolding img_def using assms(2,5) H(1-3) by (intro unpack_layout) (simp_all add: image_size_def)
  have cm: "take CMDLINE_SIZE (drop off_cmdline h) = take CMDLINE_SIZE ?cmd @
      take (CMDLINE_SIZE - length ?cmd) (drop (off_cmdline + length ?cmd) (content (origin e)))"
    using H(6) by (simp add: stub_def drop_take boot_offsets min_def)
  have out: "same_outside ({off_xor} \<union> {off_sectors..<off_sectors + 4} \<union> {off_cmdline..<off_initrdSize + 4})
      (take sizeof_bootheader (content (origin e))) (take sizeof_bootheader img)"
    using H(7) P(1) by (simp only: stub_def)
  have sec: "le32_at img off_sectors = word_of_nat (length img div SECTOR_SIZE) - 1"
    using H(4) P(2) [of 48] unfolding len boot_offsets by simp
  have xr: "xor_bytes img HEADER_SIZE = 0" using H(5) P(3) [of 56] unfolding boot_offsets by simp
  have md: "length img mod SECTOR_SIZE = 0" using pad_len(2) [of ?T] by (simp only: len boot_offsets)
  show ?thesis
    by (rule exI [of _ img], intro conjI, rule pk, rule unp [unfolded cm], rule md, rule sec, rule xr, rule out)
qed

theorem unpack_of_pack_witness:
  "let f = (\<lambda>bs. \<lparr>fopen_ok = True, stat_ok = True, content = bs\<rparr>);
       e = \<lparr>argc = 6, origin = f (replicate 13280 7), bzImage = f [1, 2, 3], ramdisk = f [4, 5], cmdline = f [65, 66],
            output_ok = True, room = 100000, calloc_ok = True, BUFSIZ = 8192, stale = 12345\<rparr>;
       ue = \<lparr>uargc = 5, forigin_ok = True, fbzImage_ok = True, framdisk_ok = True, fcmdline_ok = True, UBUFSIZ = 8192\<rparr>
   in \<exists>img u. pack e = Inr (0, img) \<and> unpack ue img = Some (Inr u) \<and> bz_out u = [1, 2, 3] \<and> rd_out u = [4, 5]"
proof -
  let ?f = "\<lambda>bs. \<lparr>fopen_ok = True, stat_ok = True, content = bs\<rparr>"
  let ?e = "\<lparr>argc = 6, origin = ?f (replicate 13280 7), bzImage = ?f [1, 2, 3], ramdisk = ?f [4, 5], cmdline = ?f [65, 66],
            output_ok = True, room = 100000, calloc_ok = True, BUFSIZ = 8192, stale = 12345\<rparr>"
  let ?ue = "\<lparr>uargc = 5, forigin_ok = True, fbzImage_ok = True, framdisk_ok = True, fcmdline_ok = True, UBUFSIZ = 8192\<rparr>"
  have "image_size ?e = 13285" by (simp add: image_size_def boot_offsets)
  then have h: "packable ?e" "image_size ?e + 512 \<le> 2 ^ 32" "image_size ?e + 512 \<le> room ?e"
    "image_size ?e mod 512 \<noteq> 0 \<or> stale ?e = 0" "unpack_opens ?ue"
    by (simp_all add: packable_def unpack_opens_def boot_offsets)
  obtain img where "pack ?e = Inr (0, img)" and "\<exists>cmd. unpack ?ue img = Some (Inr \<lparr>status = 0, bz_out = content (bzImage ?e),
      rd_out = content (ramdisk ?e), cmd_out = cmd\<rparr>)"
    using unpack_of_pack [OF h] by (elim exE conjE) (rule that, assumption, rule exI)
  then show ?thesis unfolding Let_def by fastforce
qed

text \<open>
  C14. On files that open, \<open>unpack\<close> returns exactly when the image has the whole command line and, if it also
  has the two lengths, as much kernel and ramdisk as they say; on any other image it reads the
  end of the file for ever.
\<close>

theorem unpack_returns_iff:
  assumes "unpack_opens e"
  shows "(\<exists>r. unpack e img = Some r) \<longleftrightarrow> length img \<ge> CMDLINE_END \<and>
    (length img \<ge> CMDLINE_END + 8 \<longrightarrow>
      (let b = unat (le32_at img CMDLINE_END); r = unat (le32_at img (CMDLINE_END + 4))
       in (b = 0 \<or> sizeof_bootheader + b \<le> length img) \<and> (r = 0 \<or> sizeof_bootheader + b + r \<le> length img)))"
proof -
  have ub: "0 < UBUFSIZ e" using assms by (simp add: unpack_opens_def)
  have ret: "(\<exists>r. copy_out (UBUFSIZ e) img pos n [] = Some r) \<longleftrightarrow> n = 0 \<or> pos + n \<le> length img" for pos n
  proof -
    have "copy_out (UBUFSIZ e) img pos 0 [] = Some []" by (subst copy_out.simps) simp
    then show ?thesis using copy_out_complete [OF ub, of pos n img "[]"] copy_out_short [of "UBUFSIZ e" img pos n "[]"]
      by (metis copy_out_short)
  qed
  let ?c = "copy_out (UBUFSIZ e) img CMDLINE_START CMDLINE_SIZE []"
  let ?b = "unat (le32_at img CMDLINE_END)" and ?r = "unat (le32_at img (CMDLINE_END + 4))"
  let ?cb = "copy_out (UBUFSIZ e) img sizeof_bootheader ?b []"
  let ?cr = "copy_out (UBUFSIZ e) img (sizeof_bootheader + ?b) ?r []"
  have "(\<exists>r. unpack e img = Some r) \<longleftrightarrow>
      (\<exists>r. ?c = Some r) \<and> (length img \<ge> CMDLINE_END + 8 \<longrightarrow> (\<exists>r. ?cb = Some r) \<and> (\<exists>r. ?cr = Some r))"
    using assms unfolding unpack_def Let_def read32_def unpack_opens_def
    by (auto simp: boot_offsets split: option.splits)
  also have "\<dots> \<longleftrightarrow> length img \<ge> CMDLINE_END \<and> (length img \<ge> CMDLINE_END + 8 \<longrightarrow>
      (?b = 0 \<or> sizeof_bootheader + ?b \<le> length img) \<and> (?r = 0 \<or> sizeof_bootheader + ?b + ?r \<le> length img))"
    unfolding ret by (simp add: boot_offsets)
  finally show ?thesis by (simp add: Let_def)
qed

theorem unpack_returns_iff_witness:
  "\<not> (\<exists>r. unpack \<lparr>uargc = 5, forigin_ok = True, fbzImage_ok = True, framdisk_ok = True, fcmdline_ok = True, UBUFSIZ = 8192\<rparr>
      (replicate 1000 0) = Some r)"
  by (subst unpack_returns_iff) (simp_all add: unpack_opens_def boot_offsets)

end
