(* ===== verification/SensorManager.thy ===== *)
theory SensorManager
  imports Prelude
begin

text \<open>
  \<^verbatim>\<open>libshims/gui/SensorManager.cpp\<close>: the client of the sensor service that old binaries link. The service
  manager and the service are parameters whose answers may depend on the calls so far; what a sensor is
  is its type and whether it wakes the system.
\<close>

section \<open>The service\<close>

datatype scall = GetService | Usleep int | GetSensorList | CreateConnection

type_synonym scalls = "scall list"

record sensor =
  sensor_type :: int
  isWakeUpSensor :: bool

text \<open>\<open>getService\<close> gives a status; \<open>createSensorEventConnection\<close> a connection or null.\<close>

record sensor_env =
  NAME_NOT_FOUND :: int
  service_status :: "scalls \<Rightarrow> int"
  sensor_list :: "scalls \<Rightarrow> sensor list"
  connection :: "scalls \<Rightarrow> nat option"
  wake_up_types :: "int list"

record sensor_manager =
  mSensorServer :: bool
  mSensorList :: "sensor list"
  mSensors :: "sensor list"
  calls :: scalls

definition initial_manager :: sensor_manager where
  "initial_manager = \<lparr>mSensorServer = False, mSensorList = [], mSensors = [], calls = []\<rparr>"

definition call :: "scall \<Rightarrow> sensor_manager \<Rightarrow> sensor_manager" where
  "call c m = m\<lparr>calls := calls m @ [c]\<rparr>"

section \<open>Operations\<close>

definition sensorManagerDied :: "sensor_manager \<Rightarrow> sensor_manager" where
  "sensorManagerDied m = m\<lparr>mSensorServer := False, mSensorList := [], mSensors := []\<rparr>"

text \<open>The four tries from the \<open>i\<close>-th on, with the status of the last one.\<close>

function try_service :: "sensor_env \<Rightarrow> int \<Rightarrow> int \<Rightarrow> sensor_manager \<Rightarrow> int \<times> sensor_manager" where
  "try_service e i err m =
     (if i < 4
      then
        let m = (if i > 0 then call (Usleep 250000) m else m);
            err = service_status e (calls m);
            m = call GetService m
        in if err \<noteq> NAME_NOT_FOUND e then (err, m) else try_service e (i + 1) err m
      else (err, m))"
  by pat_completeness auto
termination by (relation "measure (\<lambda>(e, i, err, m). nat (4 - i))") auto

declare try_service.simps [simp del]

definition assertStateLocked :: "sensor_env \<Rightarrow> sensor_manager \<Rightarrow> int \<times> sensor_manager" where
  "assertStateLocked e m =
     (if \<not> mSensorServer m
      then
        let (err, m) = try_service e 0 0 m
        in if err \<noteq> 0 then (err, m)
           else
             let sensors = sensor_list e (calls m); m = call GetSensorList m
             in (0, m\<lparr>mSensorServer := True, mSensors := sensors, mSensorList := map (\<lambda>i. sensors ! i) [0..<length sensors]\<rparr>)
      else (0, m))"

definition SensorManager_new :: "sensor_env \<Rightarrow> sensor_manager" where
  "SensorManager_new e = snd (assertStateLocked e initial_manager)"

text \<open>The result, and the list stored through the argument, if one is.\<close>

definition getSensorList :: "sensor_env \<Rightarrow> sensor_manager \<Rightarrow> int \<times> sensor list option \<times> sensor_manager" where
  "getSensorList e m =
     (let (err, m) = assertStateLocked e m
      in if err < 0 then (err, None, m) else (int (length (mSensors m)), Some (mSensorList m), m))"

text \<open>The loop over the sensors.\<close>

fun first_sensor :: "int \<Rightarrow> bool \<Rightarrow> sensor list \<Rightarrow> sensor option" where
  "first_sensor type wakeUpSensor [] = None"
| "first_sensor type wakeUpSensor (s # ss) =
     (if sensor_type s = type \<and> isWakeUpSensor s = wakeUpSensor then Some s else first_sensor type wakeUpSensor ss)"

definition getDefaultSensor :: "sensor_env \<Rightarrow> int \<Rightarrow> sensor_manager \<Rightarrow> sensor option \<times> sensor_manager" where
  "getDefaultSensor e type m =
     (let (err, m) = assertStateLocked e m
      in if err = 0 then (first_sensor type (type \<in> set (wake_up_types e)) (mSensorList m), m) else (None, m))"

text \<open>
  The loop of \<open>createEventQueue\<close>, which holds the lock that \<open>sensorManagerDied\<close> takes; \<open>None\<close> is a loop that
  never ends. The queue is its connection.
\<close>

partial_function (option) createEventQueue :: "sensor_env \<Rightarrow> sensor_manager \<Rightarrow> (nat option \<times> sensor_manager) option" where
  "createEventQueue e m =
     (let (err, m) = assertStateLocked e m
      in if err = 0
         then
           let c = connection e (calls m); m = call CreateConnection m
           in case c of None \<Rightarrow> createEventQueue e m | Some q \<Rightarrow> Some (Some q, m)
         else Some (None, m))"

section \<open>Lemmas\<close>

lemma assert_connected: "mSensorServer m \<Longrightarrow> assertStateLocked e m = (0, m)"
  by (simp add: assertStateLocked_def)

lemma assert_connects: "assertStateLocked e m = (0, m') \<Longrightarrow> mSensorServer m'"
  by (auto simp: assertStateLocked_def Let_def split: if_splits prod.splits)

text \<open>The state after \<open>n\<close> more calls for a connection.\<close>

definition asked :: "nat \<Rightarrow> sensor_manager \<Rightarrow> sensor_manager" where
  "asked n m = m\<lparr>calls := calls m @ replicate n CreateConnection\<rparr>"

lemma asked_Suc: "asked n (call CreateConnection m) = asked (Suc n) m"
  by (simp add: asked_def call_def)

lemma asked_call: "call CreateConnection (asked n m) = asked (Suc n) m"
  by (simp add: asked_def call_def replicate_append_same)

lemma createEventQueue_connected:
  "mSensorServer m \<Longrightarrow> createEventQueue e m =
    (case connection e (calls m) of None \<Rightarrow> createEventQueue e (call CreateConnection m)
     | Some q \<Rightarrow> Some (Some q, call CreateConnection m))"
  by (subst createEventQueue.simps) (simp add: assert_connected Let_def)

lemma createEventQueue_found:
  "mSensorServer m \<Longrightarrow> connection e (calls m @ replicate n CreateConnection) = Some q \<Longrightarrow>
    (\<And>k. k < n \<Longrightarrow> connection e (calls m @ replicate k CreateConnection) = None) \<Longrightarrow>
    createEventQueue e m = Some (Some q, asked (Suc n) m)"
proof (induction n arbitrary: m)
  case 0
  then show ?case using createEventQueue_connected [OF 0(1), of e] by (simp add: asked_def call_def)
next
  case (Suc n)
  have "createEventQueue e (call CreateConnection m) = Some (Some q, asked (Suc n) (call CreateConnection m))"
    by (rule Suc.IH) (use Suc.prems(1,2) Suc.prems(3) [of "Suc k" for k] in \<open>auto simp: call_def\<close>)
  moreover have "connection e (calls m) = None" using Suc.prems(3) [of 0] by simp
  ultimately show ?case using createEventQueue_connected [OF Suc.prems(1), of e] by (simp add: asked_Suc)
qed

lemma createEventQueue_returns:
  assumes "createEventQueue e m = Some r"
  shows "mSensorServer m \<Longrightarrow> \<exists>n q. connection e (calls m @ replicate n CreateConnection) = Some q"
proof (rule createEventQueue.raw_induct [where P = "\<lambda>e m r. mSensorServer m \<longrightarrow>
      (\<exists>n q. connection e (calls m @ replicate n CreateConnection) = Some q)", OF _ assms, THEN mp])
  fix f e m r
  assume IH: "\<And>e m r. f e m = Some r \<Longrightarrow> mSensorServer m \<longrightarrow>
      (\<exists>n q. connection e (calls m @ replicate n CreateConnection) = Some q)"
    and body: "(let (err, m) = assertStateLocked e m
      in if err = 0
         then let c = connection e (calls m); m = call CreateConnection m
           in case c of None \<Rightarrow> f e m | Some q \<Rightarrow> Some (Some q, m)
         else Some (None, m)) = Some r"
  show "mSensorServer m \<longrightarrow> (\<exists>n q. connection e (calls m @ replicate n CreateConnection) = Some q)"
  proof
    assume s: "mSensorServer m"
    show "\<exists>n q. connection e (calls m @ replicate n CreateConnection) = Some q"
    proof (cases "connection e (calls m)")
      case None
      then have "f e (call CreateConnection m) = Some r" using body s by (simp add: assert_connected Let_def)
      from IH [OF this] s obtain n q where "connection e (calls m @ replicate (Suc n) CreateConnection) = Some q"
        by (auto simp: call_def)
      then show ?thesis by blast
    next
      case (Some q)
      then show ?thesis by (intro exI [of _ 0] exI [of _ q]) simp
    qed
  qed
qed

text \<open>Connecting: at most four tries, with a pause before each but the first.\<close>

lemma try_service_calls:
  assumes "0 \<le> i" and "try_service e i err m = (r, m')"
  shows "\<exists>cs. calls m' = calls m @ cs \<and> length (filter ((=) GetService) cs) \<le> nat (4 - i) \<and>
    length (filter ((=) (Usleep 250000)) cs) \<le> nat (4 - max 1 i)"
  using assms
proof (induction e i err m arbitrary: r m' rule: try_service.induct)
  case (1 e i err m)
  show ?case
  proof (cases "i < 4")
    case False
    then show ?thesis using 1(3) by (auto simp: try_service.simps [of e i err m] intro!: exI [of _ "[]"])
  next
    case True
    define m1 where "m1 = (if i > 0 then call (Usleep 250000) m else m)"
    define c1 where "c1 = (if i > 0 then [Usleep 250000] else [])"
    have c: "calls (call GetService m1) = calls m @ c1 @ [GetService]" by (simp add: m1_def c1_def call_def)
    have k: "length (filter ((=) GetService) c1) = 0" "length (filter ((=) (Usleep 250000)) c1) = (if i > 0 then 1 else 0)"
      by (simp_all add: c1_def)
    show ?thesis
    proof (cases "service_status e (calls m1) = NAME_NOT_FOUND e")
      case False
      then have "(r, m') = (service_status e (calls m1), call GetService m1)"
        using 1(3) True by (subst (asm) try_service.simps) (simp add: Let_def m1_def)
      then show ?thesis using False c k True 1(2) by (intro exI [of _ "c1 @ [GetService]"]) auto
    next
      case nf: True
      have rec: "try_service e (i + 1) (NAME_NOT_FOUND e) (call GetService m1) = (r, m')"
        using 1(3) True nf by (subst (asm) try_service.simps) (simp add: Let_def m1_def)
      obtain cs where cs: "calls m' = calls (call GetService m1) @ cs"
        "length (filter ((=) GetService) cs) \<le> nat (4 - (i + 1))"
        "length (filter ((=) (Usleep 250000)) cs) \<le> nat (4 - max 1 (i + 1))"
        using 1(1) [OF True m1_def refl refl] nf 1(2) rec by (auto simp: nf)
      show ?thesis
        using cs c k True 1(2) by (intro exI [of _ "c1 @ [GetService] @ cs"]) (auto simp: max_def split: if_splits)
    qed
  qed
qed

section \<open>Properties\<close>

text \<open>
  Connecting to the service asks for it at most four times and pauses at most three times for
  a quarter of a second, then returns; a connected manager makes no call.
\<close>

theorem connecting_is_bounded:
  assumes "assertStateLocked e m = (err, m')"
  shows "\<exists>cs. calls m' = calls m @ cs \<and> (mSensorServer m \<longrightarrow> cs = [] \<and> err = 0) \<and>
    length (filter ((=) GetService) cs) \<le> 4 \<and> length (filter ((=) (Usleep 250000)) cs) \<le> 3"
proof (cases "mSensorServer m")
  case True
  then show ?thesis using assms by (auto simp: assert_connected)
next
  case False
  obtain r m1 where t: "try_service e 0 0 m = (r, m1)" by fastforce
  obtain cs where cs: "calls m1 = calls m @ cs" "length (filter ((=) GetService) cs) \<le> 4"
    "length (filter ((=) (Usleep 250000)) cs) \<le> 3"
    using try_service_calls [OF _ t] by auto
  have "calls m' = calls m @ cs \<or> calls m' = calls m @ cs @ [GetSensorList]"
    using assms False t cs(1) by (auto simp: assertStateLocked_def call_def Let_def split: if_splits)
  then show ?thesis using False cs by (elim disjE) (force, intro exI [of _ "cs @ [GetSensorList]"], force)
qed

definition demo_sensors :: "(scalls \<Rightarrow> int) \<Rightarrow> (scalls \<Rightarrow> nat option) \<Rightarrow> sensor_env" where
  "demo_sensors status conn = \<lparr>NAME_NOT_FOUND = -2, service_status = status,
     sensor_list = (\<lambda>cs. [\<lparr>sensor_type = 1, isWakeUpSensor = False\<rparr>]), connection = conn, wake_up_types = [8]\<rparr>"

theorem connecting_is_bounded_witness:
  "\<exists>cs. calls (snd (assertStateLocked (demo_sensors (\<lambda>cs. -2) (\<lambda>cs. None)) initial_manager)) = cs \<and>
    length (filter ((=) GetService) cs) \<le> 4 \<and> length (filter ((=) (Usleep 250000)) cs) \<le> 3"
  using connecting_is_bounded [of "demo_sensors (\<lambda>cs. -2) (\<lambda>cs. None)" initial_manager, OF prod.collapse [symmetric]]
  by (auto simp: initial_manager_def)

text \<open>
  C22. Once the service is found, \<open>createEventQueue\<close> returns exactly when one of the connections
  it asks for is not null, and then gives the first such; a service that has died and
  gives null for ever is asked for ever, since the loop holds the lock that the death
  notice needs to disconnect the manager.
\<close>

theorem createEventQueue_returns_iff:
  assumes "assertStateLocked e m = (0, m1)"
  shows "((\<exists>r. createEventQueue e m = Some r) \<longleftrightarrow>
      (\<exists>n q. connection e (calls m1 @ replicate n CreateConnection) = Some q)) \<and>
    (\<forall>n q. connection e (calls m1 @ replicate n CreateConnection) = Some q \<and>
        (\<forall>k<n. connection e (calls m1 @ replicate k CreateConnection) = None) \<longrightarrow>
      (\<exists>m2. createEventQueue e m = Some (Some q, m2)))"
proof -
  have s: "mSensorServer m1" by (rule assert_connects [OF assms])
  have eq: "createEventQueue e m = createEventQueue e m1"
    by (subst (1 2) createEventQueue.simps) (simp add: assms assert_connected [OF s])
  have first: "createEventQueue e m = Some (Some q, asked (Suc n) m1)"
    if "connection e (calls m1 @ replicate n CreateConnection) = Some q"
      "\<And>k. k < n \<Longrightarrow> connection e (calls m1 @ replicate k CreateConnection) = None" for n q
    unfolding eq by (rule createEventQueue_found [OF s that])
  have "\<exists>r. createEventQueue e m = Some r" if "\<exists>n q. connection e (calls m1 @ replicate n CreateConnection) = Some q"
  proof -
    note ex = that
    define n where "n = (LEAST n. \<exists>q. connection e (calls m1 @ replicate n CreateConnection) = Some q)"
    obtain q where "connection e (calls m1 @ replicate n CreateConnection) = Some q"
      using LeastI_ex [OF ex] unfolding n_def by blast
    moreover have "connection e (calls m1 @ replicate k CreateConnection) = None" if "k < n" for k
      using not_less_Least [OF that [unfolded n_def]] by simp
    ultimately show ?thesis using first by blast
  qed
  moreover have "\<exists>n q. connection e (calls m1 @ replicate n CreateConnection) = Some q" if "createEventQueue e m = Some r" for r
    using createEventQueue_returns [OF that [unfolded eq] s] .
  ultimately show ?thesis using first by blast
qed

theorem createEventQueue_returns_iff_witness:
  "(\<exists>m2. createEventQueue (demo_sensors (\<lambda>cs. 0) (\<lambda>cs. if length cs < 4 then None else Some 7)) initial_manager
      = Some (Some 7, m2)) \<and>
    \<not> (\<exists>r. createEventQueue (demo_sensors (\<lambda>cs. 0) (\<lambda>cs. None)) initial_manager = Some r)"
proof -
  have a: "assertStateLocked (demo_sensors (\<lambda>cs. 0) conn) initial_manager =
      (0, \<lparr>mSensorServer = True, mSensorList = [\<lparr>sensor_type = 1, isWakeUpSensor = False\<rparr>],
           mSensors = [\<lparr>sensor_type = 1, isWakeUpSensor = False\<rparr>], calls = [GetService, GetSensorList]\<rparr>)" for conn
    unfolding assertStateLocked_def by (subst try_service.simps) (simp add: demo_sensors_def initial_manager_def call_def Let_def)
  let ?late = "\<lambda>cs. if length cs < 4 then None else Some (7 :: nat)"
  have "connection (demo_sensors (\<lambda>cs. 0) ?late) ([GetService, GetSensorList] @ replicate 2 CreateConnection) = Some 7 \<and>
      (\<forall>k<2. connection (demo_sensors (\<lambda>cs. 0) ?late) ([GetService, GetSensorList] @ replicate k CreateConnection) = None)"
    by (simp add: demo_sensors_def)
  then have "\<exists>m2. createEventQueue (demo_sensors (\<lambda>cs. 0) ?late) initial_manager = Some (Some 7, m2)"
    using createEventQueue_returns_iff [OF a, of ?late] by fastforce
  moreover have "\<not> (\<exists>r. createEventQueue (demo_sensors (\<lambda>cs. 0) (\<lambda>cs. None)) initial_manager = Some r)"
    using createEventQueue_returns_iff [OF a, of "\<lambda>cs. None"] by (simp add: demo_sensors_def)
  ultimately show ?thesis ..
qed

end
