(* ===== verification/SensorService.thy ===== *)
theory SensorService
  imports SensorManager
begin

text \<open>
  \<^verbatim>\<open>libshims/gui/SensorManager.cpp\<close> with its lock, in a process with any number of clients, against a
  service that dies and is started again. The service's instances are numbered; a manager that is
  connected keeps the proxy of one instance. Every call that leaves the process is one step, so the
  service may die between any two calls of an operation: \<open>getService\<close>, \<open>linkToDeath\<close>, \<open>getSensorList\<close> and
  \<open>createSensorEventConnection\<close>. The notice of a death is given by another thread, which has to take \<open>mLock\<close>.
  The constructor runs without the lock, and before any client has the manager.
\<close>

section \<open>The process and the service\<close>

datatype sensor_op = Construct | ListSensors | DefaultSensor int | CreateQueue

text \<open>
  Where an operation is: in \<open>assertStateLocked\<close> before try \<open>i\<close>, before \<open>linkToDeath\<close> or before \<open>getSensorList\<close>,
  or after it has returned \<open>NO_ERROR\<close>.
\<close>

datatype sensor_pc = Try int | Link | List | Asserted

record sensor_process =
  sp_manager :: sensor_manager
  sp_task :: "(nat \<times> sensor_op \<times> sensor_pc) option"  \<comment> \<open>the client in an operation\<close>
  sp_proxy :: nat                 \<comment> \<open>the instance that \<open>mSensorServer\<close> stands for, if it is not null\<close>
  sp_linked :: bool               \<comment> \<open>\<open>linkToDeath\<close> on that instance has succeeded\<close>
  sp_service :: "nat option"      \<comment> \<open>the instance that is running\<close>
  sp_started :: nat
  sp_notice :: bool               \<comment> \<open>\<open>binderDied\<close> was called and has not got the lock\<close>
  sp_crashed :: bool              \<comment> \<open>a null \<open>mSensorServer\<close> was called\<close>

definition assert_start :: "sensor_manager \<Rightarrow> sensor_pc" where
  "assert_start m = (if mSensorServer m then Asserted else Try 0)"

text \<open>Try \<open>i\<close>, with the pause before it.\<close>

definition tried :: "int \<Rightarrow> sensor_manager \<Rightarrow> sensor_manager" where
  "tried i m = call GetService (if i > 0 then call (Usleep 250000) m else m)"

definition lock_free :: "sensor_process \<Rightarrow> bool" where
  "lock_free s \<longleftrightarrow> (case sp_task s of None \<Rightarrow> True | Some (c, op, pc) \<Rightarrow> op = Construct)"

definition proxy_alive :: "sensor_process \<Rightarrow> bool" where
  "proxy_alive s \<longleftrightarrow> sp_service s = Some (sp_proxy s)"

text \<open>
  \<open>getService\<close> finds the running instance or fails; \<open>linkToDeath\<close> succeeds if the instance is running, and its
  result is not looked at; a call through a proxy gives a connection only if the instance is running.
\<close>

inductive process_step :: "sensor_process \<Rightarrow> sensor_process \<Rightarrow> bool" where
  begins: "\<not> sp_crashed s \<Longrightarrow> sp_task s = None \<Longrightarrow> op \<noteq> Construct \<Longrightarrow>
    process_step s (s\<lparr>sp_task := Some (c, op, assert_start (sp_manager s))\<rparr>)"
| try_finds: "\<not> sp_crashed s \<Longrightarrow> sp_task s = Some (c, op, Try i) \<Longrightarrow> sp_service s = Some k \<Longrightarrow>
    process_step s (s\<lparr>sp_manager := (tried i (sp_manager s))\<lparr>mSensorServer := True\<rparr>,
      sp_proxy := k, sp_linked := False, sp_task := Some (c, op, Link)\<rparr>)"
| try_again: "\<not> sp_crashed s \<Longrightarrow> sp_task s = Some (c, op, Try i) \<Longrightarrow> sp_service s = None \<Longrightarrow> i + 1 < 4 \<Longrightarrow>
    process_step s (s\<lparr>sp_manager := tried i (sp_manager s), sp_task := Some (c, op, Try (i + 1))\<rparr>)"
| gives_up: "\<not> sp_crashed s \<Longrightarrow> sp_task s = Some (c, op, Try i) \<Longrightarrow> sp_service s = None \<Longrightarrow> \<not> i + 1 < 4 \<Longrightarrow>
    process_step s (s\<lparr>sp_manager := tried i (sp_manager s), sp_task := None\<rparr>)"
| links: "\<not> sp_crashed s \<Longrightarrow> sp_task s = Some (c, op, Link) \<Longrightarrow>
    process_step s (s\<lparr>sp_linked := proxy_alive s, sp_task := Some (c, op, List)\<rparr>)"
| lists: "\<not> sp_crashed s \<Longrightarrow> sp_task s = Some (c, op, List) \<Longrightarrow> mSensorServer (sp_manager s) \<Longrightarrow>
    process_step s (s\<lparr>sp_manager := (call GetSensorList (sp_manager s))\<lparr>mSensors := l, mSensorList := l\<rparr>,
      sp_task := Some (c, op, Asserted)\<rparr>)"
| lists_null: "\<not> sp_crashed s \<Longrightarrow> sp_task s = Some (c, op, List) \<Longrightarrow> \<not> mSensorServer (sp_manager s) \<Longrightarrow>
    process_step s (s\<lparr>sp_crashed := True\<rparr>)"
| returns: "\<not> sp_crashed s \<Longrightarrow> sp_task s = Some (c, op, Asserted) \<Longrightarrow> op \<noteq> CreateQueue \<Longrightarrow>
    process_step s (s\<lparr>sp_task := None\<rparr>)"
| create_again: "\<not> sp_crashed s \<Longrightarrow> sp_task s = Some (c, CreateQueue, Asserted) \<Longrightarrow>
    process_step s (s\<lparr>sp_manager := call CreateConnection (sp_manager s),
      sp_task := Some (c, CreateQueue, assert_start (sp_manager s))\<rparr>)"
| create_gives: "\<not> sp_crashed s \<Longrightarrow> sp_task s = Some (c, CreateQueue, Asserted) \<Longrightarrow> proxy_alive s \<Longrightarrow>
    process_step s (s\<lparr>sp_manager := call CreateConnection (sp_manager s), sp_task := None\<rparr>)"
| service_dies: "\<not> sp_crashed s \<Longrightarrow> sp_service s = Some k \<Longrightarrow> process_step s (s\<lparr>sp_service := None,
      sp_notice := (sp_notice s \<or> mSensorServer (sp_manager s) \<and> sp_linked s \<and> sp_proxy s = k)\<rparr>)"
| service_starts: "\<not> sp_crashed s \<Longrightarrow> sp_service s = None \<Longrightarrow>
    process_step s (s\<lparr>sp_service := Some (sp_started s), sp_started := sp_started s + 1\<rparr>)"
| death_notice: "\<not> sp_crashed s \<Longrightarrow> lock_free s \<Longrightarrow> sp_notice s \<Longrightarrow>
    process_step s (s\<lparr>sp_manager := sensorManagerDied (sp_manager s), sp_linked := False, sp_notice := False\<rparr>)"

text \<open>The manager is made when the first client asks for it; instance 0 may be running.\<close>

definition before_start :: "bool \<Rightarrow> sensor_process" where
  "before_start running = \<lparr>sp_manager = initial_manager, sp_task = Some (0, Construct, assert_start initial_manager),
     sp_proxy = 0, sp_linked = False, sp_service = (if running then Some 0 else None), sp_started = 1,
     sp_notice = False, sp_crashed = False\<rparr>"

definition process_reachable :: "sensor_process \<Rightarrow> bool" where
  "process_reachable s \<longleftrightarrow> (\<exists>running. process_step\<^sup>*\<^sup>* (before_start running) s)"

section \<open>Lemmas\<close>

text \<open>
  The invariant: a connected manager that is past \<open>linkToDeath\<close> has the service's list when it has one at all, and its
  instance is running or its death is about to be told, unless \<open>linkToDeath\<close> came too late; a
  manager that is not connected has no list.
\<close>

definition at_pc :: "sensor_process \<Rightarrow> sensor_pc \<Rightarrow> bool" where
  "at_pc s pc \<longleftrightarrow> (\<exists>c op. sp_task s = Some (c, op, pc))"

definition process_inv :: "sensor_process \<Rightarrow> bool" where
  "process_inv s \<longleftrightarrow> mSensorList (sp_manager s) = mSensors (sp_manager s)
     \<and> (\<not> mSensorServer (sp_manager s) \<longrightarrow> mSensors (sp_manager s) = [] \<and> \<not> sp_linked s)
     \<and> (sp_notice s \<longleftrightarrow> mSensorServer (sp_manager s) \<and> sp_linked s \<and> \<not> proxy_alive s)
     \<and> (mSensorServer (sp_manager s) \<longrightarrow> sp_proxy s < sp_started s)
     \<and> (\<forall>k. sp_service s = Some k \<longrightarrow> k < sp_started s)
     \<and> (at_pc s Link \<longrightarrow> mSensorServer (sp_manager s) \<and> \<not> sp_linked s)
     \<and> (\<forall>i. at_pc s (Try i) \<longrightarrow> \<not> mSensorServer (sp_manager s))
     \<and> (mSensorServer (sp_manager s) \<and> \<not> sp_linked s \<and> \<not> at_pc s Link \<longrightarrow> \<not> proxy_alive s)"

lemmas manager_simps = call_def tried_def sensorManagerDied_def assert_start_def

lemma process_step_inv: "process_step s s' \<Longrightarrow> process_inv s \<Longrightarrow> process_inv s'"
  by (induction rule: process_step.induct)
    (auto simp: process_inv_def at_pc_def proxy_alive_def lock_free_def manager_simps split: if_splits)

lemma process_reachable_inv: "process_reachable s \<Longrightarrow> process_inv s"
proof -
  have start: "process_inv (before_start running)" for running
    by (simp add: process_inv_def at_pc_def before_start_def initial_manager_def assert_start_def)
  have "process_step\<^sup>*\<^sup>* s0 s \<Longrightarrow> process_inv s0 \<Longrightarrow> process_inv s" for s0
    by (induction rule: rtranclp_induct) (auto intro: process_step_inv)
  with start show "process_reachable s \<Longrightarrow> process_inv s" by (auto simp: process_reachable_def)
qed

text \<open>
  While the service stays as it is, the steps are those of \<open>SensorManager\<close>: its functions, in an environment that
  answers accordingly, are runs of them.
\<close>

definition answers :: "sensor_process \<Rightarrow> sensor_env \<Rightarrow> bool" where
  "answers s e \<longleftrightarrow> NAME_NOT_FOUND e \<noteq> 0
     \<and> (\<forall>cs. service_status e cs = (if sp_service s = None then NAME_NOT_FOUND e else 0))
     \<and> (mSensorServer (sp_manager s) \<and> \<not> proxy_alive s \<longrightarrow> (\<forall>cs. connection e cs = None))"

lemma try_service_found:
  "service_status e = (\<lambda>cs. 0) \<Longrightarrow> NAME_NOT_FOUND e \<noteq> 0 \<Longrightarrow> try_service e 0 0 m = (0, tried 0 m)"
  by (subst try_service.simps) (simp add: Let_def tried_def)

lemma try_service_missing:
  assumes "service_status e = (\<lambda>cs. NAME_NOT_FOUND e)"
  shows "try_service e 0 0 m = (NAME_NOT_FOUND e, tried 3 (tried 2 (tried 1 (tried 0 m))))"
proof -
  have "try_service e i err m = try_service e (i + 1) (NAME_NOT_FOUND e) (tried i m)" if "i < 4" for i err m
    using that assms by (subst try_service.simps) (simp add: Let_def tried_def)
  from this [of 0] this [of 1] this [of 2] this [of 3] show ?thesis
    by (simp add: try_service.simps [of e 4])
qed

definition asserts_to :: "sensor_process \<Rightarrow> nat \<Rightarrow> sensor_op \<Rightarrow> int \<Rightarrow> sensor_manager \<Rightarrow> sensor_process \<Rightarrow> bool" where
  "asserts_to s c op err m s' \<longleftrightarrow> process_step\<^sup>*\<^sup>* s s' \<and> sp_manager s' = m \<and> \<not> sp_crashed s'
     \<and> sp_service s' = sp_service s \<and> sp_task s' = (if err = 0 then Some (c, op, Asserted) else None)
     \<and> (mSensorServer (sp_manager s) \<and> sp_proxy s' = sp_proxy s \<or> err \<noteq> 0 \<or> proxy_alive s')"

lemma assert_runs_found:
  assumes "\<not> sp_crashed s" and "sp_task s = Some (c, op, Try 0)" and "sp_service s = Some k"
  shows "\<exists>s'. asserts_to s c op 0 ((call GetSensorList ((tried 0 (sp_manager s))\<lparr>mSensorServer := True\<rparr>))
    \<lparr>mSensors := l, mSensorList := l\<rparr>) s'"
proof -
  let ?m = "(tried 0 (sp_manager s))\<lparr>mSensorServer := True\<rparr>"
  let ?s1 = "s\<lparr>sp_manager := ?m, sp_proxy := k, sp_linked := False, sp_task := Some (c, op, Link)\<rparr>"
  let ?s2 = "?s1\<lparr>sp_linked := proxy_alive ?s1, sp_task := Some (c, op, List)\<rparr>"
  let ?s3 = "?s2\<lparr>sp_manager := (call GetSensorList ?m)\<lparr>mSensors := l, mSensorList := l\<rparr>, sp_task := Some (c, op, Asserted)\<rparr>"
  have s1: "process_step s ?s1" using assms by (intro process_step.try_finds)
  have s2: "process_step ?s1 ?s2" by (rule process_step.links) (use assms in simp_all)
  have s3: "process_step ?s2 ?s3" using process_step.lists [of ?s2 c op l] assms(1) by simp
  have "process_step\<^sup>*\<^sup>* s ?s3"
    by (rule converse_rtranclp_into_rtranclp [OF s1 converse_rtranclp_into_rtranclp [OF s2 r_into_rtranclp [where r = process_step, OF s3]]])
  then show ?thesis using assms by (intro exI [of _ ?s3]) (simp add: asserts_to_def proxy_alive_def)
qed

lemma assert_runs_missing:
  assumes "\<not> sp_crashed s" and "sp_task s = Some (c, op, Try 0)" and "sp_service s = None" and "err \<noteq> 0"
  shows "\<exists>s'. asserts_to s c op err (tried 3 (tried 2 (tried 1 (tried 0 (sp_manager s))))) s'"
proof -
  define f where "f i m = s\<lparr>sp_manager := m, sp_task := Some (c, op, Try i)\<rparr>" for i m
  have again: "process_step (f i m) (f (i + 1) (tried i m))" if "i + 1 < 4" for i m
    using process_step.try_again [of "f i m" c op i] that assms(1,3) by (simp add: f_def)
  let ?m = "tried 2 (tried 1 (tried 0 (sp_manager s)))"
  have last: "process_step (f 3 ?m) (s\<lparr>sp_manager := tried 3 ?m, sp_task := None\<rparr>)"
    using process_step.gives_up [of "f 3 ?m" c op 3] assms(1,3) by (simp add: f_def)
  have "process_step\<^sup>*\<^sup>* (f 0 (sp_manager s)) (f 3 ?m)"
    using again [of 0 "sp_manager s"] again [of 1 "tried 0 (sp_manager s)"] again [of 2 "tried 1 (tried 0 (sp_manager s))"]
    by (auto intro: converse_rtranclp_into_rtranclp)
  moreover have "f 0 (sp_manager s) = s" using assms(2) by (simp add: f_def)
  ultimately have "process_step\<^sup>*\<^sup>* s (s\<lparr>sp_manager := tried 3 ?m, sp_task := None\<rparr>)"
    using last by (metis rtranclp.rtrancl_into_rtrancl)
  then show ?thesis using assms by (intro exI [of _ "s\<lparr>sp_manager := tried 3 ?m, sp_task := None\<rparr>"]) (simp add: asserts_to_def)
qed

lemma assert_runs:
  assumes "\<not> sp_crashed s" and "sp_task s = Some (c, op, assert_start (sp_manager s))" and "answers s e"
    and "assertStateLocked e (sp_manager s) = (err, m)"
  shows "\<exists>s'. asserts_to s c op err m s'"
proof (cases "mSensorServer (sp_manager s)")
  case True
  with assms show ?thesis
    by (intro exI [of _ s]) (simp add: asserts_to_def assert_start_def assert_connected)
next
  case False
  then have t: "sp_task s = Some (c, op, Try 0)" using assms(2) by (simp add: assert_start_def)
  show ?thesis
  proof (cases "sp_service s")
    case None
    then have "service_status e = (\<lambda>cs. NAME_NOT_FOUND e)" using assms(3) by (auto simp: answers_def)
    note try_service_missing [OF this, of "sp_manager s"]
    moreover have "NAME_NOT_FOUND e \<noteq> 0" using assms(3) by (simp add: answers_def)
    ultimately have "err \<noteq> 0" and "m = tried 3 (tried 2 (tried 1 (tried 0 (sp_manager s))))"
      using assms(4) False by (simp_all add: assertStateLocked_def split: if_splits)
    with assert_runs_missing [OF assms(1) t None] show ?thesis by blast
  next
    case (Some k)
    then have "service_status e = (\<lambda>cs. 0)" using assms(3) by (auto simp: answers_def)
    moreover have "NAME_NOT_FOUND e \<noteq> 0" using assms(3) by (simp add: answers_def)
    ultimately have f: "try_service e 0 0 (sp_manager s) = (0, tried 0 (sp_manager s))" by (rule try_service_found)
    have err: "err = 0" and m: "m = (call GetSensorList ((tried 0 (sp_manager s))\<lparr>mSensorServer := True\<rparr>))
        \<lparr>mSensors := sensor_list e (calls (tried 0 (sp_manager s))), mSensorList := sensor_list e (calls (tried 0 (sp_manager s)))\<rparr>"
      using assms(4) False
      by (cases "tried 0 (sp_manager s)"; auto simp: assertStateLocked_def f Let_def map_nth call_def)+
    show ?thesis unfolding err m by (rule assert_runs_found [OF assms(1) t Some])
  qed
qed

definition runs_to :: "sensor_process \<Rightarrow> sensor_manager \<Rightarrow> bool" where
  "runs_to s m \<longleftrightarrow> (\<exists>s'. process_step\<^sup>*\<^sup>* s s' \<and> sp_manager s' = m \<and> sp_task s' = None)"

lemma runs_to_step: "process_step\<^sup>*\<^sup>* s s1 \<Longrightarrow> process_step s1 s2 \<Longrightarrow> runs_to s2 m \<Longrightarrow> runs_to s m"
  unfolding runs_to_def by (blast intro: rtranclp_trans rtranclp.rtrancl_into_rtrancl)

lemma runs_to_done: "sp_task s = None \<Longrightarrow> runs_to s (sp_manager s)"
  by (auto simp: runs_to_def)

lemma getSensorList_runs:
  assumes "\<not> sp_crashed s" and "sp_task s = Some (c, ListSensors, assert_start (sp_manager s))" and "answers s e"
    and "getSensorList e (sp_manager s) = (r, l, m)"
  shows "runs_to s m"
proof -
  obtain err where a: "assertStateLocked e (sp_manager s) = (err, m)"
    using assms(4) by (auto simp: getSensorList_def split: prod.splits if_splits)
  from assert_runs [OF assms(1-3) a] obtain s' where s': "asserts_to s c ListSensors err m s'" ..
  show ?thesis
  proof (cases "err = 0")
    case True
    with s' have "process_step s' (s'\<lparr>sp_task := None\<rparr>)"
      using process_step.returns [of s' c ListSensors] by (simp add: asserts_to_def)
    with s' show ?thesis using runs_to_step [of s s'] runs_to_done [of "s'\<lparr>sp_task := None\<rparr>"] by (simp add: asserts_to_def)
  next
    case False
    with s' show ?thesis by (auto simp: asserts_to_def runs_to_def)
  qed
qed

lemma createEventQueue_runs:
  assumes "createEventQueue e m = Some r" and "sp_manager s = m" and "\<not> sp_crashed s"
    and "sp_task s = Some (c, CreateQueue, assert_start m)" and "answers s e"
  shows "runs_to s (snd r)"
proof (rule createEventQueue.raw_induct [where P = "\<lambda>e m r. \<forall>s. sp_manager s = m \<longrightarrow> \<not> sp_crashed s \<longrightarrow>
      sp_task s = Some (c, CreateQueue, assert_start m) \<longrightarrow> answers s e \<longrightarrow> runs_to s (snd r)",
      OF _ assms(1), THEN spec, THEN mp, THEN mp, THEN mp, THEN mp, OF _ assms(2-5)])
  fix f e m r
  assume IH: "\<And>e m r. f e m = Some r \<Longrightarrow> \<forall>s. sp_manager s = m \<longrightarrow> \<not> sp_crashed s \<longrightarrow>
      sp_task s = Some (c, CreateQueue, assert_start m) \<longrightarrow> answers s e \<longrightarrow> runs_to s (snd r)"
    and body: "(let (err, m) = assertStateLocked e m
      in if err = 0
         then let c = connection e (calls m); m = call CreateConnection m
           in case c of None \<Rightarrow> f e m | Some q \<Rightarrow> Some (Some q, m)
         else Some (None, m)) = Some r"
  show "\<forall>s. sp_manager s = m \<longrightarrow> \<not> sp_crashed s \<longrightarrow> sp_task s = Some (c, CreateQueue, assert_start m) \<longrightarrow>
      answers s e \<longrightarrow> runs_to s (snd r)"
  proof (intro allI impI)
    fix s assume s: "sp_manager s = m" "\<not> sp_crashed s" "sp_task s = Some (c, CreateQueue, assert_start m)" "answers s e"
    obtain err m1 where a: "assertStateLocked e (sp_manager s) = (err, m1)" by fastforce
    from assert_runs [OF s(2) _ s(4) a] s(1,3) obtain s1 where s1: "asserts_to s c CreateQueue err m1 s1" by blast
    show "runs_to s (snd r)"
    proof (cases "err = 0")
      case False
      with body a s(1) have "snd r = m1" by auto
      with False s1 show ?thesis by (auto simp: asserts_to_def runs_to_def)
    next
      case True
      note D = s1 [unfolded asserts_to_def True, simplified]
      have con: "mSensorServer m1" using assert_connects a True by simp
      have ans: "answers s1 e" using s(4) D assert_connected [of "sp_manager s" e] a by (auto simp: answers_def proxy_alive_def)
      show ?thesis
      proof (cases "connection e (calls m1)")
        case None
        let ?s = "s1\<lparr>sp_manager := call CreateConnection m1, sp_task := Some (c, CreateQueue, assert_start m1)\<rparr>"
        have step: "process_step s1 ?s" using process_step.create_again [of s1 c] D by simp
        have "f e (call CreateConnection m1) = Some r" using body a s(1) None True by (simp add: Let_def)
        from IH [OF this] have "runs_to ?s (snd r)"
          using ans D by (simp add: answers_def proxy_alive_def assert_start_def call_def)
        with D step show ?thesis by (blast intro: runs_to_step)
      next
        case (Some q)
        then have "proxy_alive s1" using ans con D by (auto simp: answers_def)
        then have step: "process_step s1 (s1\<lparr>sp_manager := call CreateConnection m1, sp_task := None\<rparr>)"
          using process_step.create_gives [of s1 c] D by simp
        have "snd r = call CreateConnection m1" using body a s(1) Some True by (auto simp: Let_def)
        with runs_to_step [of s s1, OF _ step] D runs_to_done [of "s1\<lparr>sp_manager := call CreateConnection m1, sp_task := None\<rparr>"]
        show ?thesis by simp
      qed
    qed
  qed
qed

text \<open>A client whose loop runs over the proxy of a dead instance.\<close>

definition asks_the_dead :: "nat \<Rightarrow> sensor_process \<Rightarrow> bool" where
  "asks_the_dead c s \<longleftrightarrow> process_inv s \<and> sp_task s = Some (c, CreateQueue, Asserted)
     \<and> mSensorServer (sp_manager s) \<and> \<not> proxy_alive s"

lemma asks_the_dead_step:
  assumes "process_step s s'" and "asks_the_dead c s"
  shows "asks_the_dead c s' \<and> sp_linked s' = sp_linked s \<and> (\<exists>n. sp_manager s' = asked n (sp_manager s))"
proof -
  have inv: "process_inv s'" using process_step_inv [OF assms(1)] assms(2) by (simp add: asks_the_dead_def)
  have same: "\<exists>n. sp_manager s = asked n (sp_manager s)" by (rule exI [of _ 0]) (simp add: asked_def)
  from assms(1) show ?thesis
  proof (cases rule: process_step.cases)
    case (create_again c')
    with assms(2) inv show ?thesis
      by (auto simp: asks_the_dead_def assert_start_def proxy_alive_def call_def asked_def intro: exI [of _ 1])
  next
    case service_starts
    with assms(2) inv same show ?thesis by (auto simp: asks_the_dead_def process_inv_def proxy_alive_def)
  next
    case (service_dies k)
    with assms(2) inv same show ?thesis by (auto simp: asks_the_dead_def proxy_alive_def)
  qed (use assms(2) in \<open>auto simp: asks_the_dead_def lock_free_def\<close>)
qed

lemma asked_asked: "asked n (asked k m) = asked (k + n) m"
  by (simp add: asked_def replicate_add)




text \<open>Where a null \<open>mSensorServer\<close> can be called.\<close>

definition server_inv :: "sensor_process \<Rightarrow> bool" where
  "server_inv s \<longleftrightarrow> (\<forall>c op pc. sp_task s = Some (c, op, pc) \<longrightarrow>
     op \<noteq> Construct \<longrightarrow> pc \<in> {Link, List, Asserted} \<longrightarrow> mSensorServer (sp_manager s))
   \<and> (sp_crashed s \<longrightarrow> (\<exists>c. sp_task s = Some (c, Construct, List)))"

lemma server_step_inv: "process_step s s' \<Longrightarrow> server_inv s \<Longrightarrow> server_inv s'"
  by (induction rule: process_step.induct)
    (auto simp: server_inv_def lock_free_def manager_simps split: if_splits option.splits)

lemma process_reachable_server_inv: "process_reachable s \<Longrightarrow> server_inv s"
proof -
  have start: "server_inv (before_start running)" for running
    by (simp add: server_inv_def before_start_def)
  have "process_step\<^sup>*\<^sup>* s0 s \<Longrightarrow> server_inv s0 \<Longrightarrow> server_inv s" for s0
    by (induction rule: rtranclp_induct) (auto intro: server_step_inv)
  with start show "process_reachable s \<Longrightarrow> server_inv s" by (auto simp: process_reachable_def)
qed

section \<open>Concrete runs\<close>

text \<open>The constructor has got the proxy of instance 0.\<close>

definition demo_process :: "bool \<Rightarrow> sensor_pc \<Rightarrow> nat option \<Rightarrow> sensor_process" where
  "demo_process linked pc service = \<lparr>sp_manager = \<lparr>mSensorServer = True, mSensorList = [], mSensors = [], calls = [GetService]\<rparr>,
     sp_task = Some (0, Construct, pc), sp_proxy = 0, sp_linked = linked, sp_service = service, sp_started = 1,
     sp_notice = False, sp_crashed = False\<rparr>"

lemma process_reachable_step: "process_reachable s \<Longrightarrow> process_step s s' \<Longrightarrow> process_reachable s'"
  unfolding process_reachable_def by (blast intro: rtranclp.rtrancl_into_rtrancl)

lemma demo_found: "process_reachable (demo_process False Link (Some 0))"
proof -
  have "process_reachable (before_start True)" by (auto simp: process_reachable_def)
  moreover have "process_step (before_start True) (demo_process False Link (Some 0))"
    using process_step.try_finds [of "before_start True" 0 Construct 0 0]
    by (simp add: before_start_def demo_process_def initial_manager_def manager_simps)
  ultimately show ?thesis by (rule process_reachable_step)
qed

lemma demo_linked: "process_reachable (demo_process True List (Some 0))"
  by (rule process_reachable_step [OF demo_found])
    (use process_step.links [of "demo_process False Link (Some 0)" 0 Construct] in \<open>simp add: demo_process_def proxy_alive_def\<close>)


text \<open>Connected to instance 0, which dies while client 3 is in \<open>createEventQueue\<close>.\<close>

definition demo_dead :: sensor_process where
  "demo_dead = \<lparr>sp_manager = \<lparr>mSensorServer = True, mSensorList = [\<lparr>sensor_type = 1, isWakeUpSensor = False\<rparr>],
     mSensors = [\<lparr>sensor_type = 1, isWakeUpSensor = False\<rparr>], calls = [GetService, GetSensorList]\<rparr>,
     sp_task = Some (3, CreateQueue, Asserted), sp_proxy = 0, sp_linked = True, sp_service = None, sp_started = 1,
     sp_notice = True, sp_crashed = False\<rparr>"

lemma demo_dead_reachable: "process_reachable demo_dead"
proof -
  let ?l = "[\<lparr>sensor_type = 1, isWakeUpSensor = False\<rparr>]"
  let ?s = "\<lambda>t. demo_dead\<lparr>sp_task := t, sp_service := Some 0, sp_notice := False\<rparr>"
  have "process_reachable (?s (Some (0, Construct, Asserted)))"
    by (rule process_reachable_step [OF demo_linked])
      (use process_step.lists [of "demo_process True List (Some 0)" 0 Construct ?l] in
        \<open>simp add: demo_process_def demo_dead_def call_def\<close>)
  then have "process_reachable (?s None)"
    by (rule process_reachable_step)
      (use process_step.returns [of "?s (Some (0, Construct, Asserted))" 0 Construct] in \<open>simp add: demo_dead_def\<close>)
  then have "process_reachable (?s (Some (3, CreateQueue, Asserted)))"
    by (rule process_reachable_step)
      (use process_step.begins [of "?s None" CreateQueue 3] in \<open>simp add: demo_dead_def assert_start_def\<close>)
  then show ?thesis
    by (rule process_reachable_step)
      (use process_step.service_dies [of "?s (Some (3, CreateQueue, Asserted))" 0] in \<open>simp add: demo_dead_def\<close>)
qed

section \<open>Properties\<close>

text \<open>
  The constructor runs without the lock, so the notice can come in the middle of it: then \<open>mSensorServer\<close> is null when
  its \<open>getSensorList\<close> is called. This is the only place where a null \<open>mSensorServer\<close> is called.
\<close>

theorem construction_races_with_death:
  "(\<exists>s. process_reachable s \<and> sp_crashed s)
    \<and> (\<forall>s. process_reachable s \<and> sp_crashed s \<longrightarrow> (\<exists>c. sp_task s = Some (c, Construct, List)))"
proof -
  let ?s = "demo_process True List None"
  have r: "process_reachable (?s\<lparr>sp_notice := True\<rparr>)"
    by (rule process_reachable_step [OF demo_linked])
      (use process_step.service_dies [of "demo_process True List (Some 0)" 0] in \<open>simp add: demo_process_def\<close>)
  let ?s' = "?s\<lparr>sp_manager := sensorManagerDied (sp_manager ?s), sp_linked := False\<rparr>"
  have "process_reachable ?s'"
    by (rule process_reachable_step [OF r])
      (use process_step.death_notice [of "?s\<lparr>sp_notice := True\<rparr>"] in \<open>simp add: demo_process_def lock_free_def\<close>)
  moreover have "process_step ?s' (?s'\<lparr>sp_crashed := True\<rparr>)"
    by (rule process_step.lists_null [of _ 0 Construct]) (simp_all add: demo_process_def sensorManagerDied_def)
  ultimately have "process_reachable (?s'\<lparr>sp_crashed := True\<rparr>)" by (rule process_reachable_step)
  then have "\<exists>s. process_reachable s \<and> sp_crashed s" by (intro exI [of _ "?s'\<lparr>sp_crashed := True\<rparr>"]) simp
  then show ?thesis using process_reachable_server_inv by (auto simp: server_inv_def)
qed



text \<open>
  C23. If the service dies while a client is in the loop of \<open>createEventQueue\<close>, that is the end: from any reachable
  state in which a client is in the loop over the proxy of an instance that is dead, every later state, however the
  service is started again and whatever other clients try, has the same client in the loop and holding the lock,
  its thread asking the dead instance again and again, and the notice of the death, if one was registered, waiting
  for the lock.
\<close>

theorem dead_service_blocks_everyone:
  assumes "process_reachable s" and "sp_task s = Some (c, CreateQueue, Asserted)" and "mSensorServer (sp_manager s)"
    and "sp_service s \<noteq> Some (sp_proxy s)" and "process_step\<^sup>*\<^sup>* s s'"
  shows "sp_task s' = Some (c, CreateQueue, Asserted) \<and> \<not> lock_free s' \<and> sp_notice s' = sp_linked s
    \<and> sp_service s' \<noteq> Some (sp_proxy s')
    \<and> (\<exists>n. calls (sp_manager s') = calls (sp_manager s) @ replicate n CreateConnection)"
proof -
  have "asks_the_dead c s' \<and> sp_linked s' = sp_linked s \<and> (\<exists>n. sp_manager s' = asked n (sp_manager s))"
    using assms(5)
  proof (induction rule: rtranclp_induct)
    case base
    have "sp_manager s = asked 0 (sp_manager s)" by (simp add: asked_def)
    with assms(1-4) process_reachable_inv show ?case unfolding asks_the_dead_def proxy_alive_def by blast
  next
    case (step s1 s2)
    then show ?case using asks_the_dead_step [OF step.hyps(2)] asked_asked by metis
  qed
  then show ?thesis by (auto simp: asks_the_dead_def process_inv_def asked_def proxy_alive_def lock_free_def)
qed

theorem dead_service_blocks_everyone_witness:
  "\<exists>s'. process_step\<^sup>*\<^sup>* demo_dead s' \<and> sp_service s' = Some 1 \<and> sp_task s' = Some (3, CreateQueue, Asserted)
    \<and> sp_notice s' \<and> (\<exists>n. calls (sp_manager s') = [GetService, GetSensorList] @ replicate n CreateConnection)"
proof -
  let ?s = "demo_dead\<lparr>sp_service := Some 1, sp_started := 2\<rparr>"
  have "process_step demo_dead ?s"
    using process_step.service_starts [of demo_dead] by (simp add: demo_dead_def numeral_2_eq_2)
  then have s: "process_step\<^sup>*\<^sup>* demo_dead ?s" by (rule r_into_rtranclp)
  have "sp_task demo_dead = Some (3, CreateQueue, Asserted)" "mSensorServer (sp_manager demo_dead)"
    "sp_service demo_dead \<noteq> Some (sp_proxy demo_dead)" "calls (sp_manager demo_dead) = [GetService, GetSensorList]"
    "sp_linked demo_dead"
    by (simp_all add: demo_dead_def)
  with dead_service_blocks_everyone [OF demo_dead_reachable this(1-3) s] s show ?thesis
    by (intro exI [of _ ?s]) simp
qed

end
