(* ===== verification/BoardServices.thy ===== *)
theory BoardServices
  imports CStrings
begin

text \<open>
  The small services of the board: \<^verbatim>\<open>init/init_ctp.cpp\<close> (the serial number property),
  \<^verbatim>\<open>libhealthd/healthd_board_clovertrail.cpp\<close> (charging), \<^verbatim>\<open>libintel-updater/libosip_updater.cpp\<close> (the updater
  function for OS images) and \<^verbatim>\<open>keystore/KeystoreAdapter.cpp\<close>.
\<close>

section \<open>init: the serial number\<close>

definition PHONE_INFO :: string where "PHONE_INFO = ''/factory/SSN''"
definition SERIAL_PROP :: string where "SERIAL_PROP = ''ro.serialno''"
definition SERIAL_LENGTH :: nat where "SERIAL_LENGTH = 17"

definition newline :: char where "newline = CHR 0x0A"

definition strcspn_newline :: "string \<Rightarrow> nat" where
  "strcspn_newline data = length (takeWhile (\<lambda>c. c \<noteq> newline) (c_string data))"

text \<open>The result and the buffer; a store outside the buffer is a fault.\<close>

definition read_file2 :: "node_read \<Rightarrow> string \<Rightarrow> int \<Rightarrow> fault + int \<times> string" where
  "read_file2 node data max_size =
     (if max_size < 1 then Inr (0, data)
      else
        let finish = (\<lambda>d. case d of
              None \<Rightarrow> Inl OutOfBounds
            | Some d \<Rightarrow> (case poke d (int (strcspn_newline d)) [CHR 0x00] of None \<Rightarrow> Inl OutOfBounds | Some d \<Rightarrow> Inr (1, d)))
        in case node of
             OpenFails \<Rightarrow> Inr (0, data)
           | ReadFails \<Rightarrow> finish (poke data 0 [CHR 0x00])
           | Content s \<Rightarrow>
               let bs = take (nat (max_size - 1)) s; rc = int (length bs)
               in (case poke data 0 bs of
                     None \<Rightarrow> Inl OutOfBounds
                   | Some d \<Rightarrow> finish (if rc > 0 \<and> rc < max_size then poke d rc [CHR 0x00] else poke d 0 [CHR 0x00])))"

text \<open>Updating and adding a property both set it; \<open>buf\<close> is the uninitialised local buffer.\<close>

definition get_serial :: "node_read \<Rightarrow> string \<Rightarrow> (string \<Rightarrow> string option) \<Rightarrow> fault + (string \<Rightarrow> string option)" where
  "get_serial node buf props =
     (case read_file2 node buf (int (SERIAL_LENGTH + 1)) of
        Inl f \<Rightarrow> Inl f
      | Inr (r, buf) \<Rightarrow>
          if r \<noteq> 0 \<and> length (c_string buf) > 0 then Inr (props(SERIAL_PROP \<mapsto> c_string buf)) else Inr props)"

definition vendor_load_properties :: "node_read \<Rightarrow> string \<Rightarrow> (string \<Rightarrow> string option) \<Rightarrow> fault + (string \<Rightarrow> string option)" where
  "vendor_load_properties node buf props = get_serial node buf props"

section \<open>healthd\<close>

definition SHUTDOWN_PROP :: string where "SHUTDOWN_PROP = ''init.shutdown_to_charging''"
definition kBacklightPath :: string where "kBacklightPath = ''/sys/class/backlight/psb-bl/brightness''"

record battery_props =
  chargerAcOnline :: bool
  chargerUsbOnline :: bool
  chargerWirelessOnline :: bool

text \<open>The property writes, in order, are kept with the static variable.\<close>

record health_state =
  charger_is_connected :: bool
  property_sets :: "(string \<times> string) list"

definition initial_health :: health_state where
  "initial_health = \<lparr>charger_is_connected = False, property_sets = []\<rparr>"

definition healthd_board_mode_charger_set_backlight :: "bool \<Rightarrow> bool \<Rightarrow> node_writes \<Rightarrow> node_writes" where
  "healthd_board_mode_charger_set_backlight opens enabled w =
     (let brightness = (if enabled then ''50'' @ [newline] else ''0'' @ [newline])
      in if \<not> opens then w else w @ [(kBacklightPath, brightness)])"

definition healthd_board_battery_update :: "battery_props \<Rightarrow> health_state \<Rightarrow> int \<times> health_state" where
  "healthd_board_battery_update props st =
     (let new_is_connected = (chargerAcOnline props \<or> chargerUsbOnline props \<or> chargerWirelessOnline props);
          st = (if new_is_connected \<noteq> charger_is_connected st
                then let st = st\<lparr>charger_is_connected := new_is_connected\<rparr>
                     in st\<lparr>property_sets := property_sets st @
                          [(SHUTDOWN_PROP, if charger_is_connected st then ''1'' else ''0'')]\<rparr>
                else st)
      in (1, st))"

section \<open>The updater function for OS images\<close>

record edify_value =
  is_string :: bool
  value_data :: string

text \<open>
  \<open>ReadValueArgs\<close> and \<open>flash_image\<close> of the updater and of the vendor library are parameters: the values of the two
  arguments, if they evaluate, and the result of flashing.
\<close>

datatype edify_result = ErrorAbort string | NullValue | StringValue string

text \<open>The text after the last slash.\<close>

definition find_last_of :: "char \<Rightarrow> string \<Rightarrow> nat option" where
  "find_last_of c s =
     (let ks = filter (\<lambda>k. s ! k = c) [0..<length s] in if ks = [] then None else Some (last ks))"

definition FlashOSImage :: "nat \<Rightarrow> (edify_value \<times> edify_value) option \<Rightarrow> (string \<Rightarrow> string \<Rightarrow> int)
    \<Rightarrow> edify_result \<times> (string \<times> string) option" where
  "FlashOSImage argc args flash_image =
     (if argc \<noteq> 2 then (ErrorAbort ''expected 2 args'', None)
      else case args of
        None \<Rightarrow> (NullValue, None)
      | Some (arg0, arg1) \<Rightarrow>
          if \<not> is_string arg1 then (ErrorAbort ''partition argument must be string'', None)
          else
            let partition = value_data arg1
            in if partition = [] then (ErrorAbort ''partition argument can't be empty'', None)
               else if value_data arg0 = [] then (ErrorAbort ''image argument can't be empty'', None)
               else
                 let slash = find_last_of (CHR ''/'') partition;
                     image_type = drop (case slash of None \<Rightarrow> 0 | Some k \<Rightarrow> k + 1) partition
                 in if image_type = [] then (ErrorAbort ''invalid partition argument'', None)
                    else if flash_image (value_data arg0) (c_string image_type) \<noteq> 0
                    then (ErrorAbort ''Failed to flash image'', Some (value_data arg0, c_string image_type))
                    else (StringValue ''t'', Some (value_data arg0, c_string image_type)))"

section \<open>The keystore adapter\<close>

text \<open>\<open>hw_get_module_by_class\<close> and the vendor module's \<open>open\<close> are parameters.\<close>

definition keymaster_device_open :: "int \<Rightarrow> (string \<Rightarrow> int) \<Rightarrow> string \<Rightarrow> int" where
  "keymaster_device_open get_module vendor_open name =
     (let rv = get_module in if rv \<noteq> 0 then rv else vendor_open name)"

section \<open>Lemmas\<close>

lemma c_string_line:
  "takeWhile (\<lambda>c. c \<noteq> newline) (c_string s) = takeWhile (\<lambda>c. c \<noteq> newline \<and> c \<noteq> CHR 0x00) s"
  by (induction s) (auto simp: c_string_def)

lemma takeWhile_shorter: "x \<in> set d \<Longrightarrow> \<not> P x \<Longrightarrow> length (takeWhile P d) < length d"
  by (induction d) auto

lemma takeWhile_stop: "\<not> P x \<Longrightarrow> takeWhile P (xs @ x # ys) = takeWhile P xs"
  by (induction xs) auto

text \<open>Cutting a terminated buffer at its first newline leaves the line.\<close>

lemma cut_at_newline:
  assumes "CHR 0x00 \<in> set d"
  shows "\<exists>d'. poke d (int (strcspn_newline d)) [CHR 0x00] = Some d'
    \<and> c_string d' = takeWhile (\<lambda>c. c \<noteq> newline) (c_string d)"
proof -
  let ?l = "takeWhile (\<lambda>c. c \<noteq> newline) (c_string d)"
  have eq: "?l = takeWhile (\<lambda>c. c \<noteq> newline \<and> c \<noteq> CHR 0x00) d" by (rule c_string_line)
  have lt: "length ?l < length d"
    unfolding eq by (rule takeWhile_shorter [OF assms]) simp
  have tk: "take (length ?l) d = ?l" unfolding eq by (rule takeWhile_eq_take [symmetric])
  have "CHR 0x00 \<notin> set ?l" unfolding eq by (auto dest: set_takeWhileD)
  then have "c_string (?l @ CHR 0x00 # drop (length ?l + 1) d) = ?l" by (rule c_string_id)
  with lt tk show ?thesis by (simp add: strcspn_newline_def poke_def)
qed

lemma read_serial:
  assumes "length buf = 18"
  shows "\<exists>r d. read_file2 node buf 18 = Inr (r, d) \<and>
    (case node of OpenFails \<Rightarrow> r = 0
     | ReadFails \<Rightarrow> c_string d = []
     | Content s \<Rightarrow> r = 1 \<and> c_string d = takeWhile (\<lambda>c. c \<noteq> newline \<and> c \<noteq> CHR 0x00) (take 17 s))"
proof (cases node)
  case OpenFails
  then show ?thesis by (simp add: read_file2_def)
next
  case ReadFails
  let ?d = "CHR 0x00 # drop 1 buf"
  have p: "poke buf 0 [CHR 0x00] = Some ?d" using assms by (simp add: poke_def)
  obtain d where "poke ?d (int (strcspn_newline ?d)) [CHR 0x00] = Some d" "c_string d = takeWhile (\<lambda>c. c \<noteq> newline) (c_string ?d)"
    using cut_at_newline [of ?d] by auto
  then show ?thesis using ReadFails p by (simp add: read_file2_def c_string_def)
next
  case (Content s)
  let ?bs = "take 17 s"
  let ?d1 = "?bs @ drop (length ?bs) buf"
  let ?d = "?bs @ CHR 0x00 # drop (length ?bs + 1) buf"
  have p1: "poke buf 0 ?bs = Some ?d1" using assms by (simp add: poke_def)
  have p2: "(if int (length ?bs) > 0 \<and> int (length ?bs) < 18 then poke ?d1 (int (length ?bs)) [CHR 0x00]
      else poke ?d1 0 [CHR 0x00]) = Some ?d"
    using assms by (cases "length ?bs = 0") (auto simp: poke_def min_def split: if_splits)
  have "CHR 0x00 \<in> set ?d" by simp
  from cut_at_newline [OF this] obtain d where d: "poke ?d (int (strcspn_newline ?d)) [CHR 0x00] = Some d"
    "c_string d = takeWhile (\<lambda>c. c \<noteq> newline) (c_string ?d)" by blast
  have "takeWhile (\<lambda>c. c \<noteq> newline) (c_string ?d) = takeWhile (\<lambda>c. c \<noteq> newline \<and> c \<noteq> CHR 0x00) ?bs"
    unfolding c_string_line by (rule takeWhile_stop) simp
  with d have c: "c_string d = takeWhile (\<lambda>c. c \<noteq> newline \<and> c \<noteq> CHR 0x00) ?bs" by simp
  have "read_file2 node buf 18 = Inr (1, d)"
  proof -
    have n: "nat (18 - 1) = 17" "(18 :: int) < 1 \<longleftrightarrow> False" by simp_all
    show ?thesis
      unfolding read_file2_def Let_def Content by (simp only: n node_read.case p1 option.case p2 d(1) if_False)
  qed
  with c show ?thesis using Content by simp
qed

lemma battery_updates:
  "let st = foldl (\<lambda>st p. snd (healthd_board_battery_update p st)) st0 ps;
       connected = map (\<lambda>p. chargerAcOnline p \<or> chargerUsbOnline p \<or> chargerWirelessOnline p) ps
   in charger_is_connected st = last (charger_is_connected st0 # connected) \<and>
      property_sets st = property_sets st0 @
        map (\<lambda>c. (SHUTDOWN_PROP, if c then ''1'' else ''0'')) (tl (remdups_adj (charger_is_connected st0 # connected)))"
proof (induction ps arbitrary: st0)
  case (Cons p ps)
  show ?case
    using Cons [of "snd (healthd_board_battery_update p st0)"]
    by (auto simp: healthd_board_battery_update_def Let_def remdups_adj_Cons split: list.splits)
qed simp

text \<open>The name after the last slash.\<close>

lemma find_last_of_append: "c \<notin> set n \<Longrightarrow> find_last_of c (d @ c # n) = Some (length d)"
proof -
  assume c: "c \<notin> set n"
  let ?s = "d @ c # n"
  have "[0..<length ?s] = [0..<length d] @ [length d..<length d + Suc (length n)]"
    using upt_add_eq_append [of 0 "length d" "Suc (length n)"] by simp
  also have "[length d..<length d + Suc (length n)] = length d # [Suc (length d)..<length d + Suc (length n)]"
    by (rule upt_conv_Cons) simp
  finally have split: "[0..<length ?s] = [0..<length d] @ length d # [Suc (length d)..<length d + Suc (length n)]" .
  have "?s ! k \<noteq> c" if "Suc (length d) \<le> k" "k < length d + Suc (length n)" for k
  proof -
    have "?s ! k = n ! (k - Suc (length d))" using that by (simp add: nth_append nth_Cons')
    moreover have "n ! (k - Suc (length d)) \<in> set n" using that by (intro nth_mem) linarith
    ultimately show ?thesis using c by auto
  qed
  then have "filter (\<lambda>k. ?s ! k = c) [Suc (length d)..<length d + Suc (length n)] = []"
    by (auto simp: filter_empty_conv simp del: upt_Suc)
  then have "filter (\<lambda>k. ?s ! k = c) [0..<length ?s] = filter (\<lambda>k. ?s ! k = c) [0..<length d] @ [length d]"
    unfolding split by simp
  then show ?thesis unfolding find_last_of_def Let_def by simp
qed

lemma flash_named_image:
  assumes "c_string n = n" "n \<noteq> []" "CHR ''/'' \<notin> set n" "img \<noteq> []" "is_string a1" "value_data a1 = d @ CHR ''/'' # n" "value_data a0 = img"
  shows "FlashOSImage 2 (Some (a0, a1)) fl =
    (if fl img n = 0 then StringValue ''t'' else ErrorAbort ''Failed to flash image'', Some (img, n))"
  using assms find_last_of_append [OF assms(3), of d] by (simp add: FlashOSImage_def Let_def)

section \<open>Properties\<close>

text \<open>
  At boot the serial number property becomes the first line of the factory file, of at most 17
  characters, and is left alone when the file is missing or the line is empty; whatever
  the file holds and the stack held, no byte outside the buffer is touched.
\<close>

theorem serial_is_first_line:
  assumes "length buf = SERIAL_LENGTH + 1"
  shows "vendor_load_properties node buf props = Inr
    (case node of
       Content s \<Rightarrow>
         let line = takeWhile (\<lambda>c. c \<noteq> newline \<and> c \<noteq> CHR 0x00) (take SERIAL_LENGTH s)
         in if line = [] then props else props(SERIAL_PROP \<mapsto> line)
     | _ \<Rightarrow> props)"
proof -
  have "length buf = 18" using assms by (simp add: SERIAL_LENGTH_def)
  from read_serial [OF this, of node] obtain r d where "read_file2 node buf 18 = Inr (r, d)"
    and "case node of OpenFails \<Rightarrow> r = 0 | ReadFails \<Rightarrow> c_string d = []
     | Content s \<Rightarrow> r = 1 \<and> c_string d = takeWhile (\<lambda>c. c \<noteq> newline \<and> c \<noteq> CHR 0x00) (take 17 s)" by blast
  then show ?thesis
    by (cases node) (auto simp: vendor_load_properties_def get_serial_def SERIAL_LENGTH_def Let_def)
qed

theorem serial_is_first_line_witness:
  "vendor_load_properties (Content (''E5OKCT12'' @ [newline] @ ''x'')) (replicate 18 CHR ''?'') Map.empty
    = Inr [SERIAL_PROP \<mapsto> ''E5OKCT12'']"
  by (subst serial_is_first_line) (simp_all add: SERIAL_LENGTH_def newline_def)

text \<open>
  The charging property is written exactly when the charger is connected or disconnected: after
  any battery updates the writes are the connection states with repetitions, and the
  initial disconnected state, left out, and the variable holds the last one.
\<close>

theorem charging_property_follows_changes:
  "let st = foldl (\<lambda>st p. snd (healthd_board_battery_update p st)) initial_health ps;
       connected = map (\<lambda>p. chargerAcOnline p \<or> chargerUsbOnline p \<or> chargerWirelessOnline p) ps
   in charger_is_connected st = last (False # connected) \<and>
      property_sets st = map (\<lambda>c. (SHUTDOWN_PROP, if c then ''1'' else ''0'')) (tl (remdups_adj (False # connected)))"
  using battery_updates [where ps = ps and ?st0.0 = initial_health] by (simp add: Let_def initial_health_def)

end
