(* ===== verification/Shims.thy ===== *)
theory Shims
  imports Prelude
begin

text \<open>
  The symbol shims of \<^verbatim>\<open>libshims/\<close>: functions under the names that old binaries import, each of which calls
  the function of today's library. The libraries are parameters: a library is a function from a call
  and a state of the process to the result and the next state. The target is 32-bit, a pointer
  is a word.
\<close>

type_synonym ptr = "32 word"
type_synonym ('c, 's) library = "'c \<Rightarrow> 's \<Rightarrow> 32 word \<times> 's"

section \<open>\<^verbatim>\<open>icu53.c\<close>\<close>

text \<open>The functions of ICU that the shims call, with their parameters in order.\<close>

datatype icu_call =
    Ucnv_open ptr ptr
  | Ucnv_close ptr
  | UCNV_TO_U_CALLBACK_STOP ptr ptr ptr int "32 word" ptr
  | UCNV_FROM_U_CALLBACK_STOP ptr ptr ptr int int "32 word" ptr
  | Ucnv_setToUCallBack ptr ptr ptr ptr ptr ptr
  | Ucnv_setFromUCallBack ptr ptr ptr ptr ptr ptr
  | Ucnv_convertEx ptr ptr ptr ptr ptr ptr ptr ptr ptr ptr bool bool ptr

definition ucnv_open_53 :: "(icu_call, 's) library \<Rightarrow> ptr \<Rightarrow> ptr \<Rightarrow> 's \<Rightarrow> ptr \<times> 's" where
  "ucnv_open_53 icu converterName err s = icu (Ucnv_open converterName err) s"

definition ucnv_close_53 :: "(icu_call, 's) library \<Rightarrow> ptr \<Rightarrow> 's \<Rightarrow> 's" where
  "ucnv_close_53 icu converter s = snd (icu (Ucnv_close converter) s)"

definition UCNV_TO_U_CALLBACK_STOP_53 ::
    "(icu_call, 's) library \<Rightarrow> ptr \<Rightarrow> ptr \<Rightarrow> ptr \<Rightarrow> int \<Rightarrow> 32 word \<Rightarrow> ptr \<Rightarrow> 's \<Rightarrow> 's" where
  "UCNV_TO_U_CALLBACK_STOP_53 icu context' toUArgs codeUnits len reason err s =
     snd (icu (UCNV_TO_U_CALLBACK_STOP context' toUArgs codeUnits len reason err) s)"

definition UCNV_FROM_U_CALLBACK_STOP_53 ::
    "(icu_call, 's) library \<Rightarrow> ptr \<Rightarrow> ptr \<Rightarrow> ptr \<Rightarrow> int \<Rightarrow> int \<Rightarrow> 32 word \<Rightarrow> ptr \<Rightarrow> 's \<Rightarrow> 's" where
  "UCNV_FROM_U_CALLBACK_STOP_53 icu context' fromUArgs codeUnits len codePoint reason err s =
     snd (icu (UCNV_FROM_U_CALLBACK_STOP context' fromUArgs codeUnits len codePoint reason err) s)"

definition ucnv_setToUCallBack_53 ::
    "(icu_call, 's) library \<Rightarrow> ptr \<Rightarrow> ptr \<Rightarrow> ptr \<Rightarrow> ptr \<Rightarrow> ptr \<Rightarrow> ptr \<Rightarrow> 's \<Rightarrow> 's" where
  "ucnv_setToUCallBack_53 icu converter newAction newContext oldAction oldContext err s =
     snd (icu (Ucnv_setToUCallBack converter newAction newContext oldAction oldContext err) s)"

definition ucnv_setFromUCallBack_53 ::
    "(icu_call, 's) library \<Rightarrow> ptr \<Rightarrow> ptr \<Rightarrow> ptr \<Rightarrow> ptr \<Rightarrow> ptr \<Rightarrow> ptr \<Rightarrow> 's \<Rightarrow> 's" where
  "ucnv_setFromUCallBack_53 icu converter newAction newContext oldAction oldContext err s =
     snd (icu (Ucnv_setFromUCallBack converter newAction newContext oldAction oldContext err) s)"

definition ucnv_convertEx_53 :: "(icu_call, 's) library \<Rightarrow> ptr \<Rightarrow> ptr \<Rightarrow> ptr \<Rightarrow> ptr \<Rightarrow> ptr \<Rightarrow> ptr
    \<Rightarrow> ptr \<Rightarrow> ptr \<Rightarrow> ptr \<Rightarrow> ptr \<Rightarrow> bool \<Rightarrow> bool \<Rightarrow> ptr \<Rightarrow> 's \<Rightarrow> 's" where
  "ucnv_convertEx_53 icu targetCnv sourceCnv target targetLimit source sourceLimit
      pivotStart pivotSource pivotTarget pivotLimit reset flush pErrorCode s =
     snd (icu (Ucnv_convertEx targetCnv sourceCnv target targetLimit source sourceLimit
      pivotStart pivotSource pivotTarget pivotLimit reset flush pErrorCode) s)"

section \<open>\<^verbatim>\<open>ssl_lib.c\<close> and \<^verbatim>\<open>crypto_malloc.c\<close>\<close>

text \<open>
  The table of a protocol as the shim declares it. Its entries are addresses of functions;
  calling one is the parameter \<open>call_ctx_ctrl\<close>.
\<close>

record ssl_protocol_method_st =
  is_dtls :: "8 word"
  ssl_new :: ptr
  ssl_free :: ptr
  ssl_accept :: ptr
  ssl_connect :: ptr
  ssl_get_message :: ptr
  ssl_read_app_data :: ptr
  ssl_read_change_cipher_spec :: ptr
  ssl_read_close_notify :: ptr
  ssl_write_app_data :: ptr
  ssl_dispatch_alert :: ptr
  ssl_ctx_ctrl :: ptr
  supports_cipher :: ptr
  hhlen :: "32 word"
  set_handshake_header :: ptr
  do_write :: ptr

text \<open>\<open>ssl_method\<close> is what \<open>ctx->method\<close> points to, if \<open>ctx\<close> and that pointer are not null.\<close>

definition SSL_CTX_ctrl ::
    "(ptr \<Rightarrow> ssl_protocol_method_st option) \<Rightarrow> (ptr \<times> ptr \<times> int \<times> int \<times> ptr, 's) library
      \<Rightarrow> ptr \<Rightarrow> int \<Rightarrow> int \<Rightarrow> ptr \<Rightarrow> 's \<Rightarrow> fault + 32 word \<times> 's" where
  "SSL_CTX_ctrl ssl_method call_ctx_ctrl ctx cmd larg parg s =
     (case ssl_method ctx of
        None \<Rightarrow> Inl NullDeref
      | Some m \<Rightarrow> Inr (call_ctx_ctrl (ssl_ctx_ctrl m, ctx, cmd, larg, parg) s))"

text \<open>The \<open>int\<close> becomes the \<open>size_t\<close> of \<open>malloc\<close>; file and line are not looked at.\<close>

definition CRYPTO_malloc :: "(32 word, 's) library \<Rightarrow> int \<Rightarrow> ptr \<Rightarrow> int \<Rightarrow> 's \<Rightarrow> ptr \<times> 's" where
  "CRYPTO_malloc malloc num file line s = malloc (word_of_int num) s"

section \<open>\<^verbatim>\<open>CameraParameters.cpp\<close>\<close>

definition KEY_CONTINUOUS_BURST_NUM :: string where "KEY_CONTINUOUS_BURST_NUM = ''continuous-burst-num''"
definition KEY_CONTINUOUS_BURST_FPS :: string where "KEY_CONTINUOUS_BURST_FPS = ''continuous-burst-fps''"

section \<open>\<^verbatim>\<open>gui/SurfaceComposerClient.cpp\<close> and \<^verbatim>\<open>graphicbuffer.cpp\<close>\<close>

text \<open>
  Two shims stand in for member functions of classes and are written as free functions. A call is
  made with the words of its arguments on the stack, the first one first, and a function reads its
  parameters from there, by position. By the C++ calling convention of the target a member
  function, a constructor too, has the object's address before its declared parameters, a class
  that is not trivially copyable, such as \<open>std::string\<close>, is passed as the address of an object, and
  the place for a result of such a class is passed as an address before everything else.
\<close>

type_synonym stack_args = "32 word list"

text \<open>The call that \<open>createSurfaceLegacy\<close> makes; \<open>result\<close> is the place for the \<open>sp<SurfaceControl>\<close>.\<close>

definition createSurfaceLegacy :: "ptr \<Rightarrow> ptr \<Rightarrow> ptr \<Rightarrow> 32 word \<Rightarrow> 32 word \<Rightarrow> 32 word \<Rightarrow> 32 word \<Rightarrow> stack_args" where
  "createSurfaceLegacy result client name width height format flags =
     [result, client, name, width, height, format, flags, 0, 0, 0]"

text \<open>
  The call that the constructor shim makes; \<open>requestorName\<close> is the address of the string it has
  built, with the text \<open>requestor_name\<close>.
\<close>

definition requestor_name :: string where "requestor_name = ''<Unknown>''"

definition GraphicBufferC1Ejjij :: "ptr \<Rightarrow> 32 word \<Rightarrow> 32 word \<Rightarrow> 32 word \<Rightarrow> 32 word \<Rightarrow> stack_args" where
  "GraphicBufferC1Ejjij requestorName inWidth inHeight inFormat inUsage =
     [inWidth, inHeight, inFormat, inUsage, requestorName]"

text \<open>How a function with \<open>n\<close> parameter words reads them; \<open>None\<close> is a word that the caller did not pass.\<close>

definition parameters :: "nat \<Rightarrow> stack_args \<Rightarrow> 32 word option list" where
  "parameters n st = map (\<lambda>i. if i < length st then Some (st ! i) else None) [0..<n]"

text \<open>What the declared parameters of the two shims get, by position, when a caller of the member function comes in.\<close>

definition run_createSurface :: "stack_args \<Rightarrow> stack_args option" where
  "run_createSurface st = (case parameters 7 st of
      [Some r, Some c, Some n, Some w, Some h, Some f, Some fl] \<Rightarrow> Some (createSurfaceLegacy r c n w h f fl)
    | _ \<Rightarrow> None)"

definition run_GraphicBufferC1 :: "ptr \<Rightarrow> stack_args \<Rightarrow> stack_args option" where
  "run_GraphicBufferC1 requestorName st = (case parameters 4 st of
      [Some w, Some h, Some f, Some u] \<Rightarrow> Some (GraphicBufferC1Ejjij requestorName w h f u)
    | _ \<Rightarrow> None)"

section \<open>Lemmas\<close>

lemma upt_small: "[0..<4] = [0, 1, 2, 3]" "[0..<6] = [0, 1, 2, 3, 4, 5]" "[0..<7] = [0, 1, 2, 3, 4, 5, 6]"
  by (simp_all add: upt_rec)

lemma CRYPTO_malloc_negative:
  assumes "INT_MIN \<le> num" and "num < 0"
  shows "CRYPTO_malloc malloc num file line s = malloc (of_nat (nat (num + 2 ^ 32))) s
    \<and> 2 ^ 31 \<le> nat (num + 2 ^ 32)"
proof -
  have "(4294967296 :: 32 word) = 0" by simp
  then have "of_nat (nat (num + 2 ^ 32)) = (word_of_int num :: 32 word)"
    using assms by (simp add: INT_MIN_def of_nat_nat)
  then show ?thesis using assms by (simp only: CRYPTO_malloc_def) (simp add: INT_MIN_def le_nat_iff)
qed

text \<open>The surface shim passes everything on, with no parent and the two numbers 0.\<close>

lemma createSurface_forwards:
  "run_createSurface [result, this, name, width, height, format, flags] =
    Some [result, this, name, width, height, format, flags, 0, 0, 0]"
  by (simp add: run_createSurface_def createSurfaceLegacy_def parameters_def upt_small)

section \<open>Properties\<close>

text \<open>
  The constructor shim has no parameter for the object. A caller of the old constructor passes the
  object, width, height, format and usage; the new constructor, which reads the object, four
  numbers and the address of the name, gets the object, the width, the height and the format
  right, but the address of the shim's string as the usage, and no name at all; the caller's usage is lost.
\<close>

theorem graphicbuffer_shim_loses_usage:
  "map_option (parameters 6) (run_GraphicBufferC1 requestorName [this, width, height, format, usage]) =
    Some [Some this, Some width, Some height, Some format, Some requestorName, None]"
  by (simp add: run_GraphicBufferC1_def GraphicBufferC1Ejjij_def parameters_def upt_small)

end
