(* ===== verification/Spec2Isabelle.thy ===== *)
theory Spec2Isabelle
  imports SensorLiveness SensorClose PowerHal UmipPower Lights HalPublic CameraWrapper BootImage SensorService
    BoardServices Shims
begin

text \<open>
  Verification library of the Android device tree of the Asus T00F (ZenFone 5, Intel Clovertrail).

  The tree is configuration around a number of native programs and libraries. They are separate
  pieces, loaded by different processes of the system, and are modelled one theory each; the sensor
  module is the largest and is split into its layers. All are 32-bit little-endian code, except the host
  tools of \<^verbatim>\<open>mkbootimg\<close>.

  \<^bold>\<open>The multi-HAL sensor module\<close> (\<^verbatim>\<open>sensors/\<close>). Several vendor sensor modules are loaded behind one:
  a thread per module polls it and writes the events into a ring buffer, and the framework's
  \<open>poll\<close> collects them fairly, with the sensor handles translated.
  \<^item> \<open>EventQueue\<close>: \<^verbatim>\<open>SensorEventQueue.cpp\<close>, the ring buffer, as a record with the fields of the class. The interface
    that the layers above use are the locales \<open>fifo_reader\<close> and \<open>fifo_writer\<close>, interpreted on the model; the
    queue refines a list.
  \<^item> \<open>SensorHandles\<close>: the tables between global and (module, local) handles of \<^verbatim>\<open>multihal.cpp\<close>,
    with their interface as the locale \<open>handle_registry\<close>.
  \<^item> \<open>MultiHal\<close>: loading the modules of the configuration file, merging their sensor lists, opening, and the
    calls \<open>activate\<close>, \<open>setDelay\<close>, \<open>batch\<close>, \<open>flush\<close> and \<open>inject_sensor_data\<close>, each routed to the
    module that owns the handle. Errors of modules and missing files are parameters.
  \<^item> \<open>MultiHalPoll\<close>: \<open>poll\<close> over the queues; the waiting of the reader is a parameter, a list of what the queues hold at
    each wake-up. Lemmas: order, fairness, termination, and that handles of delivered events route back.
  \<^item> \<open>SensorThreads\<close>: the writer threads and the reader as an inductive step relation on the shared state, one
    critical section per step, labelled with what is seen from outside. \<open>sys_inv\<close> is its invariant; the lemmas show
    that no event is lost or reordered, that no wake-up is lost, and that writers store only into free slots.
  \<^item> \<open>SensorMailbox\<close>: the abstract specification of the module, one unbounded mailbox per sub-HAL without rings, locks or
    sleeping, and the proof that the threads refine it (locale \<open>step_refinement\<close> of \<open>Refinement\<close>). From it follow the
    contract of \<open>poll\<close> over a whole run and, with \<open>MultiHal\<close>, that readings carry the handle of their sensor.
  \<^item> \<open>SensorInts\<close>: the other theories compute with \<open>int\<close>; here the arithmetic of the queue and of \<open>poll\<close> is
    repeated with every C operation checked against the range of \<open>int\<close>, and no reachable state fails a check.
  \<^item> \<open>SensorProgress\<close>: a bound on the steps that all threads together take while \<open>poll\<close> holds the mutex.
  \<^item> \<open>SensorLiveness\<close>: infinite runs; under weak fairness of the reader's lock, a \<open>poll\<close> with something to deliver
    returns.
  \<^item> \<open>SensorClose\<close>: closing the module, which leaves the writer threads running over closed devices.

  \<^bold>\<open>Power HAL\<close> (\<open>PowerHal\<close>, \<^verbatim>\<open>power/power.cpp\<close>): the cpufreq limits by profile and screen state. The
  nodes are a log of writes, so that the order of writes is part of the theorems. \<open>CStrings\<close> holds the C
  library functions that it and the other parsers use.

  \<^bold>\<open>Firmware updater of the recovery\<close> (\<^verbatim>\<open>recovery/\<close>): \<open>FwVersion\<close> reads the versions of an image and of the device, \<open>UmipFlash\<close>
  checks them and writes both boot partitions, keeping the token area and recomputing the checksums. A partition is
  a byte list; every outcome of a system call is a parameter, and every error label of the code a branch.
  \<open>UmipPower\<close> has the moments of a flash, for a loss of power in the middle. \<open>Bytes\<close> has the loads and stores.

  \<^bold>\<open>Lights HAL\<close> (\<open>Lights\<close>, \<^verbatim>\<open>liblights/lights.c\<close>): the three prioritised lights on one LED, and the backlight;
  opening and closing a light, with the one-time initialisation.

  \<^bold>\<open>Graphics shims\<close> (\<^verbatim>\<open>libshims/ui/\<close>): \<open>Gralloc\<close> is the allocator and the mapper in front of the gralloc module, \<open>GraphicBuffer\<close> the
  buffer with its owner, and its form in a parcel; what it relies on is the locale \<open>buffer_allocator\<close>. Calls to the module, to the kernel for fences and to
  libcutils for handles are recorded in order; a region of a parcel is a list of words and an access outside it a fault.
  \<open>HalPublic\<close> is the alignment and the native handle of \<^verbatim>\<open>include/hal/hal_public.h\<close>, the form in which such
  handles come from the vendor's gralloc module.

  \<^bold>\<open>Camera wrapper\<close> (\<open>CameraWrapper\<close>, \<^verbatim>\<open>camera/CameraWrapper.cpp\<close>): every operation, over the heap blocks of the wrapper, so that a
  second release and the use of a released block are faults. The theorem for one open camera is an
  invariant over all command sequences and all failures; the theorem for two cameras is a counterexample to it.

  \<^bold>\<open>Sensor manager shim\<close> (\<open>SensorManager\<close>, \<^verbatim>\<open>libshims/gui/SensorManager.cpp\<close>): the connection to the sensor service and the
  loop that creates an event queue, a partial function whose termination is characterised. \<open>SensorService\<close> puts the
  manager, with its lock and its death notice, against a service that dies and starts again between any two calls, as a step
  relation of single calls: when the manager is told of a death and when it never is, the livelock of a client whose service dies,
  and the race of the constructor, which has no lock. While the service does not change, the steps are the functions of
  \<open>SensorManager\<close>.

  \<^bold>\<open>Boot image tools\<close> (\<open>BootImage\<close>, \<^verbatim>\<open>mkbootimg/\<close>): packing and unpacking, as inverses; the loops of
  the unpacker are partial functions, and the images on which they end are characterised.

  \<^bold>\<open>Board services\<close> (\<open>BoardServices\<close>): the serial number (\<^verbatim>\<open>init/\<close>), charging (\<^verbatim>\<open>libhealthd/\<close>), the updater function
  for OS images (\<^verbatim>\<open>libintel-updater/\<close>) and the keystore adapter (\<^verbatim>\<open>keystore/\<close>).

  \<^bold>\<open>Symbol shims\<close> (\<open>Shims\<close>, the files directly under \<^verbatim>\<open>libshims/\<close> and the surface client): functions under old names, each one
  call of a library, which is a parameter; for the two that stand in for member functions, what the parameters get by position.

  \<^bold>\<open>Conventions.\<close> \<open>Prelude\<close> holds the error numbers, the faults (null dereference, access out of bounds, uncaught exception,
  release of a dead block), bounded stores and the nodes of sysfs. A result \<open>Inl\<close> is a fault, a result
  \<open>Inr\<close> the value the C function returns; out-parameters are further components. Code that is not in the
  tree (the HAL modules, the kernel, libraries) is an argument: a function from the calls made so far to an answer.
  Integers are \<open>int\<close> where they stay far from their limits, words where wrap-around or bits matter.

  \<^bold>\<open>Bounds and fuel.\<close> No definition uses fuel: loops are structural, have a measure, or are
  \<open>partial_function\<close> or \<open>while_option\<close>, with \<open>None\<close> for not returning; that they return is then a theorem. The loops of
  \<open>poll\<close> and \<open>waitForSpace\<close> take the list of wake-ups that happen.

  \<^bold>\<open>Not modelled.\<close> Log output; the printed text of \<open>dump\<close>; the \<open>QCOM_BSP_LEGACY\<close> and \<open>EXYNOS4_ENHANCEMENTS\<close> variants, which
  are not compiled;
  the kernel headers (\<^verbatim>\<open>kernel-headers/\<close>), generated from the kernel's: ioctl structures and constants for the vendor's
  closed libraries, which no code of the tree uses; \<^verbatim>\<open>include/ufo/gralloc.h\<close> and what \<^verbatim>\<open>hal_public.h\<close> has beside
  the parts named above, declarations of the same kind; \<^verbatim>\<open>libshims/atomic.cpp\<close>,
  which only asks for a header to be compiled; Java classes, scripts, policies and resources.
\<close>

end
